(* ===== verification/Kernel_Prelude.thy ===== *)
theory Kernel_Prelude
  imports Main "HOL-Library.Word" "HOL-Library.Monad_Syntax"
begin

text \<open>
  Shared vocabulary of the development: the machine types of
  \<^verbatim>\<open>include/system/types.h\<close>, the error codes of
  \<^verbatim>\<open>include/system/error.hpp\<close>, the collections of rewrite rules the component
  theories feed, and the generic facts on lists and options they share.
\<close>

section \<open>Machine types\<close>

text \<open>
  \<^verbatim>\<open>size_t\<close>, \<^verbatim>\<open>uintptr_t\<close> and \<^verbatim>\<open>uint64_t\<close> are 64-bit words, arithmetic on them
  wraps. \<^verbatim>\<open>error_code\<close> is \<^verbatim>\<open>int64_t\<close>; its values stay within the enumeration below and
  their negations, so it is an integer here.
\<close>

type_synonym u64 = "64 word"
type_synonym u32 = "32 word"
type_synonym u16 = "16 word"
type_synonym u8 = "8 word"
type_synonym error_code = int

section \<open>Error codes\<close>

text \<open>The enumeration \<^verbatim>\<open>error_code_values\<close>, in the order of the source.\<close>

datatype (plugins del: quickcheck_random quickcheck_exhaustive quickcheck_narrowing)
    error_code_values =
    ERROR_SUCCESS | ERROR_UNKOWN | ERROR_INVALID | ERROR_NOT_IMPL | ERROR_LOCK_STATUS
  | ERROR_UNSUPPORTED | ERROR_MEMORY_ALLOC | ERROR_REWRITE | ERROR_VMA_NOT_FOUND
  | ERROR_PAGE_NOT_PRESENT | ERROR_HARDWARE_NOT_COMPATIBLE | ERROR_TOO_MANY_PROC
  | ERROR_CANNOT_WAKEUP | ERROR_HAS_KILLED | ERROR_BUSY | ERROR_TIMEOUT | ERROR_IO
  | ERROR_OBSOLETE | ERROR_OUT_OF_BOUND | ERROR_INTERNAL | ERROR_IS_DIR | ERROR_NOT_DIR
  | ERROR_DEV_NOT_FOUND | ERROR_NO_ENTRY | ERROR_EOF | ERROR_INVALID_ACCESS
  | ERROR_SHOULD_NOT_REACH_HERE | ERROR_TOO_MANY_CALLS | ERROR_ACCESS | ERROR_NOT_EXIST
  | ERROR_ALREADY_EXIST | ERROR_NOT_FILE | ERROR_PERMISSION | ERROR_INTERNAL_INTR_KILLED
  | ERROR_INTERNAL_INTR_RETRY | ERROR_IPC_NOT_THE_SENDER | ERROR_TOO_MANY_HANDLES
  | ERROR_CODE_COUNT

text \<open>The integer an enumerator stands for: its position.\<close>

primrec code_of :: "error_code_values \<Rightarrow> error_code" where
  "code_of ERROR_SUCCESS = 0"
| "code_of ERROR_UNKOWN = 1"
| "code_of ERROR_INVALID = 2"
| "code_of ERROR_NOT_IMPL = 3"
| "code_of ERROR_LOCK_STATUS = 4"
| "code_of ERROR_UNSUPPORTED = 5"
| "code_of ERROR_MEMORY_ALLOC = 6"
| "code_of ERROR_REWRITE = 7"
| "code_of ERROR_VMA_NOT_FOUND = 8"
| "code_of ERROR_PAGE_NOT_PRESENT = 9"
| "code_of ERROR_HARDWARE_NOT_COMPATIBLE = 10"
| "code_of ERROR_TOO_MANY_PROC = 11"
| "code_of ERROR_CANNOT_WAKEUP = 12"
| "code_of ERROR_HAS_KILLED = 13"
| "code_of ERROR_BUSY = 14"
| "code_of ERROR_TIMEOUT = 15"
| "code_of ERROR_IO = 16"
| "code_of ERROR_OBSOLETE = 17"
| "code_of ERROR_OUT_OF_BOUND = 18"
| "code_of ERROR_INTERNAL = 19"
| "code_of ERROR_IS_DIR = 20"
| "code_of ERROR_NOT_DIR = 21"
| "code_of ERROR_DEV_NOT_FOUND = 22"
| "code_of ERROR_NO_ENTRY = 23"
| "code_of ERROR_EOF = 24"
| "code_of ERROR_INVALID_ACCESS = 25"
| "code_of ERROR_SHOULD_NOT_REACH_HERE = 26"
| "code_of ERROR_TOO_MANY_CALLS = 27"
| "code_of ERROR_ACCESS = 28"
| "code_of ERROR_NOT_EXIST = 29"
| "code_of ERROR_ALREADY_EXIST = 30"
| "code_of ERROR_NOT_FILE = 31"
| "code_of ERROR_PERMISSION = 32"
| "code_of ERROR_INTERNAL_INTR_KILLED = 33"
| "code_of ERROR_INTERNAL_INTR_RETRY = 34"
| "code_of ERROR_IPC_NOT_THE_SENDER = 35"
| "code_of ERROR_TOO_MANY_HANDLES = 36"
| "code_of ERROR_CODE_COUNT = 37"

text \<open>
  \<^verbatim>\<open>error_code_with_result<T>\<close> is \<^verbatim>\<open>std::variant<error_code, T>\<close>: a sum.
  \<open>has_error\<close> treats a variant that holds \<open>ERROR_SUCCESS\<close> as no error.
\<close>

type_synonym 'a error_code_with_result = "error_code + 'a"

fun has_error :: "'a error_code_with_result \<Rightarrow> bool" where
  "has_error (Inl e) = (e \<noteq> code_of ERROR_SUCCESS)"
| "has_error (Inr _) = False"

fun get_error_code :: "'a error_code_with_result \<Rightarrow> error_code" where
  "get_error_code (Inl e) = e"
| "get_error_code (Inr _) = code_of ERROR_SUCCESS"

text \<open>\<^verbatim>\<open>std::get\<close> on the wrong alternative throws, which the kernel cannot catch.\<close>

fun get_result :: "'a error_code_with_result \<Rightarrow> 'a option" where
  "get_result (Inl _) = None"
| "get_result (Inr r) = Some r"

lemma has_error_iff_code:
  "has_error r \<longleftrightarrow> get_error_code r \<noteq> code_of ERROR_SUCCESS"
  by (cases r) auto

section \<open>Collections of rewrite rules\<close>

named_theorems heap_simps \<open>reads over writes of the link heap\<close>
named_theorems kernel_defs \<open>definitions the component proofs unfold\<close>

section \<open>Generic facts\<close>

text \<open>
  A failed \<^verbatim>\<open>KDEBUG_ASSERT\<close> panics the kernel and an access through a null or dangling
  pointer faults. Both end the computation: a partial operation of the model is
  option-valued and \<open>None\<close> is that end.
\<close>

definition kassert :: "bool \<Rightarrow> unit option" where
  "kassert b = (if b then Some () else None)"

lemma kassert_True [simp]: "kassert True = Some ()"
  by (simp add: kassert_def)

lemma kassert_False [simp]: "kassert False = None"
  by (simp add: kassert_def)

lemma kassert_Some_iff [simp]: "kassert b = Some u \<longleftrightarrow> b"
  by (simp add: kassert_def)

lemma kassert_bind_Some_iff [simp]:
  "Option.bind (kassert b) f = Some r \<longleftrightarrow> b \<and> f () = Some r"
  by (simp add: kassert_def)

lemma in_set_tlD: "x \<in> set (tl xs) \<Longrightarrow> x \<in> set xs"
  by (cases xs) auto

end
