(* ===== verification/Link_Heap.thy ===== *)
theory Link_Heap
  imports Kernel_Prelude
begin

text \<open>
  The links of the kernel's intrusive list, \<^verbatim>\<open>kern/libs/kbl/include/kbl/data/list.hpp\<close>: the
  class \<^verbatim>\<open>list_link\<close> and the static helpers of \<^verbatim>\<open>intrusive_list\<close> that rewire it. Links live
  in a heap from addresses to \<open>list_link\<close> records; a helper is a sequence of reads and
  writes of that heap, and \<open>None\<close> is an access through a null or dangling pointer. The
  predicate \<open>ring\<close> says that a sentinel and a sequence of links form a well-formed circular
  list; the lemmas give the effect of each helper on rings.
\<close>

section \<open>Links and the heap\<close>

type_synonym addr = nat

record 'p list_link =
  lk_parent :: "'p option"
  lk_next :: addr
  lk_prev :: addr

type_synonym 'p heap = "addr \<Rightarrow> 'p list_link option"

abbreviation nullptr :: addr where
  "nullptr \<equiv> 0"

definition get_next :: "'p heap \<Rightarrow> addr \<Rightarrow> addr option" where
  "get_next h p = map_option lk_next (h p)"

definition get_prev :: "'p heap \<Rightarrow> addr \<Rightarrow> addr option" where
  "get_prev h p = map_option lk_prev (h p)"

definition get_parent :: "'p heap \<Rightarrow> addr \<Rightarrow> 'p option option" where
  "get_parent h p = map_option lk_parent (h p)"

definition set_next :: "addr \<Rightarrow> addr \<Rightarrow> 'p heap \<Rightarrow> 'p heap option" where
  "set_next p v h = (case h p of None \<Rightarrow> None | Some l \<Rightarrow> Some (h(p \<mapsto> l\<lparr>lk_next := v\<rparr>)))"

definition set_prev :: "addr \<Rightarrow> addr \<Rightarrow> 'p heap \<Rightarrow> 'p heap option" where
  "set_prev p v h = (case h p of None \<Rightarrow> None | Some l \<Rightarrow> Some (h(p \<mapsto> l\<lparr>lk_prev := v\<rparr>)))"

definition set_parent :: "addr \<Rightarrow> 'p option \<Rightarrow> 'p heap \<Rightarrow> 'p heap option" where
  "set_parent p v h = (case h p of None \<Rightarrow> None | Some l \<Rightarrow> Some (h(p \<mapsto> l\<lparr>lk_parent := v\<rparr>)))"

text \<open>The constructors \<^verbatim>\<open>list_link()\<close> and \<^verbatim>\<open>list_link(TParent*)\<close>: a self-linked node.\<close>

definition new_link :: "addr \<Rightarrow> 'p option \<Rightarrow> 'p heap \<Rightarrow> 'p heap" where
  "new_link this p h = h(this \<mapsto> \<lparr>lk_parent = p, lk_next = this, lk_prev = this\<rparr>)"

text \<open>The move constructor of a link, at address \<open>this\<close>, from the link at \<open>another\<close>.\<close>

definition move_link :: "addr \<Rightarrow> addr \<Rightarrow> 'p heap \<Rightarrow> 'p heap option" where
  "move_link this another h = do {
     l \<leftarrow> h another;
     let h = h(this \<mapsto> l);
     n \<leftarrow> get_next h this;
     h \<leftarrow> set_prev n this h;
     p \<leftarrow> get_prev h this;
     h \<leftarrow> set_next p this h;
     h \<leftarrow> set_parent another None h;
     h \<leftarrow> set_next another another h;
     set_prev another another h
   }"

definition is_empty_or_detached :: "'p heap \<Rightarrow> addr \<Rightarrow> bool option" where
  "is_empty_or_detached h this = do {
     n \<leftarrow> get_next h this;
     p \<leftarrow> get_prev h this;
     Some (n = this \<and> p = this)
   }"

definition is_head :: "'p heap \<Rightarrow> addr \<Rightarrow> bool option" where
  "is_head h this = do { p \<leftarrow> get_parent h this; Some (p = None) }"

definition is_valid :: "'p heap \<Rightarrow> addr \<Rightarrow> bool option" where
  "is_valid h this = do {
     n \<leftarrow> get_next h this;
     p \<leftarrow> get_prev h this;
     Some (n \<noteq> nullptr \<and> p \<noteq> nullptr)
   }"

section \<open>Link surgery\<close>

definition util_list_init :: "addr \<Rightarrow> 'p heap \<Rightarrow> 'p heap option" where
  "util_list_init head h = do {
     h \<leftarrow> set_next head head h;
     set_prev head head h
   }"

definition util_list_add :: "addr \<Rightarrow> addr \<Rightarrow> addr \<Rightarrow> 'p heap \<Rightarrow> 'p heap option" where
  "util_list_add newnode prev nxt h = do {
     h \<leftarrow> set_next prev newnode h;
     h \<leftarrow> set_prev nxt newnode h;
     h \<leftarrow> set_next newnode nxt h;
     set_prev newnode prev h
   }"

definition util_list_remove :: "addr \<Rightarrow> addr \<Rightarrow> 'p heap \<Rightarrow> 'p heap option" where
  "util_list_remove prev nxt h = do {
     h \<leftarrow> set_next prev nxt h;
     set_prev nxt prev h
   }"

definition util_list_remove_entry :: "addr \<Rightarrow> 'p heap \<Rightarrow> 'p heap option" where
  "util_list_remove_entry entry h = do {
     p \<leftarrow> get_prev h entry;
     n \<leftarrow> get_next h entry;
     util_list_remove p n h
   }"

definition util_list_splice :: "addr \<Rightarrow> addr \<Rightarrow> addr \<Rightarrow> 'p heap \<Rightarrow> 'p heap option" where
  "util_list_splice lst prev nxt h = do {
     first \<leftarrow> get_next h lst;
     last \<leftarrow> get_prev h lst;
     h \<leftarrow> set_prev first prev h;
     h \<leftarrow> set_next prev first h;
     h \<leftarrow> set_next last nxt h;
     set_prev nxt last h
   }"

definition list_init :: "addr \<Rightarrow> 'p heap \<Rightarrow> 'p heap option" where
  "list_init head h = util_list_init head h"

definition list_add :: "addr \<Rightarrow> addr \<Rightarrow> 'p heap \<Rightarrow> 'p heap option" where
  "list_add newnode head h = do {
     n \<leftarrow> get_next h head;
     util_list_add newnode head n h
   }"

definition list_add_tail :: "addr \<Rightarrow> addr \<Rightarrow> 'p heap \<Rightarrow> 'p heap option" where
  "list_add_tail newnode head h = do {
     p \<leftarrow> get_prev h head;
     util_list_add newnode p head h
   }"

definition list_remove :: "addr \<Rightarrow> 'p heap \<Rightarrow> 'p heap option" where
  "list_remove entry h = do {
     h \<leftarrow> util_list_remove_entry entry h;
     h \<leftarrow> set_prev entry nullptr h;
     set_next entry nullptr h
   }"

definition list_remove_init :: "addr \<Rightarrow> 'p heap \<Rightarrow> 'p heap option" where
  "list_remove_init entry h = do {
     h \<leftarrow> util_list_remove_entry entry h;
     h \<leftarrow> set_prev entry nullptr h;
     h \<leftarrow> set_next entry nullptr h;
     util_list_init entry h
   }"

definition list_replace :: "addr \<Rightarrow> addr \<Rightarrow> 'p heap \<Rightarrow> 'p heap option" where
  "list_replace old newnode h = do {
     n \<leftarrow> get_next h old;
     h \<leftarrow> set_next newnode n h;
     n \<leftarrow> get_next h newnode;
     h \<leftarrow> set_prev n newnode h;
     p \<leftarrow> get_prev h old;
     h \<leftarrow> set_prev newnode p h;
     p \<leftarrow> get_prev h newnode;
     set_next p newnode h
   }"

definition list_empty :: "addr \<Rightarrow> 'p heap \<Rightarrow> bool option" where
  "list_empty head h = do { n \<leftarrow> get_next h head; Some (n = head) }"

definition list_swap :: "addr \<Rightarrow> addr \<Rightarrow> 'p heap \<Rightarrow> 'p heap option" where
  "list_swap e1 e2 h = do {
     pos \<leftarrow> get_prev h e2;
     h \<leftarrow> list_remove_init e2 h;
     h \<leftarrow> list_replace e1 e2 h;
     let pos = (if pos = e1 then e2 else pos);
     list_add e1 pos h
   }"

definition list_splice :: "addr \<Rightarrow> addr \<Rightarrow> 'p heap \<Rightarrow> 'p heap option" where
  "list_splice lst head h = do {
     e \<leftarrow> list_empty lst h;
     if \<not> e then do { n \<leftarrow> get_next h head; util_list_splice lst head n h } else Some h
   }"

definition list_splice_init :: "addr \<Rightarrow> addr \<Rightarrow> 'p heap \<Rightarrow> 'p heap option" where
  "list_splice_init lst head h = do {
     e \<leftarrow> list_empty lst h;
     if \<not> e then do {
       n \<leftarrow> get_next h head;
       h \<leftarrow> util_list_splice lst head n h;
       util_list_init lst h
     } else Some h
   }"

section \<open>Reads and writes\<close>

text \<open>Total views of the three fields; outside the heap their value is irrelevant.\<close>

definition Nx :: "'p heap \<Rightarrow> addr \<Rightarrow> addr" where
  "Nx h a = (case h a of None \<Rightarrow> nullptr | Some l \<Rightarrow> lk_next l)"

definition Pv :: "'p heap \<Rightarrow> addr \<Rightarrow> addr" where
  "Pv h a = (case h a of None \<Rightarrow> nullptr | Some l \<Rightarrow> lk_prev l)"

definition Pa :: "'p heap \<Rightarrow> addr \<Rightarrow> 'p option" where
  "Pa h a = (case h a of None \<Rightarrow> None | Some l \<Rightarrow> lk_parent l)"

definition wr_next :: "addr \<Rightarrow> addr \<Rightarrow> 'p heap \<Rightarrow> 'p heap" where
  "wr_next p v h = h(p := map_option (\<lambda>l. l\<lparr>lk_next := v\<rparr>) (h p))"

definition wr_prev :: "addr \<Rightarrow> addr \<Rightarrow> 'p heap \<Rightarrow> 'p heap" where
  "wr_prev p v h = h(p := map_option (\<lambda>l. l\<lparr>lk_prev := v\<rparr>) (h p))"

definition wr_parent :: "addr \<Rightarrow> 'p option \<Rightarrow> 'p heap \<Rightarrow> 'p heap" where
  "wr_parent p v h = h(p := map_option (\<lambda>l. l\<lparr>lk_parent := v\<rparr>) (h p))"

lemma get_Some [heap_simps]:
  assumes "p \<in> dom h"
  shows "get_next h p = Some (Nx h p)" "get_prev h p = Some (Pv h p)" "get_parent h p = Some (Pa h p)"
  using assms by (auto simp: get_next_def get_prev_def get_parent_def Nx_def Pv_def Pa_def)

lemma set_Some [heap_simps]:
  assumes "p \<in> dom h"
  shows "set_next p v h = Some (wr_next p v h)" "set_prev p v h = Some (wr_prev p v h)"
    "set_parent p w h = Some (wr_parent p w h)"
  using assms
  by (auto simp: set_next_def set_prev_def set_parent_def wr_next_def wr_prev_def wr_parent_def)

lemma dom_wr [simp]:
  "dom (wr_next p v h) = dom h" "dom (wr_prev p v h) = dom h" "dom (wr_parent p w h) = dom h"
  by (auto simp: wr_next_def wr_prev_def wr_parent_def dom_def)

lemma Nx_wr [heap_simps]:
  "p \<in> dom h \<Longrightarrow> Nx (wr_next p v h) = (Nx h)(p := v)"
  "Nx (wr_prev p v h) = Nx h" "Nx (wr_parent p w h) = Nx h"
  by (auto simp: Nx_def wr_next_def wr_prev_def wr_parent_def fun_eq_iff split: option.splits)

lemma Pv_wr [heap_simps]:
  "p \<in> dom h \<Longrightarrow> Pv (wr_prev p v h) = (Pv h)(p := v)"
  "Pv (wr_next p v h) = Pv h" "Pv (wr_parent p w h) = Pv h"
  by (auto simp: Pv_def wr_next_def wr_prev_def wr_parent_def fun_eq_iff split: option.splits)

lemma Pa_wr [heap_simps]:
  "p \<in> dom h \<Longrightarrow> Pa (wr_parent p w h) = (Pa h)(p := w)"
  "Pa (wr_next p v h) = Pa h" "Pa (wr_prev p v h) = Pa h"
  by (auto simp: Pa_def wr_next_def wr_prev_def wr_parent_def fun_eq_iff split: option.splits)

lemma wr_other [heap_simps]:
  "a \<noteq> p \<Longrightarrow> wr_next p v h a = h a" "a \<noteq> p \<Longrightarrow> wr_prev p v h a = h a"
  "a \<noteq> p \<Longrightarrow> wr_parent p w h a = h a"
  by (simp_all add: wr_next_def wr_prev_def wr_parent_def)

section \<open>Chains and rings\<close>

text \<open>Consecutive links of a chain point at each other, in both directions.\<close>

fun chain :: "(addr \<Rightarrow> addr) \<Rightarrow> (addr \<Rightarrow> addr) \<Rightarrow> addr list \<Rightarrow> bool" where
  "chain N P (a # b # xs) \<longleftrightarrow> N a = b \<and> P b = a \<and> chain N P (b # xs)"
| "chain N P xs \<longleftrightarrow> True"

lemma chain_append:
  "chain N P (xs @ a # ys) \<longleftrightarrow> chain N P (xs @ [a]) \<and> chain N P (a # ys)"
proof (induction xs)
  case (Cons x xs)
  then show ?case by (cases xs) auto
qed simp

lemma chain_cong:
  "(\<And>a. a \<in> set (butlast xs) \<Longrightarrow> N' a = N a) \<Longrightarrow> (\<And>a. a \<in> set (tl xs) \<Longrightarrow> P' a = P a) \<Longrightarrow>
   chain N' P' xs \<longleftrightarrow> chain N P xs"
proof (induction N P xs rule: chain.induct)
  case (1 N P a b xs)
  have "N' a = N a" "P' b = P b" using "1.prems" by simp_all
  moreover have "chain N' P' (b # xs) = chain N P (b # xs)"
    using "1.prems" by (intro "1.IH") (auto split: if_splits)
  ultimately show ?case by simp
qed simp_all

lemma chain_upd [simp]:
  "a \<notin> set (butlast xs) \<Longrightarrow> chain (N(a := v)) P xs \<longleftrightarrow> chain N P xs"
  "a \<notin> set (tl xs) \<Longrightarrow> chain N (P(a := v)) xs \<longleftrightarrow> chain N P xs"
  by (rule chain_cong; auto)+

definition ring :: "'p heap \<Rightarrow> addr \<Rightarrow> addr list \<Rightarrow> bool" where
  "ring h s xs \<longleftrightarrow> distinct (s # xs) \<and> nullptr \<notin> set (s # xs) \<and> set (s # xs) \<subseteq> dom h \<and>
     chain (Nx h) (Pv h) (s # xs @ [s])"

lemma ring_Nil_iff:
  "ring h s [] \<longleftrightarrow> s \<in> dom h \<and> s \<noteq> nullptr \<and> Nx h s = s \<and> Pv h s = s"
  by (auto simp: ring_def)

lemma ring_dom: "ring h s xs \<Longrightarrow> a = s \<or> a \<in> set xs \<Longrightarrow> a \<in> dom h"
  by (auto simp: ring_def)

lemma ring_head_dom [simp]: "ring h s xs \<Longrightarrow> s \<in> dom h"
  by (simp add: ring_def)

lemma ring_split:
  assumes "ring h s (us @ vs)"
  shows "Nx h (last (s # us)) = hd (vs @ [s])" "Pv h (hd (vs @ [s])) = last (s # us)"
proof -
  define us' p n vs' where d: "us' = butlast (s # us)" "p = last (s # us)" "n = hd (vs @ [s])" "vs' = tl (vs @ [s])"
  have "s # us = us' @ [p]" "vs @ [s] = n # vs'" by (simp_all add: d)
  then have "s # (us @ vs) @ [s] = us' @ p # n # vs'" by (metis append.assoc append_Cons append_Nil)
  then have "chain (Nx h) (Pv h) (us' @ p # n # vs')" using assms by (simp add: ring_def)
  then have "Nx h p = n" "Pv h n = p" using chain_append [of "Nx h" "Pv h" us' p "n # vs'"] by simp_all
  then show "Nx h (last (s # us)) = hd (vs @ [s])" "Pv h (hd (vs @ [s])) = last (s # us)" by (simp_all add: d)
qed

lemma ring_Nx_head: "ring h s xs \<Longrightarrow> Nx h s = hd (xs @ [s])"
  using ring_split(1) [of h s "[]" xs] by simp

lemma ring_Pv_head: "ring h s xs \<Longrightarrow> Pv h s = last (s # xs)"
  using ring_split(2) [of h s xs "[]"] by simp

lemma ring_Nx_head_iff: "ring h s xs \<Longrightarrow> Nx h s = s \<longleftrightarrow> xs = []"
  by (cases xs) (auto simp: ring_def)

text \<open>A ring can be read from any of its links.\<close>

lemma ring_rotate: "ring h s (us @ e # vs) \<Longrightarrow> ring h e (vs @ s # us)"
proof -
  assume r: "ring h s (us @ e # vs)"
  have "chain (Nx h) (Pv h) ((s # us) @ e # (vs @ [s]))" using r by (simp add: ring_def)
  then have "chain (Nx h) (Pv h) (s # us @ [e])" "chain (Nx h) (Pv h) (e # vs @ [s])"
    using chain_append [of "Nx h" "Pv h" "s # us" e "vs @ [s]"] by simp_all
  then have "chain (Nx h) (Pv h) ((e # vs) @ s # (us @ [e]))"
    using chain_append [of "Nx h" "Pv h" "e # vs" s "us @ [e]"] by simp
  with r show ?thesis by (auto simp: ring_def)
qed

section \<open>Frames\<close>

text \<open>
  Two heaps agree off a set of addresses: the second differs from the first only in the
  \<open>next\<close> and \<open>prev\<close> fields of links in the set.
\<close>

definition agree_off :: "addr set \<Rightarrow> 'p heap \<Rightarrow> 'p heap \<Rightarrow> bool" where
  "agree_off S h h' \<longleftrightarrow> (\<forall>a. a \<notin> S \<longrightarrow> h' a = h a) \<and> dom h' = dom h \<and> Pa h' = Pa h"

lemma agree_off_refl [simp]: "agree_off S h h"
  by (simp add: agree_off_def)

lemma agree_off_trans:
  "agree_off S h h' \<Longrightarrow> agree_off T h' h'' \<Longrightarrow> S \<union> T \<subseteq> U \<Longrightarrow> agree_off U h h''"
  unfolding agree_off_def by (metis Un_iff subset_iff)

lemma agree_off_mono: "agree_off S h h' \<Longrightarrow> S \<subseteq> T \<Longrightarrow> agree_off T h h'"
  by (auto simp: agree_off_def)

lemma agree_offD:
  "agree_off S h h' \<Longrightarrow> a \<notin> S \<Longrightarrow> h' a = h a" "agree_off S h h' \<Longrightarrow> dom h' = dom h"
  "agree_off S h h' \<Longrightarrow> Pa h' = Pa h"
  by (simp_all add: agree_off_def)

lemma agree_off_wr [intro]:
  "agree_off S h h' \<Longrightarrow> p \<in> S \<Longrightarrow> agree_off S h (wr_next p v h')"
  "agree_off S h h' \<Longrightarrow> p \<in> S \<Longrightarrow> agree_off S h (wr_prev p v h')"
  unfolding agree_off_def by (metis Pa_wr(2) dom_wr(1) wr_other(1)) (metis Pa_wr(3) dom_wr(2) wr_other(2))

lemma ring_frame:
  assumes "ring h s xs" and eq: "\<And>a. a \<in> set (s # xs) \<Longrightarrow> h' a = h a"
  shows "ring h' s xs"
proof -
  have "chain (Nx h') (Pv h') (s # xs @ [s]) = chain (Nx h) (Pv h) (s # xs @ [s])"
    using eq by (intro chain_cong) (auto simp: Nx_def Pv_def dest: in_set_butlastD)
  moreover have "set (s # xs) \<subseteq> dom h'" using assms by (auto simp: ring_def dom_def)
  ultimately show ?thesis using assms(1) by (simp add: ring_def)
qed

lemma ring_agree:
  "ring h s xs \<Longrightarrow> agree_off S h h' \<Longrightarrow> S \<inter> set (s # xs) = {} \<Longrightarrow> ring h' s xs"
  by (erule ring_frame) (auto simp: agree_off_def)

section \<open>Joining chains\<close>

lemma chain_join:
  assumes "chain N P (us @ [p])" "chain N P (n # vs)"
    and "p \<notin> set us" "n \<notin> set (tl (us @ [p]))" "p \<notin> set (butlast (n # vs))" "n \<notin> set vs"
  shows "chain (N(p := n)) (P(n := p)) (us @ p # n # vs)"
proof -
  have "chain (N(p := n)) (P(n := p)) (us @ [p])" using assms by (simp add: butlast_append)
  moreover have "chain (N(p := n)) (P(n := p)) (n # vs)" using assms by simp
  ultimately show ?thesis using chain_append [of "N(p := n)" "P(n := p)" us p "n # vs"] by simp
qed

lemma chain_join_segment:
  assumes "chain N P (us @ [p])" "chain N P (n # vs)" "chain N P ws" "ws \<noteq> []" "distinct ws"
    and "p \<notin> set us" "n \<notin> set (tl (us @ [p]))" "p \<notin> set (butlast (n # vs))" "n \<notin> set vs"
    and "set ws \<inter> set (us @ p # n # vs) = {}"
  shows "chain (N(p := hd ws, last ws := n)) (P(hd ws := p, n := last ws)) (us @ p # ws @ n # vs)"
proof -
  obtain ws' l where l: "ws = ws' @ [l]" using \<open>ws \<noteq> []\<close> by (cases ws rule: rev_cases) auto
  obtain f ws'' where f: "ws = f # ws''" using \<open>ws \<noteq> []\<close> by (cases ws) auto
  let ?N = "N(p := f)" and ?P = "P(f := p)"
  have "chain ?N ?P (us @ p # f # ws'')"
    using assms(1,3,5-10) f by (intro chain_join) (auto dest: in_set_butlastD in_set_tlD)
  then have 1: "chain ?N ?P ((us @ p # ws') @ [l])" using l f by simp
  have 2: "chain ?N ?P (n # vs)" using assms(2,8,10) f by (subst chain_cong [of _ _ N _ P]) auto
  have "n \<notin> set (tl ((us @ p # ws') @ [l]))"
    using assms(7,10) l by (cases us) auto
  then have "chain (?N(l := n)) (?P(n := l)) ((us @ p # ws') @ l # n # vs)"
    using assms(5,9,10) l by (intro chain_join [OF 1 2]) (auto dest: in_set_butlastD split: if_splits)
  moreover have "hd ws = f" using f by simp
  moreover have "last ws = l" "ws' @ l # n # vs = ws @ n # vs" using l by simp_all
  ultimately show ?thesis by simp
qed

lemma chain_segment: "chain N P (us @ vs @ ws) \<Longrightarrow> chain N P vs"
proof (induction us)
  case Nil
  then show ?case by (induction N P vs rule: chain.induct) auto
next
  case (Cons u us)
  then show ?case by (cases "us @ vs @ ws") auto
qed

lemma chain_ringD:
  assumes "ring h s (us @ ws @ vs)"
  shows "chain (Nx h) (Pv h) (s # us)" "chain (Nx h) (Pv h) (vs @ [s])" "chain (Nx h) (Pv h) ws"
  using assms chain_segment [of "Nx h" "Pv h" "[]" "s # us" "ws @ vs @ [s]"]
    chain_segment [of "Nx h" "Pv h" "s # us @ ws" "vs @ [s]" "[]"]
    chain_segment [of "Nx h" "Pv h" "s # us" ws "vs @ [s]"]
  by (simp_all add: ring_def)

text \<open>
  A cut of a cyclic sequence has a predecessor \<open>p\<close> and a successor \<open>n\<close>, which may both be
  the sentinel \<open>s\<close>.
\<close>

lemma cut_ends:
  assumes ds: "distinct (s # us @ vs)"
  obtains us' p n vs' where "s # us = us' @ [p]" "vs @ [s] = n # vs'"
    "p = last (s # us)" "n = hd (vs @ [s])"
    "p \<notin> set us'" "n \<notin> set (tl (us' @ [p]))" "p \<notin> set (butlast (n # vs'))" "n \<notin> set vs'"
proof -
  define us' p n vs' where d: "us' = butlast (s # us)" "p = last (s # us)" "n = hd (vs @ [s])" "vs' = tl (vs @ [s])"
  have e1: "s # us = us' @ [p]" by (simp add: d)
  have e2: "vs @ [s] = n # vs'" by (simp add: d)
  have "p \<in> set (s # us)" "n \<in> set (vs @ [s])" unfolding e1 e2 by simp_all
  moreover have "distinct (us' @ [p])" unfolding e1 [symmetric] using ds by auto
  moreover have "distinct (n # vs')" unfolding e2 [symmetric] using ds by auto
  moreover have "n \<notin> set (tl (us' @ [p]))" unfolding e1 [symmetric] using calculation ds by auto
  moreover have "p \<notin> set (butlast (n # vs'))"
    unfolding e2 [symmetric] using calculation ds by auto
  ultimately show thesis by (intro that [OF e1 e2 d(2) d(3)]) simp_all
qed

text \<open>The two ways the helpers close a ring: over the cut, or through a segment put into it.\<close>

lemma ring_join:
  assumes "distinct (s # us @ vs)" "nullptr \<notin> set (s # us @ vs)" "set (s # us @ vs) \<subseteq> dom h"
    and ch: "chain N P (s # us)" "chain N P (vs @ [s])"
    and "Nx h = N(last (s # us) := hd (vs @ [s]))" "Pv h = P(hd (vs @ [s]) := last (s # us))"
  shows "ring h s (us @ vs)"
proof -
  obtain us' p n vs' where c: "s # us = us' @ [p]" "vs @ [s] = n # vs'"
    "p = last (s # us)" "n = hd (vs @ [s])"
    "p \<notin> set us'" "n \<notin> set (tl (us' @ [p]))" "p \<notin> set (butlast (n # vs'))" "n \<notin> set vs'"
    by (rule cut_ends [OF assms(1)])
  have "chain (Nx h) (Pv h) (us' @ p # n # vs')"
    unfolding assms(6,7) c(3,4) [symmetric]
    by (rule chain_join [OF ch(1) [unfolded c(1)] ch(2) [unfolded c(2)] c(5-8)])
  moreover have "s # (us @ vs) @ [s] = us' @ p # n # vs'"
    using c(1,2) by (metis append.assoc append_Cons append_Nil)
  ultimately show ?thesis using assms(1-3) by (simp add: ring_def)
qed

lemma ring_join_segment:
  assumes "distinct (s # us @ ws @ vs)" "nullptr \<notin> set (s # us @ ws @ vs)" "set (s # us @ ws @ vs) \<subseteq> dom h"
    and ch: "chain N P (s # us)" "chain N P (vs @ [s])" "chain N P ws" "ws \<noteq> []"
    and "Nx h = N(last (s # us) := hd ws, last ws := hd (vs @ [s]))"
    and "Pv h = P(hd ws := last (s # us), hd (vs @ [s]) := last ws)"
  shows "ring h s (us @ ws @ vs)"
proof -
  have "distinct (s # us @ vs)" using assms(1) by auto
  from cut_ends [OF this] obtain us' p n vs' where c: "s # us = us' @ [p]" "vs @ [s] = n # vs'"
    "p = last (s # us)" "n = hd (vs @ [s])"
    "p \<notin> set us'" "n \<notin> set (tl (us' @ [p]))" "p \<notin> set (butlast (n # vs'))" "n \<notin> set vs'" .
  have "set (us' @ p # n # vs') = set (s # us) \<union> set (vs @ [s])" unfolding c(1,2) by auto
  then have "set ws \<inter> set (us' @ p # n # vs') = {}" using assms(1) by auto
  then have "chain (Nx h) (Pv h) (us' @ p # ws @ n # vs')"
    unfolding assms(8,9) c(3,4) [symmetric]
    using chain_join_segment [OF ch(1) [unfolded c(1)] ch(2) [unfolded c(2)] ch(3,4) _ c(5-8)] assms(1)
    by simp
  moreover have "s # (us @ ws @ vs) @ [s] = us' @ p # ws @ n # vs'"
    using c(1,2) by (metis append.assoc append_Cons append_Nil)
  ultimately show ?thesis using assms(1-3) by (simp add: ring_def)
qed

section \<open>Effects of the link surgery\<close>

lemma util_list_init_effect:
  "s \<in> dom h \<Longrightarrow> s \<noteq> nullptr \<Longrightarrow>
   \<exists>h'. util_list_init s h = Some h' \<and> ring h' s [] \<and> agree_off {s} h h'"
  by (simp add: util_list_init_def heap_simps agree_off_def ring_Nil_iff)

lemma util_list_add_effect:
  "p \<in> dom h \<Longrightarrow> n \<in> dom h \<Longrightarrow> x \<in> dom h \<Longrightarrow>
   \<exists>h'. util_list_add x p n h = Some h' \<and> Nx h' = (Nx h)(p := x, x := n) \<and>
        Pv h' = (Pv h)(n := x, x := p) \<and> agree_off {p, n, x} h h'"
  by (simp add: util_list_add_def heap_simps agree_off_def)

lemma ring_cut_in:
  assumes "ring h s (us @ vs)"
  shows "last (s # us) \<in> set (s # us @ vs)" "hd (vs @ [s]) \<in> set (s # us @ vs)"
    "last (s # us) \<in> dom h" "hd (vs @ [s]) \<in> dom h"
proof -
  have "last (s # us) \<in> set (s # us)" by (rule last_in_set) simp
  then show 1: "last (s # us) \<in> set (s # us @ vs)" by auto
  show 2: "hd (vs @ [s]) \<in> set (s # us @ vs)" by (cases vs) auto
  show "last (s # us) \<in> dom h" "hd (vs @ [s]) \<in> dom h"
    using 1 2 ring_dom [OF assms] by auto
qed

lemma util_list_add_ring:
  assumes r: "ring h s (us @ vs)" and x: "x \<in> dom h" "x \<notin> set (s # us @ vs)" "x \<noteq> nullptr"
  shows "\<exists>h'. util_list_add x (last (s # us)) (hd (vs @ [s])) h = Some h' \<and> ring h' s (us @ x # vs) \<and>
    agree_off (set (s # us @ x # vs)) h h'"
proof -
  let ?p = "last (s # us)" and ?n = "hd (vs @ [s])"
  obtain h' where h': "util_list_add x ?p ?n h = Some h'" "Nx h' = (Nx h)(?p := x, x := ?n)"
      "Pv h' = (Pv h)(?n := x, x := ?p)" "agree_off {?p, ?n, x} h h'"
    using util_list_add_effect [OF ring_cut_in(3,4) [OF r] x(1)] by blast
  have "?n \<noteq> x" using ring_cut_in(2) [OF r] x(2) by auto
  then have P: "Pv h' = (Pv h)(x := ?p, ?n := x)" using h'(3) by (simp add: fun_upd_twist)
  have "ring h' s (us @ [x] @ vs)"
    using r x h'(2) P agree_offD(2) [OF h'(4)] chain_ringD [of h s us "[]" vs]
    by (intro ring_join_segment [of s us "[x]" vs h' "Nx h" "Pv h"]) (auto simp: ring_def)
  moreover have "agree_off (set (s # us @ x # vs)) h h'"
    using h'(4) ring_cut_in(1,2) [OF r] by (elim agree_off_mono) auto
  ultimately show ?thesis using h'(1) by simp
qed

lemma list_add_ring:
  assumes r: "ring h s (us @ vs)" and x: "x \<in> dom h" "x \<notin> set (s # us @ vs)" "x \<noteq> nullptr"
  shows "\<exists>h'. list_add x (last (s # us)) h = Some h' \<and> ring h' s (us @ x # vs) \<and>
    agree_off (set (s # us @ x # vs)) h h'"
  using util_list_add_ring [OF assms] ring_cut_in(3) [OF r] ring_split(1) [OF r]
  by (simp only: list_add_def heap_simps bind.bind_lunit)

lemma list_add_tail_ring:
  assumes r: "ring h s xs" and x: "x \<in> dom h" "x \<notin> set (s # xs)" "x \<noteq> nullptr"
  shows "\<exists>h'. list_add_tail x s h = Some h' \<and> ring h' s (xs @ [x]) \<and>
    agree_off (set (s # xs @ [x])) h h'"
  using util_list_add_ring [of h s xs "[]" x] assms ring_Pv_head [OF r]
  by (simp add: list_add_tail_def heap_simps del: last.simps)

text \<open>Unlinking an entry, with the entry left as it is.\<close>

lemma util_list_remove_effect:
  "p \<in> dom h \<Longrightarrow> n \<in> dom h \<Longrightarrow>
   \<exists>h'. util_list_remove p n h = Some h' \<and> Nx h' = (Nx h)(p := n) \<and>
        Pv h' = (Pv h)(n := p) \<and> agree_off {p, n} h h'"
  by (simp add: util_list_remove_def heap_simps agree_off_def)

lemma util_list_remove_entry_ring:
  assumes r: "ring h s (us @ e # vs)"
  shows "\<exists>h'. util_list_remove_entry e h = Some h' \<and> ring h' s (us @ vs) \<and>
    agree_off (set (s # us @ vs)) h h'"
proof -
  let ?p = "last (s # us)" and ?n = "hd (vs @ [s])"
  have pn: "Pv h e = ?p" "Nx h e = ?n"
    using ring_split(2) [of h s us "e # vs"] ring_split(1) [of h s "us @ [e]" vs] r by simp_all
  have in1: "?p \<in> set (s # us @ vs)" "?n \<in> set (s # us @ vs)"
    using last_in_set [of "s # us"] hd_in_set [of "vs @ [s]"] by auto
  have dm: "?p \<in> dom h" "?n \<in> dom h" "e \<in> dom h"
    using in1 r by (auto simp: ring_def simp del: last.simps)
  obtain h' where h': "util_list_remove ?p ?n h = Some h'" "Nx h' = (Nx h)(?p := ?n)"
      "Pv h' = (Pv h)(?n := ?p)" "agree_off {?p, ?n} h h'"
    using util_list_remove_effect [OF dm(1,2)] by blast
  have "ring h' s (us @ vs)"
    using r h'(2,3) agree_offD(2) [OF h'(4)] chain_ringD [of h s us "[e]" vs]
    by (intro ring_join [of s us vs h' "Nx h" "Pv h"]) (auto simp: ring_def)
  moreover have "agree_off (set (s # us @ vs)) h h'"
    using h'(4) in1 by (elim agree_off_mono) auto
  ultimately show ?thesis
    using h'(1) pn dm(3) by (simp add: util_list_remove_entry_def heap_simps del: last.simps)
qed

lemma list_remove_ring:
  assumes r: "ring h s (us @ e # vs)"
  shows "\<exists>h'. list_remove e h = Some h' \<and> ring h' s (us @ vs) \<and> is_valid h' e = Some False \<and>
    agree_off (set (s # us @ e # vs)) h h'"
proof -
  obtain h1 where h1: "util_list_remove_entry e h = Some h1" "ring h1 s (us @ vs)"
      "agree_off (set (s # us @ vs)) h h1"
    using util_list_remove_entry_ring [OF r] by blast
  have e: "e \<in> dom h1" "e \<notin> set (s # us @ vs)" using r agree_offD(2) [OF h1(3)] by (auto simp: ring_def)
  let ?h' = "wr_next e nullptr (wr_prev e nullptr h1)"
  have a: "agree_off {e} h1 ?h'" by (intro agree_off_wr agree_off_refl) simp_all
  have "list_remove e h = Some ?h'" using h1(1) e by (simp add: list_remove_def heap_simps)
  moreover have "ring ?h' s (us @ vs)" by (rule ring_agree [OF h1(2) a]) (use e(2) in simp)
  moreover have "is_valid ?h' e = Some False" using e by (simp add: is_valid_def heap_simps)
  moreover have "agree_off (set (s # us @ e # vs)) h ?h'" by (rule agree_off_trans [OF h1(3) a]) auto
  ultimately show ?thesis by blast
qed

lemma list_remove_init_ring:
  assumes r: "ring h s (us @ e # vs)"
  shows "\<exists>h'. list_remove_init e h = Some h' \<and> ring h' s (us @ vs) \<and> ring h' e [] \<and>
    agree_off (set (s # us @ e # vs)) h h'"
proof -
  obtain h1 where h1: "list_remove e h = Some h1" "ring h1 s (us @ vs)"
      "agree_off (set (s # us @ e # vs)) h h1"
    using list_remove_ring [OF r] by blast
  have e: "e \<in> dom h1" "e \<notin> set (s # us @ vs)" "e \<noteq> nullptr"
    using r agree_offD(2) [OF h1(3)] by (auto simp: ring_def)
  obtain h' where h': "util_list_init e h1 = Some h'" "ring h' e []" "agree_off {e} h1 h'"
    using util_list_init_effect [OF e(1,3)] by blast
  have "list_remove_init e h = list_remove e h \<bind> util_list_init e"
    by (simp add: list_remove_init_def list_remove_def)
  then have "list_remove_init e h = Some h'" using h1(1) h'(1) by simp
  moreover have "ring h' s (us @ vs)" by (rule ring_agree [OF h1(2) h'(3)]) (use e(2) in simp)
  moreover have "agree_off (set (s # us @ e # vs)) h h'"
    by (rule agree_off_trans [OF h1(3) h'(3)]) auto
  ultimately show ?thesis using h'(2) by blast
qed

text \<open>Replacing a link of a ring: the new link takes over the whole ring.\<close>

lemma list_replace_ring:
  assumes r: "ring h s xs" and x: "x \<in> dom h" "x \<notin> set (s # xs)" "x \<noteq> nullptr"
  shows "\<exists>h'. list_replace s x h = Some h' \<and> ring h' x xs \<and> agree_off (set (s # x # xs)) h h'"
proof (cases "xs = []")
  case True
  then show ?thesis
    using assms by (simp add: list_replace_def ring_Nil_iff heap_simps agree_off_def)
next
  case False
  let ?f = "hd xs" and ?l = "last xs"
  have fl: "Nx h s = ?f" "Pv h s = ?l" "?f \<in> set xs" "?l \<in> set xs"
    using False ring_Nx_head [OF r] ring_Pv_head [OF r] by simp_all
  then have dm: "?f \<in> dom h" "?l \<in> dom h" "s \<in> dom h" "s \<notin> set xs" "?f \<noteq> s" "?f \<noteq> x" "?l \<noteq> x"
    using r x(2) by (auto simp: ring_def)
  let ?h' = "wr_next ?l x (wr_prev x ?l (wr_prev ?f x (wr_next x ?f h)))"
  have ex: "list_replace s x h = Some ?h'"
    using dm x fl(1,2) by (simp add: list_replace_def heap_simps)
  have a: "agree_off (set (s # x # xs)) h ?h'"
    by (intro agree_off_wr agree_off_refl) (use fl(3,4) in simp_all)
  have "Nx ?h' = (Nx h)(x := ?f, ?l := x)" "Pv ?h' = (Pv h)(?f := x, x := ?l)"
    using dm x by (simp_all add: heap_simps)
  then have "ring ?h' x ([] @ xs @ [])"
    using r x False chain_ringD(3) [of h s "[]" xs "[]"]
    by (intro ring_join_segment [of x "[]" xs "[]" ?h' "Nx h" "Pv h"]) (auto simp: ring_def)
  then show ?thesis using ex a by auto
qed

text \<open>Splicing a non-empty ring into a cut of another one, its sentinel left out.\<close>

lemma util_list_splice_ring:
  assumes r: "ring h s (us @ vs)" and l: "ring h l ws" "ws \<noteq> []"
    and disj: "set (l # ws) \<inter> set (s # us @ vs) = {}"
  shows "\<exists>h'. util_list_splice l (last (s # us)) (hd (vs @ [s])) h = Some h' \<and> ring h' s (us @ ws @ vs) \<and>
    agree_off (set (s # us @ ws @ vs)) h h'"
proof -
  let ?p = "last (s # us)" and ?n = "hd (vs @ [s])" and ?f = "hd ws" and ?l = "last ws"
  have fl: "Nx h l = ?f" "Pv h l = ?l" "?f \<in> set ws" "?l \<in> set ws"
    using l ring_Nx_head [OF l(1)] ring_Pv_head [OF l(1)] by simp_all
  have dm: "?p \<in> dom h" "?n \<in> dom h" "?f \<in> dom h" "?l \<in> dom h" "l \<in> dom h"
    using ring_cut_in(3,4) [OF r] ring_dom [OF l(1)] fl by (simp_all del: last.simps)
  let ?h' = "wr_prev ?n ?l (wr_next ?l ?n (wr_next ?p ?f (wr_prev ?f ?p h)))"
  have ex: "util_list_splice l ?p ?n h = Some ?h'"
    using dm fl by (simp add: util_list_splice_def heap_simps del: last.simps)
  have a: "agree_off (set (s # us @ ws @ vs)) h ?h'"
    by (intro agree_off_wr agree_off_refl) (use fl ring_cut_in(1,2) [OF r] in auto)
  have "Nx ?h' = (Nx h)(?p := ?f, ?l := ?n)" "Pv ?h' = (Pv h)(?f := ?p, ?n := ?l)"
    using dm by (simp_all add: heap_simps del: last.simps)
  moreover have "distinct (s # us @ ws @ vs)" "nullptr \<notin> set (s # us @ ws @ vs)"
    "set (s # us @ ws @ vs) \<subseteq> dom h" using r l(1) disj by (auto simp: ring_def)
  ultimately have "ring ?h' s (us @ ws @ vs)"
    using l(2) chain_ringD [of h s us "[]" vs] r chain_ringD(3) [of h l "[]" ws "[]"] l(1)
    by (intro ring_join_segment [of s us ws vs ?h' "Nx h" "Pv h"]) simp_all
  then show ?thesis using ex a by blast
qed

lemma list_splice_init_ring:
  assumes r: "ring h s (us @ vs)" and l: "ring h l ws"
    and disj: "set (l # ws) \<inter> set (s # us @ vs) = {}"
  shows "\<exists>h'. list_splice_init l (last (s # us)) h = Some h' \<and> ring h' s (us @ ws @ vs) \<and> ring h' l [] \<and>
    agree_off (set (l # s # us @ ws @ vs)) h h'"
proof (cases "ws = []")
  case True
  then have "list_empty l h = Some True"
    using l by (simp add: list_empty_def heap_simps ring_Nil_iff)
  then show ?thesis using True r l by (simp add: list_splice_init_def)
next
  case False
  obtain h1 where h1: "util_list_splice l (last (s # us)) (hd (vs @ [s])) h = Some h1"
      "ring h1 s (us @ ws @ vs)" "agree_off (set (s # us @ ws @ vs)) h h1"
    using util_list_splice_ring [OF r l False disj] by blast
  have l1: "l \<in> dom h1" "l \<noteq> nullptr" "l \<notin> set (s # us @ ws @ vs)"
    using agree_offD(2) [OF h1(3)] l disj by (auto simp: ring_def)
  obtain h' where h': "util_list_init l h1 = Some h'" "ring h' l []" "agree_off {l} h1 h'"
    using util_list_init_effect [OF l1(1,2)] by blast
  have "list_empty l h = Some False"
    using False ring_Nx_head_iff [OF l] ring_head_dom [OF l] by (simp only: list_empty_def heap_simps) simp
  moreover have "get_next h (last (s # us)) = Some (hd (vs @ [s]))"
    using ring_cut_in(3) [OF r] ring_split(1) [OF r] by (simp only: heap_simps)
  ultimately have "list_splice_init l (last (s # us)) h = Some h'"
    using h1(1) h'(1) by (simp add: list_splice_init_def del: last.simps)
  moreover have "ring h' s (us @ ws @ vs)" by (rule ring_agree [OF h1(2) h'(3)]) (use l1 in simp)
  moreover have "agree_off (set (l # s # us @ ws @ vs)) h h'"
    by (rule agree_off_trans [OF h1(3) h'(3)]) auto
  ultimately show ?thesis using h'(2) by blast
qed

text \<open>
  Swapping two sentinels exchanges their rings when the second ring has an item. With an
  empty second ring the first sentinel ends up as a link of the second one's ring.
\<close>

lemma list_swap_ring:
  assumes r: "ring h s xs" "ring h t ys" "ys \<noteq> []" and disj: "set (s # xs) \<inter> set (t # ys) = {}"
  shows "\<exists>h'. list_swap s t h = Some h' \<and> ring h' t xs \<and> ring h' s ys \<and>
    agree_off (set (s # t # xs @ ys)) h h'"
proof -
  obtain y zs where ys: "ys = y # zs" using r(3) by (cases ys) auto
  have "ring h y (zs @ t # [])" using ring_rotate [of h t "[]" y zs] r(2) ys by simp
  from list_remove_init_ring [OF this] obtain h1 where h1: "list_remove_init t h = Some h1"
      "ring h1 y zs" "ring h1 t []" "agree_off (set (t # ys)) h h1"
    using ys by (auto simp: insert_commute)
  have r1: "ring h1 s xs" by (rule ring_agree [OF r(1) h1(4)]) (use disj in auto)
  obtain h2 where h2: "list_replace s t h1 = Some h2" "ring h2 t xs" "agree_off (set (s # t # xs)) h1 h2"
    using list_replace_ring [OF r1, of t] h1(3) disj by (auto simp: ring_Nil_iff)
  have r2: "ring h2 y zs"
    by (rule ring_agree [OF h1(2) h2(3)]) (use disj ys r(2) in \<open>auto simp: ring_def\<close>)
  have s2: "s \<in> dom h2" "s \<notin> set (y # zs)" "s \<noteq> nullptr"
    using r(1) disj ys agree_offD(2) [OF h1(4)] agree_offD(2) [OF h2(3)] by (auto simp: ring_def)
  obtain h' where h': "list_add s (last (y # zs)) h2 = Some h'" "ring h' y (zs @ [s])"
      "agree_off (set (y # zs @ [s])) h2 h'"
    using list_add_ring [of h2 y zs "[]" s] r2 s2 by auto
  have "last (t # ys) = last (y # zs)" using ys by simp
  moreover have "last (y # zs) \<in> set (y # zs)" by (rule last_in_set) simp
  ultimately have pos: "get_prev h t = Some (last (y # zs))" "last (y # zs) \<noteq> s"
    using ring_Pv_head [OF r(2)] ring_head_dom [OF r(2)] s2(2) by (simp_all only: heap_simps) metis
  have "list_swap s t h = Some h'"
    unfolding list_swap_def using pos h1(1) h2(1) h'(1) by (simp del: last.simps)
  moreover have "ring h' t xs" by (rule ring_agree [OF h2(2) h'(3)]) (use disj ys r in \<open>auto simp: ring_def\<close>)
  moreover have "ring h' s ys" using ring_rotate [of h' y zs s "[]"] h'(2) ys by simp
  moreover have "agree_off (set (s # t # xs @ ys)) h h'"
    by (rule agree_off_trans [OF agree_off_trans [OF h1(4) h2(3) subset_refl] h'(3)]) (use ys in auto)
  ultimately show ?thesis by blast
qed

lemma list_swap_empty:
  assumes r: "ring h s xs" "ring h t []" and disj: "t \<notin> set (s # xs)"
  shows "\<exists>h'. list_swap s t h = Some h' \<and> ring h' t (s # xs)"
proof -
  have t: "t \<in> dom h" "Nx h t = t" "Pv h t = t" "t \<noteq> nullptr" using r(2) by (auto simp: ring_Nil_iff)
  let ?h1 = "wr_prev t t (wr_next t t (wr_next t nullptr (wr_prev t nullptr (wr_prev t t (wr_next t t h)))))"
  have "list_remove_init t h = Some ?h1"
    using t by (simp add: list_remove_init_def util_list_remove_entry_def util_list_remove_def
      util_list_init_def heap_simps)
  moreover have "agree_off {t} h ?h1" by (intro agree_off_wr agree_off_refl) simp_all
  ultimately obtain h1 where h1: "list_remove_init t h = Some h1" "agree_off {t} h h1" by blast
  have r1: "ring h1 s xs" by (rule ring_agree [OF r(1) h1(2)]) (use disj in auto)
  obtain h2 where h2: "list_replace s t h1 = Some h2" "ring h2 t xs" "agree_off (set (s # t # xs)) h1 h2"
    using list_replace_ring [OF r1, of t] t disj agree_offD(2) [OF h1(2)] by auto
  have "s \<in> dom h2" "s \<notin> set (t # xs)" "s \<noteq> nullptr"
    using r(1) disj agree_offD(2) [OF h1(2)] agree_offD(2) [OF h2(3)] by (auto simp: ring_def)
  then obtain h' where h': "list_add s t h2 = Some h'" "ring h' t (s # xs)"
    using list_add_ring [of h2 t "[]" xs s] h2(2) by auto
  have "list_swap s t h = Some h'"
    unfolding list_swap_def using t h1(1) h2(1) h'(1) disj by (simp add: heap_simps)
  then show ?thesis using h'(2) by blast
qed

text \<open>Moving a sentinel that has items to a fresh address.\<close>

lemma move_link_ring:
  assumes r: "ring h s xs" "xs \<noteq> []" and t: "t \<notin> dom h" "t \<noteq> nullptr"
  shows "\<exists>h'. move_link t s h = Some h' \<and> ring h' t xs \<and> ring h' s [] \<and>
    Pa h' = (Pa h)(t := Pa h s, s := None) \<and> dom h' = insert t (dom h)"
proof -
  obtain l where l: "h s = Some l" using ring_head_dom [OF r(1)] by auto
  let ?f = "hd xs" and ?l = "last xs" and ?h = "h(t \<mapsto> l)"
  have fl: "lk_next l = ?f" "lk_prev l = ?l"
    using l r(2) ring_Nx_head [OF r(1)] ring_Pv_head [OF r(1)] by (auto simp: Nx_def Pv_def)
  have "?f \<in> set xs" "?l \<in> set xs" using r(2) by simp_all
  then have dm: "?f \<in> dom h" "?l \<in> dom h" "?f \<noteq> s" "?l \<noteq> s" "s \<in> dom h" "t \<noteq> s" "?f \<noteq> t" "?l \<noteq> t"
    using r(1) t(1) unfolding ring_def by auto
  have V: "Nx ?h = (Nx h)(t := ?f)" "Pv ?h = (Pv h)(t := ?l)" "Pa ?h = (Pa h)(t := Pa h s)"
    using fl l by (auto simp: Nx_def Pv_def Pa_def fun_eq_iff)
  let ?h' = "wr_prev s s (wr_next s s (wr_parent s None (wr_next ?l t (wr_prev ?f t ?h))))"
  have "move_link t s h = Some ?h'"
    using l dm fl by (simp add: move_link_def heap_simps V fun_upd_same fun_upd_other del: fun_upd_apply)
  moreover have d: "dom ?h' = insert t (dom h)" using dm by (auto simp del: fun_upd_apply)
  moreover have N: "Nx ?h' = (Nx h)(s := s, t := ?f, ?l := t)" "Pv ?h' = (Pv h)(s := s, ?f := t, t := ?l)"
      "Pa ?h' = (Pa h)(t := Pa h s, s := None)"
    using dm by (simp_all add: heap_simps V fun_upd_twist del: fun_upd_apply)
  moreover have "chain ((Nx h)(s := s)) ((Pv h)(s := s)) xs"
    using chain_ringD(3) [of h s "[]" xs "[]"] r(1) by (subst chain_cong [of _ _ "Nx h" _ "Pv h"])
      (auto simp: ring_def dest: in_set_butlastD in_set_tlD)
  then have "ring ?h' t ([] @ xs @ [])"
    using r t N(1,2) d by (intro ring_join_segment [of t "[]" xs "[]" ?h' "(Nx h)(s := s)" "(Pv h)(s := s)"])
      (auto simp: ring_def)
  moreover have "ring ?h' s []" using N(1,2) d dm r(1) by (auto simp: ring_Nil_iff ring_def)
  ultimately show ?thesis by auto
qed

end
