(* ===== verification/Intrusive_List.thy ===== *)
theory Intrusive_List
  imports Link_Heap "HOL-Library.Multiset"
begin

text \<open>
  The container \<^verbatim>\<open>intrusive_list\<close> of \<^verbatim>\<open>kern/libs/kbl/include/kbl/data/list.hpp\<close> over the link
  heap of \<^theory_text>\<open>Link_Heap\<close>. The representation predicate \<open>ilist\<close> relates heap and list
  object to the sequence of items; each operation is total on represented lists and has the
  effect of the corresponding operation on sequences.
\<close>

section \<open>The list object\<close>

text \<open>
  The address of the sentinel \<^verbatim>\<open>head_\<close> and the counter \<^verbatim>\<open>size_\<close>. \<open>nl\<close> is the
  trait's \<^verbatim>\<open>node_link_ptr\<close>, from an item to the address of its link; \<open>del\<close> is the
  deleter. Both are template arguments of the source. The lock guards of the
  \<^verbatim>\<open>EnableLock\<close> instances bracket the same statements and are not part of the model.
\<close>

record intrusive_list =
  il_head :: addr
  il_size :: u64

type_synonym 'p ilist_state = "'p heap \<times> intrusive_list"
type_synonym 'p deleter = "'p option \<Rightarrow> 'p heap \<Rightarrow> 'p heap option"

definition default_list_deleter :: "'p deleter" where
  "default_list_deleter p h = Some h"

text \<open>\<^verbatim>\<open>delete ptr\<close> frees the item with the link it embeds; deleting null does nothing.\<close>

definition operator_delete_list_deleter :: "('p \<Rightarrow> addr) \<Rightarrow> 'p deleter" where
  "operator_delete_list_deleter nl p h = (case p of None \<Rightarrow> Some h | Some x \<Rightarrow> Some (h(nl x := None)))"

definition intrusive_list_ctor :: "addr \<Rightarrow> 'p heap \<Rightarrow> 'p ilist_state option" where
  "intrusive_list_ctor this h = do {
     h \<leftarrow> list_init this (new_link this None h);
     Some (h, \<lparr>il_head = this, il_size = 0\<rparr>)
   }"

text \<open>Move construction at \<open>this\<close> from \<open>another\<close>; the second object is \<open>another\<close> afterwards.\<close>

definition intrusive_list_move ::
    "addr \<Rightarrow> intrusive_list \<Rightarrow> 'p heap \<Rightarrow> ('p heap \<times> intrusive_list \<times> intrusive_list) option" where
  "intrusive_list_move this another h = do {
     h \<leftarrow> move_link this (il_head another) h;
     Some (h, \<lparr>il_head = this, il_size = il_size another\<rparr>, another\<lparr>il_size := 0\<rparr>)
   }"

definition front_ptr :: "'p ilist_state \<Rightarrow> 'p option option" where
  "front_ptr s = (case s of (h, l) \<Rightarrow> do { n \<leftarrow> get_next h (il_head l); get_parent h n })"

definition back_ptr :: "'p ilist_state \<Rightarrow> 'p option option" where
  "back_ptr s = (case s of (h, l) \<Rightarrow> do { p \<leftarrow> get_prev h (il_head l); get_parent h p })"

text \<open>Iterators are link addresses; \<open>iter_next\<close> and \<open>iter_prev\<close> are \<^verbatim>\<open>++\<close> and \<^verbatim>\<open>--\<close>.\<close>

definition il_begin :: "'p ilist_state \<Rightarrow> addr option" where
  "il_begin s = (case s of (h, l) \<Rightarrow> get_next h (il_head l))"

definition il_end :: "'p ilist_state \<Rightarrow> addr" where
  "il_end s = il_head (snd s)"

definition il_rbegin :: "'p ilist_state \<Rightarrow> addr option" where
  "il_rbegin s = (case s of (h, l) \<Rightarrow> get_prev h (il_head l))"

definition iter_next :: "'p heap \<Rightarrow> addr \<Rightarrow> addr option" where
  "iter_next h it = get_next h it"

definition iter_prev :: "'p heap \<Rightarrow> addr \<Rightarrow> addr option" where
  "iter_prev h it = get_prev h it"

definition il_insert :: "('p \<Rightarrow> addr) \<Rightarrow> addr \<Rightarrow> 'p \<Rightarrow> 'p ilist_state \<Rightarrow> 'p ilist_state option" where
  "il_insert nl it item s = (case s of (h, l) \<Rightarrow> do {
     h \<leftarrow> list_add (nl item) it h;
     Some (h, l\<lparr>il_size := il_size l + 1\<rparr>)
   })"

definition il_erase :: "'p deleter \<Rightarrow> addr \<Rightarrow> 'p ilist_state \<Rightarrow> 'p ilist_state option" where
  "il_erase del it s = (case s of (h, l) \<Rightarrow> do {
     e \<leftarrow> list_empty (il_head l) h;
     if e then Some (h, l)
     else do {
       h \<leftarrow> list_remove_init it h;
       p \<leftarrow> get_parent h it;
       h \<leftarrow> del p h;
       Some (h, l\<lparr>il_size := il_size l - 1\<rparr>)
     }
   })"

definition il_remove :: "('p \<Rightarrow> addr) \<Rightarrow> 'p deleter \<Rightarrow> 'p \<Rightarrow> 'p ilist_state \<Rightarrow> 'p ilist_state option" where
  "il_remove nl del val s = (case s of (h, l) \<Rightarrow> do {
     e \<leftarrow> list_empty (il_head l) h;
     if e then Some (h, l)
     else do {
       h \<leftarrow> list_remove_init (nl val) h;
       h \<leftarrow> del (Some val) h;
       Some (h, l\<lparr>il_size := il_size l - 1\<rparr>)
     }
   })"

definition pop_back :: "'p deleter \<Rightarrow> 'p ilist_state \<Rightarrow> 'p ilist_state option" where
  "pop_back del s = (case s of (h, l) \<Rightarrow> do {
     e \<leftarrow> list_empty (il_head l) h;
     if e then Some (h, l)
     else do {
       entry \<leftarrow> get_prev h (il_head l);
       h \<leftarrow> list_remove_init entry h;
       let l = l\<lparr>il_size := il_size l - 1\<rparr>;
       p \<leftarrow> get_parent h entry;
       h \<leftarrow> del p h;
       Some (h, l)
     }
   })"

definition push_back :: "('p \<Rightarrow> addr) \<Rightarrow> 'p \<Rightarrow> 'p ilist_state \<Rightarrow> 'p ilist_state option" where
  "push_back nl item s = (case s of (h, l) \<Rightarrow> do {
     h \<leftarrow> list_add_tail (nl item) (il_head l) h;
     Some (h, l\<lparr>il_size := il_size l + 1\<rparr>)
   })"

definition pop_front :: "'p deleter \<Rightarrow> 'p ilist_state \<Rightarrow> 'p ilist_state option" where
  "pop_front del s = (case s of (h, l) \<Rightarrow> do {
     e \<leftarrow> list_empty (il_head l) h;
     if e then Some (h, l)
     else do {
       entry \<leftarrow> get_next h (il_head l);
       h \<leftarrow> list_remove_init entry h;
       let l = l\<lparr>il_size := il_size l - 1\<rparr>;
       p \<leftarrow> get_parent h entry;
       h \<leftarrow> del p h;
       Some (h, l)
     }
   })"

definition push_front :: "('p \<Rightarrow> addr) \<Rightarrow> 'p \<Rightarrow> 'p ilist_state \<Rightarrow> 'p ilist_state option" where
  "push_front nl item s = (case s of (h, l) \<Rightarrow> do {
     h \<leftarrow> list_add (nl item) (il_head l) h;
     Some (h, l\<lparr>il_size := il_size l + 1\<rparr>)
   })"

text \<open>The loops over the ring: \<open>None\<close> is a fault or a loop that does not end.\<close>

partial_function (option) clear_loop ::
    "'p deleter \<Rightarrow> addr \<Rightarrow> addr \<Rightarrow> addr \<Rightarrow> 'p heap \<Rightarrow> 'p heap option" where
  "clear_loop del head iter t h =
     (if iter = head then Some h
      else do {
        h \<leftarrow> list_remove iter h;
        p \<leftarrow> get_parent h iter;
        h \<leftarrow> (if p \<noteq> None then del p h else Some h);
        t' \<leftarrow> get_next h t;
        clear_loop del head t t' h
      })"

definition do_clear :: "'p deleter \<Rightarrow> 'p ilist_state \<Rightarrow> 'p ilist_state option" where
  "do_clear del s = (case s of (h, l) \<Rightarrow> do {
     e \<leftarrow> list_empty (il_head l) h;
     h \<leftarrow> (if \<not> e then do {
       iter \<leftarrow> get_next h (il_head l);
       t \<leftarrow> get_next h iter;
       clear_loop del (il_head l) iter t h
     } else Some h);
     Some (h, l\<lparr>il_size := 0\<rparr>)
   })"

partial_function (option) size_loop :: "'p heap \<Rightarrow> addr \<Rightarrow> addr \<Rightarrow> u64 \<Rightarrow> u64 option" where
  "size_loop h head iter sz =
     (if iter = head then Some sz
      else do { n \<leftarrow> get_next h iter; size_loop h head n (sz + 1) })"

definition do_size_slow :: "'p ilist_state \<Rightarrow> u64 option" where
  "do_size_slow s = (case s of (h, l) \<Rightarrow> do {
     iter \<leftarrow> get_next h (il_head l);
     size_loop h (il_head l) iter 0
   })"

definition il_empty :: "'p ilist_state \<Rightarrow> bool option" where
  "il_empty s = (case s of (h, l) \<Rightarrow> list_empty (il_head l) h)"

definition il_swap ::
    "intrusive_list \<Rightarrow> intrusive_list \<Rightarrow> 'p heap \<Rightarrow> ('p heap \<times> intrusive_list \<times> intrusive_list) option" where
  "il_swap this another h = do {
     h \<leftarrow> list_swap (il_head this) (il_head another) h;
     Some (h, this\<lparr>il_size := il_size another\<rparr>, another\<lparr>il_size := il_size this\<rparr>)
   }"

text \<open>\<open>il_splice\<close> puts the items of \<open>other\<close> at the front, \<open>il_splice_at\<close> after \<open>pos\<close>.\<close>

definition il_splice_at ::
    "addr \<Rightarrow> intrusive_list \<Rightarrow> intrusive_list \<Rightarrow> 'p heap \<Rightarrow> ('p heap \<times> intrusive_list \<times> intrusive_list) option" where
  "il_splice_at pos this other h = do {
     let this = this\<lparr>il_size := il_size this + il_size other\<rparr>;
     let other = other\<lparr>il_size := 0\<rparr>;
     h \<leftarrow> list_splice_init (il_head other) pos h;
     Some (h, this, other)
   }"

definition il_splice ::
    "intrusive_list \<Rightarrow> intrusive_list \<Rightarrow> 'p heap \<Rightarrow> ('p heap \<times> intrusive_list \<times> intrusive_list) option" where
  "il_splice this other h = do {
     let this = this\<lparr>il_size := il_size this + il_size other\<rparr>;
     let other = other\<lparr>il_size := 0\<rparr>;
     h \<leftarrow> list_splice_init (il_head other) (il_head this) h;
     Some (h, this, other)
   }"





text \<open>
  How a client uses the container as a queue: it pushes items one after the other, and takes
  items while \<open>front\<close> has one, at most \<open>n\<close> of them.
\<close>

fun push_all :: "('a \<Rightarrow> 's \<Rightarrow> 's option) \<Rightarrow> 'a list \<Rightarrow> 's \<Rightarrow> 's option" where
  "push_all enq [] s = Some s"
| "push_all enq (x # xs) s = do { s \<leftarrow> enq x s; push_all enq xs s }"

fun take_front :: "('s \<Rightarrow> 'a option option) \<Rightarrow> ('s \<Rightarrow> 's option) \<Rightarrow> nat \<Rightarrow> 's \<Rightarrow> ('a list \<times> 's) option" where
  "take_front front deq 0 s = Some ([], s)"
| "take_front front deq (Suc n) s = do {
     f \<leftarrow> front s;
     (case f of
        None \<Rightarrow> Some ([], s)
      | Some x \<Rightarrow> do {
          s \<leftarrow> deq s;
          (xs, s) \<leftarrow> take_front front deq n s;
          Some (x # xs, s)
        })
   }"

section \<open>The representation predicate\<close>

definition ilist :: "('p \<Rightarrow> addr) \<Rightarrow> 'p ilist_state \<Rightarrow> 'p list \<Rightarrow> bool" where
  "ilist nl s xs \<longleftrightarrow> (case s of (h, l) \<Rightarrow>
     ring h (il_head l) (map nl xs) \<and> (\<forall>x \<in> set xs. Pa h (nl x) = Some x) \<and>
     Pa h (il_head l) = None \<and> il_size l = of_nat (length xs))"

text \<open>The links a list object owns: its sentinel and the links of its items.\<close>

definition footprint :: "('p \<Rightarrow> addr) \<Rightarrow> intrusive_list \<Rightarrow> 'p list \<Rightarrow> addr set" where
  "footprint nl l xs = insert (il_head l) (nl ` set xs)"

text \<open>An item that can be linked: its link is allocated and points back at it.\<close>

definition item_ready :: "('p \<Rightarrow> addr) \<Rightarrow> 'p heap \<Rightarrow> 'p \<Rightarrow> bool" where
  "item_ready nl h x \<longleftrightarrow> nl x \<in> dom h \<and> nl x \<noteq> nullptr \<and> Pa h (nl x) = Some x"

lemma ilistD:
  assumes "ilist nl (h, l) xs"
  shows "ring h (il_head l) (map nl xs)" "\<And>x. x \<in> set xs \<Longrightarrow> Pa h (nl x) = Some x"
    "Pa h (il_head l) = None" "il_size l = of_nat (length xs)"
  using assms by (auto simp: ilist_def)

lemma Pa_cong: "h' a = h a \<Longrightarrow> Pa h' a = Pa h a"
  by (simp add: Pa_def)

lemma ilist_frame:
  assumes "ilist nl (h, l) xs" "\<And>a. a \<in> footprint nl l xs \<Longrightarrow> h' a = h a"
  shows "ilist nl (h', l) xs"
proof -
  have "ring h' (il_head l) (map nl xs)"
    using ilistD(1) [OF assms(1)] by (rule ring_frame) (use assms(2) in \<open>auto simp: footprint_def\<close>)
  moreover have "Pa h' a = Pa h a" if "a \<in> footprint nl l xs" for a
    by (rule Pa_cong) (rule assms(2) [OF that])
  ultimately show ?thesis using assms(1) by (auto simp: ilist_def footprint_def)
qed

lemma ilist_agree:
  "ilist nl (h, l) xs \<Longrightarrow> agree_off S h h' \<Longrightarrow> S \<inter> footprint nl l xs = {} \<Longrightarrow> ilist nl (h', l) xs"
  by (erule ilist_frame) (auto simp: agree_off_def)

lemma item_ready_fresh:
  assumes "ilist nl (h, l) xs" "item_ready nl h x" "x \<notin> set xs"
  shows "nl x \<notin> set (il_head l # map nl xs)"
proof
  assume "nl x \<in> set (il_head l # map nl xs)"
  then have "nl x = il_head l \<or> (\<exists>y \<in> set xs. nl x = nl y)" by auto
  then show False
    using ilistD(2) [OF assms(1)] ilistD(3) [OF assms(1)] assms(2,3) unfolding item_ready_def by auto
qed

lemma item_ready_agree: "item_ready nl h x \<Longrightarrow> agree_off S h h' \<Longrightarrow> item_ready nl h' x"
  by (simp add: item_ready_def agree_off_def)

section \<open>Insertion\<close>

lemma intrusive_list_ctor_ilist:
  assumes "this \<noteq> nullptr"
  shows "\<exists>s. intrusive_list_ctor this h = Some s \<and> ilist nl s [] \<and> il_head (snd s) = this"
proof -
  let ?h = "new_link this None h"
  have "this \<in> dom ?h" "Pa ?h this = None" by (auto simp: new_link_def Pa_def)
  moreover obtain h' where "util_list_init this ?h = Some h'" "ring h' this []" "agree_off {this} ?h h'"
    using util_list_init_effect [of this ?h] assms by (auto simp: new_link_def)
  ultimately show ?thesis
    by (simp add: intrusive_list_ctor_def list_init_def ilist_def agree_off_def)
qed

text \<open>
  The link after which \<open>insert\<close> works is the last link of the prefix, or the sentinel.
\<close>

lemma il_insert_ilist:
  assumes i: "ilist nl (h, l) (us @ vs)" and x: "item_ready nl h x" "x \<notin> set (us @ vs)"
  shows "\<exists>h' l'. il_insert nl (last (il_head l # map nl us)) x (h, l) = Some (h', l') \<and>
    ilist nl (h', l') (us @ x # vs) \<and> il_head l' = il_head l \<and>
    agree_off (footprint nl l (us @ x # vs)) h h'"
proof -
  have r: "ring h (il_head l) (map nl us @ map nl vs)" using ilistD(1) [OF i] by simp
  have "nl x \<in> dom h" "nl x \<noteq> nullptr" using x(1) by (auto simp: item_ready_def)
  moreover have "nl x \<notin> set (il_head l # map nl us @ map nl vs)" using item_ready_fresh [OF i x] by simp
  ultimately obtain h' where h': "list_add (nl x) (last (il_head l # map nl us)) h = Some h'"
      "ring h' (il_head l) (map nl us @ nl x # map nl vs)"
      "agree_off (set (il_head l # map nl us @ nl x # map nl vs)) h h'"
    using list_add_ring [OF r] by blast
  have "set (il_head l # map nl us @ nl x # map nl vs) = footprint nl l (us @ x # vs)"
    by (auto simp: footprint_def)
  moreover have "ilist nl (h', l\<lparr>il_size := il_size l + 1\<rparr>) (us @ x # vs)"
    using i h'(2) agree_offD(3) [OF h'(3)] x(1) by (auto simp: ilist_def item_ready_def)
  ultimately show ?thesis using h'(1,3) by (simp add: il_insert_def del: last.simps)
qed

lemma push_front_ilist:
  assumes "ilist nl (h, l) xs" "item_ready nl h x" "x \<notin> set xs"
  shows "\<exists>h' l'. push_front nl x (h, l) = Some (h', l') \<and> ilist nl (h', l') (x # xs) \<and>
    il_head l' = il_head l \<and> agree_off (footprint nl l (x # xs)) h h'"
  using il_insert_ilist [of nl h l "[]" xs x] assms by (simp add: push_front_def il_insert_def)

lemma push_back_ilist:
  assumes i: "ilist nl (h, l) xs" and x: "item_ready nl h x" "x \<notin> set xs"
  shows "\<exists>h' l'. push_back nl x (h, l) = Some (h', l') \<and> ilist nl (h', l') (xs @ [x]) \<and>
    il_head l' = il_head l \<and> agree_off (footprint nl l (xs @ [x])) h h'"
proof -
  have "list_add_tail (nl x) (il_head l) h = list_add (nl x) (last (il_head l # map nl xs)) h"
    using ring_split(1) [of h "il_head l" "map nl xs" "[]"] ring_cut_in(3) [of h "il_head l" "map nl xs" "[]"]
      ring_Pv_head [of h "il_head l" "map nl xs"] ilistD(1) [OF i]
    by (simp add: list_add_tail_def list_add_def heap_simps del: last.simps)
  then show ?thesis
    using il_insert_ilist [of nl h l xs "[]" x] assms by (simp add: push_back_def il_insert_def del: last.simps)
qed

section \<open>Queries and iteration\<close>

lemma il_empty_ilist: "ilist nl (h, l) xs \<Longrightarrow> list_empty (il_head l) h = Some (xs = [])"
  using ring_Nx_head_iff [of h "il_head l" "map nl xs"]
  by (auto simp: ilist_def list_empty_def heap_simps)

lemma front_ptr_ilist: "ilist nl (h, l) xs \<Longrightarrow> front_ptr (h, l) = Some (if xs = [] then None else Some (hd xs))"
  using ring_Nx_head [of h "il_head l" "map nl xs"] ring_dom [of h "il_head l" "map nl xs"]
  by (cases xs) (auto simp: ilist_def front_ptr_def heap_simps)

lemma back_ptr_ilist: "ilist nl (h, l) xs \<Longrightarrow> back_ptr (h, l) = Some (if xs = [] then None else Some (last xs))"
  using ring_Pv_head [of h "il_head l" "map nl xs"] ring_dom [of h "il_head l" "map nl xs"]
  by (cases xs rule: rev_cases) (auto simp: ilist_def back_ptr_def heap_simps)

text \<open>\<^verbatim>\<open>++\<close> and \<^verbatim>\<open>--\<close> from the link of an item reach the neighbour's link or the sentinel.\<close>

lemma iter_ilist:
  assumes "ilist nl (h, l) (us @ x # vs)"
  shows "iter_next h (nl x) = Some (hd (map nl vs @ [il_head l]))"
    "iter_prev h (nl x) = Some (last (il_head l # map nl us))"
proof -
  have r: "ring h (il_head l) (map nl us @ nl x # map nl vs)" using ilistD(1) [OF assms] by simp
  have "nl x \<in> dom h" using ring_dom [OF r] by simp
  then show "iter_next h (nl x) = Some (hd (map nl vs @ [il_head l]))"
    "iter_prev h (nl x) = Some (last (il_head l # map nl us))"
    using ring_split(1) [of h "il_head l" "map nl us @ [nl x]" "map nl vs"] r
      ring_split(2) [of h "il_head l" "map nl us" "nl x # map nl vs"]
    by (simp_all add: iter_next_def iter_prev_def heap_simps del: last.simps) simp
qed

lemma size_loop_ring:
  "ring h s (us @ vs) \<Longrightarrow> size_loop h s (hd (vs @ [s])) n = Some (n + of_nat (length vs))"
proof (induction vs arbitrary: us n)
  case Nil
  then show ?case by (subst size_loop.simps) simp
next
  case (Cons v vs)
  have "v \<in> dom h" "v \<noteq> s" "Nx h v = hd (vs @ [s])"
    using Cons.prems ring_dom [OF Cons.prems] ring_split(1) [of h s "us @ [v]" vs] by (auto simp: ring_def)
  moreover have "size_loop h s (hd (vs @ [s])) (n + 1) = Some (n + 1 + of_nat (length vs))"
    using Cons.IH [of "us @ [v]"] Cons.prems by simp
  ultimately show ?case by (subst size_loop.simps) (simp add: heap_simps ac_simps)
qed

section \<open>Removal\<close>

text \<open>
  What the list relies on from its \<^verbatim>\<open>list_deleter\<close> template argument: deleting an item
  succeeds and changes no link but the item's own.
\<close>

locale item_deleter =
  fixes nl :: "'p \<Rightarrow> addr" and del :: "'p deleter"
  assumes del_total: "\<exists>h'. del (Some x) h = Some h'"
    and del_frame: "del (Some x) h = Some h' \<Longrightarrow> a \<noteq> nl x \<Longrightarrow> h' a = h a"
begin

lemma unlink_ilist:
  assumes i: "ilist nl (h, l) (us @ x # vs)"
  shows "\<exists>h1 h2. list_remove_init (nl x) h = Some h1 \<and> get_parent h1 (nl x) = Some (Some x) \<and>
    del (Some x) h1 = Some h2 \<and> ilist nl (h2, l\<lparr>il_size := il_size l - 1\<rparr>) (us @ vs) \<and>
    (\<forall>a. a \<notin> footprint nl l (us @ x # vs) \<longrightarrow> h2 a = h a)"
proof -
  have r: "ring h (il_head l) (map nl us @ nl x # map nl vs)" using ilistD(1) [OF i] by simp
  obtain h1 where h1: "list_remove_init (nl x) h = Some h1" "ring h1 (il_head l) (map nl us @ map nl vs)"
      "agree_off (set (il_head l # map nl us @ nl x # map nl vs)) h h1"
    using list_remove_init_ring [OF r] by blast
  obtain h2 where h2: "del (Some x) h1 = Some h2" using del_total by blast
  have p: "Pa h1 = Pa h" "nl x \<in> dom h1" using agree_offD(2,3) [OF h1(3)] ring_dom [OF r] by auto
  then have "get_parent h1 (nl x) = Some (Some x)" using ilistD(2) [OF i] by (simp add: heap_simps)
  moreover have "ilist nl (h1, l\<lparr>il_size := il_size l - 1\<rparr>) (us @ vs)"
    using i h1(2) p(1) by (auto simp: ilist_def)
  then have "ilist nl (h2, l\<lparr>il_size := il_size l - 1\<rparr>) (us @ vs)"
    by (rule ilist_frame) (rule del_frame [OF h2], use r in \<open>auto simp: footprint_def ring_def\<close>)
  moreover have "\<forall>a. a \<notin> footprint nl l (us @ x # vs) \<longrightarrow> h2 a = h a"
    using del_frame [OF h2] agree_offD(1) [OF h1(3)] by (auto simp: footprint_def)
  ultimately show ?thesis using h1(1) h2 by blast
qed

lemma il_remove_ilist:
  assumes i: "ilist nl (h, l) (us @ x # vs)"
  shows "\<exists>h' l'. il_remove nl del x (h, l) = Some (h', l') \<and> ilist nl (h', l') (us @ vs) \<and>
    il_head l' = il_head l \<and> (\<forall>a. a \<notin> footprint nl l (us @ x # vs) \<longrightarrow> h' a = h a)"
  using unlink_ilist [OF i] il_empty_ilist [OF i] by (fastforce simp: il_remove_def)

lemma il_erase_ilist:
  assumes i: "ilist nl (h, l) (us @ x # vs)"
  shows "\<exists>h' l'. il_erase del (nl x) (h, l) = Some (h', l') \<and> ilist nl (h', l') (us @ vs) \<and>
    il_head l' = il_head l \<and> (\<forall>a. a \<notin> footprint nl l (us @ x # vs) \<longrightarrow> h' a = h a)"
  using unlink_ilist [OF i] il_empty_ilist [OF i] by (fastforce simp: il_erase_def)

lemma pop_front_ilist:
  assumes i: "ilist nl (h, l) (x # xs)"
  shows "\<exists>h' l'. pop_front del (h, l) = Some (h', l') \<and> ilist nl (h', l') xs \<and>
    il_head l' = il_head l \<and> (\<forall>a. a \<notin> footprint nl l (x # xs) \<longrightarrow> h' a = h a)"
proof -
  have "get_next h (il_head l) = Some (nl x)"
    using ilistD(1) [OF i] ring_Nx_head [OF ilistD(1) [OF i]] by (simp add: heap_simps)
  then show ?thesis
    using unlink_ilist [of h l "[]" x xs] i il_empty_ilist [OF i] by (fastforce simp: pop_front_def)
qed

lemma pop_back_ilist:
  assumes i: "ilist nl (h, l) (xs @ [x])"
  shows "\<exists>h' l'. pop_back del (h, l) = Some (h', l') \<and> ilist nl (h', l') xs \<and>
    il_head l' = il_head l \<and> (\<forall>a. a \<notin> footprint nl l (xs @ [x]) \<longrightarrow> h' a = h a)"
proof -
  have "get_prev h (il_head l) = Some (nl x)"
    using ilistD(1) [OF i] ring_Pv_head [OF ilistD(1) [OF i]] by (simp add: heap_simps)
  then show ?thesis
    using unlink_ilist [of h l xs x "[]"] i il_empty_ilist [OF i] by (fastforce simp: pop_back_def)
qed

text \<open>The loop of \<^verbatim>\<open>do_clear\<close> ends, whatever the deleter leaves of the items.\<close>

lemma clear_loop_ring:
  assumes "ring h s (map nl xs)" "\<forall>x \<in> set xs. Pa h (nl x) = Some x"
    and "xs \<noteq> [] \<Longrightarrow> t = Nx h (nl (hd xs))"
  shows "\<exists>h'. clear_loop del s (hd (map nl xs @ [s])) t h = Some h' \<and> ring h' s [] \<and>
    (\<forall>a. a \<notin> insert s (nl ` set xs) \<longrightarrow> h' a = h a) \<and> Pa h' s = Pa h s"
  using assms
proof (induction xs arbitrary: h t)
  case Nil
  then show ?case by (subst clear_loop.simps) auto
next
  case (Cons x xs)
  have r: "ring h s ([] @ nl x # map nl xs)" using Cons.prems(1) by simp
  have t: "t = hd (map nl xs @ [s])" using Cons.prems(3) ring_split(1) [of h s "[nl x]" "map nl xs"] r by simp
  obtain h1 where h1: "list_remove (nl x) h = Some h1" "ring h1 s (map nl xs)"
      "agree_off (set (s # nl x # map nl xs)) h h1"
    using list_remove_ring [OF r] by auto
  obtain h2 where h2: "del (Some x) h1 = Some h2" using del_total by blast
  have x: "nl x \<notin> insert s (nl ` set xs)" "nl x \<in> dom h1" "get_parent h1 (nl x) = Some (Some x)"
    using r Cons.prems(2) agree_offD(2,3) [OF h1(3)] by (auto simp: ring_def heap_simps)
  have f: "h2 a = h1 a" if "a \<in> insert s (nl ` set xs)" for a
    by (rule del_frame [OF h2]) (use that x(1) in auto)
  have r2: "ring h2 s (map nl xs)" by (rule ring_frame [OF h1(2)]) (use f in auto)
  have "Pa h2 a = Pa h a" if "a \<in> insert s (nl ` set xs)" for a
    using Pa_cong [of h2 a h1] f [OF that] agree_offD(3) [OF h1(3)] by simp
  then have p2: "\<forall>y \<in> set xs. Pa h2 (nl y) = Some y" "Pa h2 s = Pa h s"
    using Cons.prems(2) by simp_all
  have "t \<in> dom h2" using ring_cut_in(4) [of h2 s "[]" "map nl xs"] r2 t by simp
  then have nx: "get_next h2 t = Some (Nx h2 t)" by (simp add: heap_simps)
  have nt: "xs \<noteq> [] \<Longrightarrow> Nx h2 t = Nx h2 (nl (hd xs))" using t by (simp add: hd_append hd_map)
  obtain h' where h': "clear_loop del s t (Nx h2 t) h2 = Some h'" "ring h' s []"
      "\<forall>a. a \<notin> insert s (nl ` set xs) \<longrightarrow> h' a = h2 a" "Pa h' s = Pa h2 s"
    using Cons.IH [OF r2 p2(1) nt] unfolding t by blast
  have "clear_loop del s (nl x) t h = Some h'"
    using x h1(1) h2 nx h'(1) by (subst clear_loop.simps) simp
  moreover have "\<forall>a. a \<notin> insert s (nl ` set (x # xs)) \<longrightarrow> h' a = h a"
    using h'(3) del_frame [OF h2] agree_offD(1) [OF h1(3)] by auto
  ultimately show ?case using h'(2,4) p2(2) by (intro exI [of _ h']) simp
qed

lemma do_clear_ilist:
  assumes i: "ilist nl (h, l) xs"
  shows "\<exists>h' l'. do_clear del (h, l) = Some (h', l') \<and> ilist nl (h', l') [] \<and>
    il_head l' = il_head l \<and> (\<forall>a. a \<notin> footprint nl l xs \<longrightarrow> h' a = h a)"
proof (cases "xs = []")
  case True
  then show ?thesis using i il_empty_ilist [OF i] by (auto simp: do_clear_def ilist_def)
next
  case False
  have r: "ring h (il_head l) (map nl xs)" using ilistD(1) [OF i] .
  have "get_next h (il_head l) = Some (hd (map nl xs @ [il_head l]))"
    using ring_Nx_head [OF r] r by (simp add: heap_simps)
  moreover have hd: "hd (map nl xs @ [il_head l]) = nl (hd xs)" "nl (hd xs) \<in> dom h"
    using False ring_dom [OF r] by (auto simp: hd_append hd_map)
  moreover obtain h' where h': "clear_loop del (il_head l) (nl (hd xs)) (Nx h (nl (hd xs))) h = Some h'"
      "ring h' (il_head l) []" "\<forall>a. a \<notin> footprint nl l xs \<longrightarrow> h' a = h a" "Pa h' (il_head l) = None"
    using clear_loop_ring [OF r _ refl] ilistD(2,3) [OF i] hd(1) by (auto simp: footprint_def)
  ultimately have "do_clear del (h, l) = Some (h', l\<lparr>il_size := 0\<rparr>)"
    using il_empty_ilist [OF i] False by (simp add: do_clear_def heap_simps)
  then show ?thesis using h' by (auto simp: ilist_def)
qed

end

interpretation dfl: item_deleter nl default_list_deleter
  by unfold_locales (simp_all add: default_list_deleter_def)

interpretation opdel: item_deleter nl "operator_delete_list_deleter nl"
  by unfold_locales (auto simp: operator_delete_list_deleter_def)

section \<open>Whole lists\<close>

lemma do_size_slow_ilist: "ilist nl (h, l) xs \<Longrightarrow> do_size_slow (h, l) = Some (of_nat (length xs))"
  using size_loop_ring [of h "il_head l" "[]" "map nl xs" 0] ring_Nx_head [of h "il_head l" "map nl xs"]
  by (auto simp: do_size_slow_def ilist_def heap_simps)

lemma footprint_set: "set (il_head l # map nl xs) = footprint nl l xs"
  by (simp add: footprint_def)

lemma il_splice_at_ilist:
  assumes i: "ilist nl (h, l) (us @ vs)" "ilist nl (h, m) ws"
    and disj: "footprint nl l (us @ vs) \<inter> footprint nl m ws = {}"
  shows "\<exists>h' l' m'. il_splice_at (last (il_head l # map nl us)) l m h = Some (h', l', m') \<and>
    ilist nl (h', l') (us @ ws @ vs) \<and> ilist nl (h', m') [] \<and>
    il_head l' = il_head l \<and> il_head m' = il_head m"
proof -
  have r: "ring h (il_head l) (map nl us @ map nl vs)" "ring h (il_head m) (map nl ws)"
    using ilistD(1) [OF i(1)] ilistD(1) [OF i(2)] by simp_all
  have "set (il_head m # map nl ws) \<inter> set (il_head l # map nl us @ map nl vs) = {}"
    using disj by (auto simp: footprint_def)
  from list_splice_init_ring [OF r this] obtain h' where
    h': "list_splice_init (il_head m) (last (il_head l # map nl us)) h = Some h'"
      "ring h' (il_head l) (map nl us @ map nl ws @ map nl vs)" "ring h' (il_head m) []" "Pa h' = Pa h"
    by (auto dest: agree_offD(3) simp del: last.simps)
  show ?thesis
    using h' i by (auto simp: il_splice_at_def ilist_def simp del: last.simps)
qed

lemma il_splice_ilist:
  assumes "ilist nl (h, l) xs" "ilist nl (h, m) ws" "footprint nl l xs \<inter> footprint nl m ws = {}"
  shows "\<exists>h' l' m'. il_splice l m h = Some (h', l', m') \<and> ilist nl (h', l') (ws @ xs) \<and>
    ilist nl (h', m') [] \<and> il_head l' = il_head l \<and> il_head m' = il_head m"
  using il_splice_at_ilist [of nl h l "[]" xs m ws] assms by (simp add: il_splice_def il_splice_at_def)

lemma il_swap_ilist:
  assumes i: "ilist nl (h, l) xs" "ilist nl (h, m) ys" "ys \<noteq> []"
    and disj: "footprint nl l xs \<inter> footprint nl m ys = {}"
  shows "\<exists>h' l' m'. il_swap l m h = Some (h', l', m') \<and> ilist nl (h', l') ys \<and> ilist nl (h', m') xs \<and>
    il_head l' = il_head l \<and> il_head m' = il_head m"
proof -
  have "\<exists>h'. list_swap (il_head l) (il_head m) h = Some h' \<and> ring h' (il_head m) (map nl xs) \<and>
      ring h' (il_head l) (map nl ys) \<and> agree_off (set (il_head l # il_head m # map nl xs @ map nl ys)) h h'"
    using i disj by (intro list_swap_ring) (auto simp: ilist_def footprint_def)
  then obtain h' where h': "list_swap (il_head l) (il_head m) h = Some h'" "ring h' (il_head m) (map nl xs)"
      "ring h' (il_head l) (map nl ys)" "Pa h' = Pa h"
    by (auto dest: agree_offD(3))
  show ?thesis using h' i by (auto simp: il_swap_def ilist_def)
qed

lemma intrusive_list_move_ilist:
  assumes i: "ilist nl (h, l) xs" "xs \<noteq> []" and t: "t \<notin> dom h" "t \<noteq> nullptr"
  shows "\<exists>h' l' m'. intrusive_list_move t l h = Some (h', l', m') \<and> ilist nl (h', l') xs \<and>
    ilist nl (h', m') [] \<and> il_head l' = t"
proof -
  obtain h' where h': "move_link t (il_head l) h = Some h'" "ring h' t (map nl xs)" "ring h' (il_head l) []"
      "Pa h' = (Pa h)(t := Pa h (il_head l), il_head l := None)"
    using move_link_ring [OF ilistD(1) [OF i(1)] _ t] i(2) by auto
  have "t \<noteq> nl x \<and> il_head l \<noteq> nl x" if "x \<in> set xs" for x
    using that t(1) ilistD(1) [OF i(1)] by (auto simp: ring_def)
  then show ?thesis using h' i(1) by (fastforce simp: intrusive_list_move_def ilist_def)
qed

section \<open>Merging\<close>

text \<open>The sequence \<^verbatim>\<open>do_merge\<close> computes: while both lists have items, \<open>cmp\<close> picks the next one.\<close>

fun merge_seq :: "('p \<Rightarrow> 'p \<Rightarrow> bool) \<Rightarrow> 'p list \<Rightarrow> 'p list \<Rightarrow> 'p list" where
  "merge_seq cmp (x # xs) (y # ys) =
     (if cmp x y then x # merge_seq cmp xs (y # ys) else y # merge_seq cmp (x # xs) ys)"
| "merge_seq cmp [] ys = ys"
| "merge_seq cmp (x # xs) [] = x # xs"


lemma merge_seq_Nil [simp]: "merge_seq cmp xs [] = xs"
  by (cases xs) auto













section \<open>The queue contract\<close>

text \<open>
  What the run queues, wait queues and free lists of the kernel rely on when they use the
  container as a queue.
\<close>

locale queue_container =
  fixes rep :: "'s \<Rightarrow> 'a list \<Rightarrow> bool" and ready :: "'s \<Rightarrow> 'a \<Rightarrow> bool"
    and enq :: "'a \<Rightarrow> 's \<Rightarrow> 's option" and deq :: "'s \<Rightarrow> 's option" and front :: "'s \<Rightarrow> 'a option option"
  assumes enq_rep: "rep s xs \<Longrightarrow> ready s x \<Longrightarrow> x \<notin> set xs \<Longrightarrow>
      \<exists>s'. enq x s = Some s' \<and> rep s' (xs @ [x]) \<and> (\<forall>y. ready s y \<longrightarrow> ready s' y)"
    and deq_rep: "rep s (x # xs) \<Longrightarrow> \<exists>s'. deq s = Some s' \<and> rep s' xs"
    and front_rep: "rep s xs \<Longrightarrow> front s = Some (if xs = [] then None else Some (hd xs))"
begin

lemma push_all_rep:
  "rep s xs \<Longrightarrow> distinct (xs @ ys) \<Longrightarrow> (\<forall>y \<in> set ys. ready s y) \<Longrightarrow>
   \<exists>s'. push_all enq ys s = Some s' \<and> rep s' (xs @ ys)"
proof (induction ys arbitrary: s xs)
  case (Cons y ys)
  obtain s1 where s1: "enq y s = Some s1" "rep s1 (xs @ [y])" "\<forall>z. ready s z \<longrightarrow> ready s1 z"
    using enq_rep [OF Cons.prems(1), of y] Cons.prems(2,3) by auto
  have "\<exists>s'. push_all enq ys s1 = Some s' \<and> rep s' ((xs @ [y]) @ ys)"
    using Cons.IH [OF s1(2)] Cons.prems(2,3) s1(3) by auto
  then show ?case using s1(1) by simp
qed simp

lemma take_front_rep:
  "rep s (xs @ ys) \<Longrightarrow> \<exists>s'. take_front front deq (length xs) s = Some (xs, s') \<and> rep s' ys"
proof (induction xs arbitrary: s)
  case (Cons x xs)
  obtain s1 where s1: "deq s = Some s1" "rep s1 (xs @ ys)" using deq_rep Cons.prems by fastforce
  then show ?case using Cons.IH [OF s1(2)] front_rep [OF Cons.prems] by auto
qed simp

lemma fifo_order:
  assumes "rep s []" "distinct ys" "\<forall>y \<in> set ys. ready s y"
  shows "\<exists>s1 s2. push_all enq ys s = Some s1 \<and> take_front front deq (length ys) s1 = Some (ys, s2) \<and> rep s2 []"
proof -
  obtain s1 where s1: "push_all enq ys s = Some s1" "rep s1 (ys @ [])"
    using push_all_rep [OF assms(1)] assms(2,3) by auto
  then show ?thesis using take_front_rep [OF s1(2)] by blast
qed

end

lemma push_back_queue:
  assumes "ilist nl s xs" "item_ready nl (fst s) x" "x \<notin> set xs"
  shows "\<exists>s'. push_back nl x s = Some s' \<and> ilist nl s' (xs @ [x]) \<and>
    (\<forall>y. item_ready nl (fst s) y \<longrightarrow> item_ready nl (fst s') y)"
proof -
  obtain h l where s: "s = (h, l)" by (cases s)
  then show ?thesis using push_back_ilist [of nl h l xs x] assms item_ready_agree by fastforce
qed

lemma pop_front_queue:
  "ilist nl s (x # xs) \<Longrightarrow> \<exists>s'. pop_front default_list_deleter s = Some s' \<and> ilist nl s' xs"
  using dfl.pop_front_ilist [of nl "fst s" "snd s" x xs] by auto

lemma front_ptr_queue: "ilist nl s xs \<Longrightarrow> front_ptr s = Some (if xs = [] then None else Some (hd xs))"
  using front_ptr_ilist [of nl "fst s" "snd s" xs] by simp

interpretation ilq: queue_container "ilist nl" "\<lambda>s. item_ready nl (fst s)" "push_back nl"
    "pop_front default_list_deleter" front_ptr
  by unfold_locales (fact push_back_queue pop_front_queue front_ptr_queue)+

section \<open>A concrete heap\<close>

text \<open>
  Item \<open>n\<close> has its link at address \<open>n + 10\<close>. The list at \<open>1\<close> holds the items 1 and 3, the
  list at \<open>2\<close> the item 2, the list at \<open>4\<close> nothing; items 5 and 6 are detached.
\<close>

definition demo_nl :: "nat \<Rightarrow> addr" where
  "demo_nl x = x + 10"

definition demo_heap :: "nat heap" where
  "demo_heap = [1 \<mapsto> \<lparr>lk_parent = None, lk_next = 11, lk_prev = 13\<rparr>,
     11 \<mapsto> \<lparr>lk_parent = Some 1, lk_next = 13, lk_prev = 1\<rparr>,
     13 \<mapsto> \<lparr>lk_parent = Some 3, lk_next = 1, lk_prev = 11\<rparr>,
     2 \<mapsto> \<lparr>lk_parent = None, lk_next = 12, lk_prev = 12\<rparr>,
     12 \<mapsto> \<lparr>lk_parent = Some 2, lk_next = 2, lk_prev = 2\<rparr>,
     4 \<mapsto> \<lparr>lk_parent = None, lk_next = 4, lk_prev = 4\<rparr>,
     15 \<mapsto> \<lparr>lk_parent = Some 5, lk_next = 15, lk_prev = 15\<rparr>,
     16 \<mapsto> \<lparr>lk_parent = Some 6, lk_next = 16, lk_prev = 16\<rparr>]"

definition demo_list :: "addr \<Rightarrow> nat \<Rightarrow> intrusive_list" where
  "demo_list s n = \<lparr>il_head = s, il_size = of_nat n\<rparr>"

lemmas demo_defs = demo_nl_def demo_heap_def demo_list_def ilist_def ring_def Nx_def Pv_def Pa_def
  footprint_def item_ready_def

lemma demo_ilist:
  "ilist demo_nl (demo_heap, demo_list 1 2) [1, 3]" "ilist demo_nl (demo_heap, demo_list 2 1) [2]"
  "ilist demo_nl (demo_heap, demo_list 4 0) []"
  by (simp_all add: demo_defs)

lemma demo_ready: "item_ready demo_nl demo_heap 5" "item_ready demo_nl demo_heap 6"
  by (simp_all add: demo_defs)

lemma demo_separate:
  "footprint demo_nl (demo_list 1 2) [1, 3] \<inter> footprint demo_nl (demo_list 2 1) [2] = {}"
  "il_head (demo_list 4 0) \<notin> footprint demo_nl (demo_list 1 2) [1, 3]" "20 \<notin> dom demo_heap"
  by (simp_all add: demo_defs)

section \<open>Properties\<close>

text \<open>
  C7. \<^verbatim>\<open>intrusive_list\<close> used with \<^verbatim>\<open>push_back\<close>, \<^verbatim>\<open>front\<close> and \<^verbatim>\<open>pop_front\<close> is a queue:
  the items pushed onto an empty list come out in the order they went in, no operation
  faults, and the list is empty and well-formed again afterwards.
\<close>

theorem intrusive_list_fifo:
  assumes "ilist nl s []" "distinct ys" "\<forall>y \<in> set ys. item_ready nl (fst s) y"
  shows "\<exists>s1 s2. push_all (push_back nl) ys s = Some s1 \<and>
    take_front front_ptr (pop_front default_list_deleter) (length ys) s1 = Some (ys, s2) \<and> ilist nl s2 []"
  by (rule ilq.fifo_order [OF assms])

theorem intrusive_list_fifo_witness:
  "ilist demo_nl (demo_heap, demo_list 4 0) [] \<and> (\<exists>s1 s2.
    push_all (push_back demo_nl) [6, 5] (demo_heap, demo_list 4 0) = Some s1 \<and>
    take_front front_ptr (pop_front default_list_deleter) 2 s1 = Some ([6, 5], s2) \<and> ilist demo_nl s2 [])"
  using intrusive_list_fifo [of demo_nl "(demo_heap, demo_list 4 0)" "[6, 5]"] demo_ilist(3) demo_ready
  by (simp add: numeral_2_eq_2)

text \<open>
  C8. Removing an item by reference, from any position and with any of the two deleters,
  takes exactly that item out of the sequence, decrements the size, and changes no link
  outside the list.
\<close>

theorem intrusive_list_remove_any:
  assumes "ilist nl (h, l) (us @ x # vs)" "del = default_list_deleter \<or> del = operator_delete_list_deleter nl"
  shows "\<exists>h' l'. il_remove nl del x (h, l) = Some (h', l') \<and> ilist nl (h', l') (us @ vs) \<and>
    il_head l' = il_head l \<and> (\<forall>a. a \<notin> footprint nl l (us @ x # vs) \<longrightarrow> h' a = h a)"
  using dfl.il_remove_ilist [OF assms(1)] opdel.il_remove_ilist [OF assms(1)] assms(2) by auto

theorem intrusive_list_remove_any_witness:
  "ilist demo_nl (demo_heap, demo_list 1 2) [1, 3] \<and> (\<exists>h' l'.
    il_remove demo_nl default_list_deleter 1 (demo_heap, demo_list 1 2) = Some (h', l') \<and> ilist demo_nl (h', l') [3])"
  using intrusive_list_remove_any [of demo_nl demo_heap "demo_list 1 2" "[]" 1 "[3]" default_list_deleter]
    demo_ilist(1) by auto



text \<open>
  C17. The linear-time \<^verbatim>\<open>size_slow\<close> ends and agrees with the maintained \<^verbatim>\<open>size_\<close>: both are the
  number of items modulo \<open>2 ^ 64\<close>.
\<close>

theorem intrusive_list_size_slow:
  assumes "ilist nl (h, l) xs"
  shows "do_size_slow (h, l) = Some (il_size l) \<and> il_size l = of_nat (length xs)"
  using do_size_slow_ilist [OF assms] ilistD(4) [OF assms] by simp

theorem intrusive_list_size_slow_witness:
  "ilist demo_nl (demo_heap, demo_list 1 2) [1, 3] \<and> do_size_slow (demo_heap, demo_list 1 2) = Some 2"
  using intrusive_list_size_slow [OF demo_ilist(1)] demo_ilist(1) by simp



text \<open>
  C18. \<^verbatim>\<open>swap\<close> exchanges the contents of two separate lists when the argument has items,
  and \<^verbatim>\<open>splice\<close> puts all items of the argument in front of the list and empties it.
\<close>

theorem intrusive_list_swap_splice:
  assumes "ilist nl (h, l) xs" "ilist nl (h, m) ys" "ys \<noteq> []" "footprint nl l xs \<inter> footprint nl m ys = {}"
  shows "(\<exists>h' l' m'. il_swap l m h = Some (h', l', m') \<and> ilist nl (h', l') ys \<and> ilist nl (h', m') xs) \<and>
    (\<exists>h' l' m'. il_splice l m h = Some (h', l', m') \<and> ilist nl (h', l') (ys @ xs) \<and> ilist nl (h', m') [])"
  using il_swap_ilist [OF assms] il_splice_ilist [OF assms(1,2,4)] by blast

theorem intrusive_list_swap_splice_witness:
  "ilist demo_nl (demo_heap, demo_list 1 2) [1, 3] \<and> ilist demo_nl (demo_heap, demo_list 2 1) [2] \<and>
    (\<exists>h' l' m'. il_swap (demo_list 1 2) (demo_list 2 1) demo_heap = Some (h', l', m') \<and>
      ilist demo_nl (h', l') [2] \<and> ilist demo_nl (h', m') [1, 3]) \<and>
    (\<exists>h' l' m'. il_splice (demo_list 1 2) (demo_list 2 1) demo_heap = Some (h', l', m') \<and>
      ilist demo_nl (h', l') [2, 1, 3] \<and> ilist demo_nl (h', m') [])"
  using intrusive_list_swap_splice [OF demo_ilist(1,2) _ demo_separate(1)] demo_ilist(1,2) by simp

text \<open>
  C30. \<^verbatim>\<open>swap\<close> with an empty argument does not exchange the lists: the sentinel of the list
  itself ends up as the first link of the argument's ring, in front of the items it lost,
  while both size fields are exchanged as if it had worked.
\<close>

theorem intrusive_list_swap_with_empty:
  assumes "ilist nl (h, l) xs" "ilist nl (h, m) []" "il_head m \<notin> footprint nl l xs"
  shows "\<exists>h' l' m'. il_swap l m h = Some (h', l', m') \<and> ring h' (il_head m') (il_head l' # map nl xs) \<and>
    il_size l' = 0 \<and> il_size m' = of_nat (length xs)"
  using list_swap_empty [of h "il_head l" "map nl xs" "il_head m"] assms
  by (auto simp: ilist_def footprint_def il_swap_def)

theorem intrusive_list_swap_with_empty_witness:
  "ilist demo_nl (demo_heap, demo_list 4 0) [] \<and> (\<exists>h' l' m'.
    il_swap (demo_list 1 2) (demo_list 4 0) demo_heap = Some (h', l', m') \<and>
    ring h' (il_head m') [il_head l', 11, 13] \<and> il_size l' = 0 \<and> il_size m' = 2)"
  using intrusive_list_swap_with_empty [OF demo_ilist(1,3) demo_separate(2)] demo_ilist(3)
  by (simp add: demo_nl_def)

end
