(* ===== verification/Avl_Tree.thy ===== *)
theory Avl_Tree
  imports Kernel_Prelude "HOL-Library.Multiset"
begin

text \<open>
  The balanced map \<^verbatim>\<open>AVLTree<TKey, TData>\<close> of
  \<^verbatim>\<open>kern/libs/kbl/include/kbl/data/avl_tree.hpp\<close>. Nodes are owned by their parent, so the
  structure is a tree; a step through a null pointer is \<open>None\<close>. Every function of the class
  is a definition; the lemmas show that insertion and removal never fault, keep the tree
  balanced and ordered, and what they do to the sequence of entries.
\<close>

section \<open>Nodes and rotations\<close>

datatype (plugins del: quickcheck_random quickcheck_exhaustive quickcheck_narrowing)
  ('k, 'd) avl_node = Nullptr | Node 'k 'd nat "('k, 'd) avl_node" "('k, 'd) avl_node"

fun subtree_height :: "('k, 'd) avl_node \<Rightarrow> nat" where
  "subtree_height Nullptr = 0"
| "subtree_height (Node k d h l r) = h"

definition new_node :: "'k \<Rightarrow> 'd \<Rightarrow> ('k, 'd) avl_node" where
  "new_node k d = Node k d 1 Nullptr Nullptr"

text \<open>\<open>update_height\<close> is the assignment \<^verbatim>\<open>n->height = max(...) + 1\<close> the operations share.\<close>

fun update_height :: "('k, 'd) avl_node \<Rightarrow> ('k, 'd) avl_node" where
  "update_height Nullptr = Nullptr"
| "update_height (Node k d h l r) = Node k d (max (subtree_height l) (subtree_height r) + 1) l r"

fun right_rotate :: "('k, 'd) avl_node \<Rightarrow> ('k, 'd) avl_node option" where
  "right_rotate (Node ky dy hy (Node kx dx hx xl t2) yr) =
     Some (update_height (Node kx dx hx xl (update_height (Node ky dy hy t2 yr))))"
| "right_rotate _ = None"

fun left_rotate :: "('k, 'd) avl_node \<Rightarrow> ('k, 'd) avl_node option" where
  "left_rotate (Node kx dx hx xl (Node ky dy hy t2 yr)) =
     Some (update_height (Node ky dy hy (update_height (Node kx dx hx xl t2)) yr))"
| "left_rotate _ = None"

fun balance_factor :: "('k, 'd) avl_node \<Rightarrow> int" where
  "balance_factor Nullptr = 0"
| "balance_factor (Node k d h l r) = int (subtree_height l) - int (subtree_height r)"

fun min_node :: "('k, 'd) avl_node \<Rightarrow> ('k \<times> 'd) option" where
  "min_node Nullptr = None"
| "min_node (Node k d h Nullptr r) = Some (k, d)"
| "min_node (Node k d h (Node k' d' h' l' r') r) = min_node (Node k' d' h' l' r')"

section \<open>Insertion\<close>

fun key_below :: "'k::linorder \<Rightarrow> ('k, 'd) avl_node \<Rightarrow> bool" where
  "key_below key Nullptr \<longleftrightarrow> False"
| "key_below key (Node k d h l r) \<longleftrightarrow> key < k"

fun key_above :: "'k::linorder \<Rightarrow> ('k, 'd) avl_node \<Rightarrow> bool" where
  "key_above key Nullptr \<longleftrightarrow> False"
| "key_above key (Node k d h l r) \<longleftrightarrow> key > k"

text \<open>The tail of \<^verbatim>\<open>insert\<close>: the new height and the four rotation cases, by the inserted key.\<close>

fun insert_fixup :: "'k::linorder \<Rightarrow> ('k, 'd) avl_node \<Rightarrow> ('k, 'd) avl_node option" where
  "insert_fixup key Nullptr = None"
| "insert_fixup key (Node k d h0 l r) =
     (let h = max (subtree_height l) (subtree_height r) + 1;
          factor = balance_factor (Node k d h l r)
      in if factor > 1 \<and> key_below key l then right_rotate (Node k d h l r)
         else if factor < -1 \<and> key_above key r then left_rotate (Node k d h l r)
         else if factor > 1 \<and> key_above key l then do {
           l' \<leftarrow> left_rotate l;
           right_rotate (Node k d h l' r)
         }
         else if factor < -1 \<and> key_below key r then do {
           r' \<leftarrow> right_rotate r;
           left_rotate (Node k d h l r')
         }
         else Some (Node k d h l r))"

fun avl_insert :: "('k::linorder, 'd) avl_node \<Rightarrow> 'k \<Rightarrow> 'd \<Rightarrow> u64 \<Rightarrow> (('k, 'd) avl_node \<times> u64) option" where
  "avl_insert Nullptr key data m_size = Some (new_node key data, m_size + 1)"
| "avl_insert (Node k d h l r) key data m_size =
     (if key < k then do {
        (l', m_size) \<leftarrow> avl_insert l key data m_size;
        t \<leftarrow> insert_fixup key (Node k d h l' r);
        Some (t, m_size)
      }
      else if key > k then do {
        (r', m_size) \<leftarrow> avl_insert r key data m_size;
        t \<leftarrow> insert_fixup key (Node k d h l r');
        Some (t, m_size)
      }
      else Some (Node k d h l r, m_size))"

section \<open>Removal\<close>

text \<open>The tail of \<^verbatim>\<open>remove\<close>: the new height and the four rotation cases, by balance factors.\<close>

fun remove_fixup :: "('k, 'd) avl_node \<Rightarrow> ('k, 'd) avl_node option" where
  "remove_fixup Nullptr = Some Nullptr"
| "remove_fixup (Node k d h0 l r) =
     (let h = max (subtree_height l) (subtree_height r) + 1;
          factor = balance_factor (Node k d h l r)
      in if factor > 1 \<and> balance_factor l \<ge> 0 then right_rotate (Node k d h l r)
         else if factor > 1 \<and> balance_factor l < 0 then do {
           l' \<leftarrow> left_rotate l;
           right_rotate (Node k d h l' r)
         }
         else if factor < -1 \<and> balance_factor r \<le> 0 then left_rotate (Node k d h l r)
         else if factor < -1 \<and> balance_factor r > 0 then do {
           r' \<leftarrow> right_rotate r;
           left_rotate (Node k d h l r')
         }
         else Some (Node k d h l r))"

fun avl_remove :: "('k::linorder, 'd) avl_node \<Rightarrow> 'k \<Rightarrow> u64 \<Rightarrow> (('k, 'd) avl_node \<times> u64) option" where
  "avl_remove Nullptr key m_size = Some (Nullptr, m_size)"
| "avl_remove (Node k d h l r) key m_size =
     (if key < k then do {
        (l', m_size) \<leftarrow> avl_remove l key m_size;
        t \<leftarrow> remove_fixup (Node k d h l' r);
        Some (t, m_size)
      }
      else if key > k then do {
        (r', m_size) \<leftarrow> avl_remove r key m_size;
        t \<leftarrow> remove_fixup (Node k d h l r');
        Some (t, m_size)
      }
      else if l = Nullptr \<or> r = Nullptr then do {
        let victim = (if l \<noteq> Nullptr then l else r);
        t \<leftarrow> remove_fixup victim;
        Some (t, m_size - 1)
      }
      else do {
        (vk, vd) \<leftarrow> min_node r;
        (r', m_size) \<leftarrow> avl_remove r vk m_size;
        t \<leftarrow> remove_fixup (Node vk d h l r');
        Some (t, m_size)
      })"

section \<open>Lookup, clearing and the public interface\<close>

fun avl_find :: "('k::linorder, 'd) avl_node \<Rightarrow> 'k \<Rightarrow> 'd option" where
  "avl_find Nullptr key = None"
| "avl_find (Node k d h l r) key =
     (if key > k then avl_find r key else if key < k then avl_find l key else Some d)"

text \<open>\<^verbatim>\<open>clear(node*)\<close>: the keys of the deleted nodes, in the order of the deletes.\<close>

fun clear_node :: "('k, 'd) avl_node \<Rightarrow> 'k list option" where
  "clear_node Nullptr = None"
| "clear_node (Node k d h l r) = do {
     xs \<leftarrow> (if l \<noteq> Nullptr then clear_node l else Some []);
     ys \<leftarrow> (if r \<noteq> Nullptr then clear_node r else Some []);
     Some (xs @ ys @ [k])
   }"

record ('k, 'd) avl_tree =
  avl_root :: "('k, 'd) avl_node"
  m_size :: u64

definition avl_new :: "('k, 'd) avl_tree" where
  "avl_new = \<lparr>avl_root = Nullptr, m_size = 0\<rparr>"

definition tree_insert :: "'k::linorder \<Rightarrow> 'd \<Rightarrow> ('k, 'd) avl_tree \<Rightarrow> ('k, 'd) avl_tree option" where
  "tree_insert key data t = do {
     (n, sz) \<leftarrow> avl_insert (avl_root t) key data (m_size t);
     Some \<lparr>avl_root = n, m_size = sz\<rparr>
   }"

definition tree_clear :: "('k, 'd) avl_tree \<Rightarrow> ('k, 'd) avl_tree option" where
  "tree_clear t = do {
     _ \<leftarrow> clear_node (avl_root t);
     Some \<lparr>avl_root = Nullptr, m_size = 0\<rparr>
   }"

definition tree_remove :: "'k::linorder \<Rightarrow> ('k, 'd) avl_tree \<Rightarrow> ('k, 'd) avl_tree option" where
  "tree_remove key t = do {
     (n, sz) \<leftarrow> avl_remove (avl_root t) key (m_size t);
     Some \<lparr>avl_root = n, m_size = sz\<rparr>
   }"

text \<open>
  \<^verbatim>\<open>find(key)\<close> and \<^verbatim>\<open>operator[]\<close> insert the value \<open>dflt\<close> (\<^verbatim>\<open>TData{}\<close>) for a missing key.
\<close>

definition tree_find :: "'d \<Rightarrow> 'k::linorder \<Rightarrow> ('k, 'd) avl_tree \<Rightarrow> ('d \<times> ('k, 'd) avl_tree) option" where
  "tree_find dflt key t = (case avl_find (avl_root t) key of
     Some d \<Rightarrow> Some (d, t)
   | None \<Rightarrow> do {
       t \<leftarrow> tree_insert key dflt t;
       d \<leftarrow> avl_find (avl_root t) key;
       Some (d, t)
     })"

text \<open>A client that fills a map: pairs are inserted one after the other.\<close>

fun insert_all :: "('k \<Rightarrow> 'd \<Rightarrow> 't \<Rightarrow> 't option) \<Rightarrow> ('k \<times> 'd) list \<Rightarrow> 't \<Rightarrow> 't option" where
  "insert_all ins [] t = Some t"
| "insert_all ins (p # ps) t = do { t \<leftarrow> ins (fst p) (snd p) t; insert_all ins ps t }"

section \<open>Invariants\<close>

fun avl :: "('k, 'd) avl_node \<Rightarrow> bool" where
  "avl Nullptr \<longleftrightarrow> True"
| "avl (Node k d h l r) \<longleftrightarrow> avl l \<and> avl r \<and> h = max (subtree_height l) (subtree_height r) + 1 \<and>
     subtree_height l \<le> subtree_height r + 1 \<and> subtree_height r \<le> subtree_height l + 1"

fun inorder :: "('k, 'd) avl_node \<Rightarrow> ('k \<times> 'd) list" where
  "inorder Nullptr = []"
| "inorder (Node k d h l r) = inorder l @ (k, d) # inorder r"

definition keys :: "('k, 'd) avl_node \<Rightarrow> 'k list" where
  "keys t = map fst (inorder t)"

abbreviation ordered :: "('k::linorder, 'd) avl_node \<Rightarrow> bool" where
  "ordered t \<equiv> sorted_wrt (<) (keys t)"

lemma keys_simps [simp]:
  "keys Nullptr = []" "keys (Node k d h l r) = keys l @ k # keys r"
  by (simp_all add: keys_def)

lemma subtree_height_0 [simp]: "avl t \<Longrightarrow> subtree_height t = 0 \<longleftrightarrow> t = Nullptr"
  by (cases t) auto

section \<open>Insertion keeps the invariants\<close>

text \<open>
  How a subtree can grow by an insertion: it was empty, or its higher side is the one the
  key went to. The rotation cases of the parent rely on this.
\<close>

fun grown :: "'k::linorder \<Rightarrow> ('k, 'd) avl_node \<Rightarrow> ('k, 'd) avl_node \<Rightarrow> bool" where
  "grown key t Nullptr \<longleftrightarrow> False"
| "grown key t (Node k d h l r) \<longleftrightarrow> t = Nullptr \<and> k = key \<or>
     key < k \<and> subtree_height l = subtree_height r + 1 \<or> key > k \<and> subtree_height r = subtree_height l + 1"

text \<open>
  The rotations of both fix-ups: a subtree that is two higher than its sibling is rotated
  once when its outer side is the higher one (or both are equal), twice otherwise.
\<close>

lemma right_rotate_outer:
  assumes "avl l" "avl r" "l = Node k1 d1 h1 l1 r1" "subtree_height l = subtree_height r + 2"
    and "subtree_height r1 \<le> subtree_height l1"
  shows "\<exists>t. right_rotate (Node k d h l r) = Some t \<and> avl t \<and>
    subtree_height t = (if subtree_height r1 = subtree_height l1 then subtree_height l + 1 else subtree_height l) \<and>
    inorder t = inorder l @ (k, d) # inorder r"
  using assms by (auto simp: max_def split: if_splits)

lemma left_rotate_outer:
  assumes "avl l" "avl r" "r = Node k1 d1 h1 l1 r1" "subtree_height r = subtree_height l + 2"
    and "subtree_height l1 \<le> subtree_height r1"
  shows "\<exists>t. left_rotate (Node k d h l r) = Some t \<and> avl t \<and>
    subtree_height t = (if subtree_height r1 = subtree_height l1 then subtree_height r + 1 else subtree_height r) \<and>
    inorder t = inorder l @ (k, d) # inorder r"
  using assms by (auto simp: max_def split: if_splits)

lemma left_right_rotate:
  assumes "avl l" "avl r" "l = Node k1 d1 h1 l1 r1" "subtree_height l = subtree_height r + 2"
    and "subtree_height r1 = subtree_height l1 + 1"
  shows "\<exists>t. left_rotate l \<bind> (\<lambda>l'. right_rotate (Node k d h l' r)) = Some t \<and> avl t \<and>
    subtree_height t = subtree_height l \<and> inorder t = inorder l @ (k, d) # inorder r"
proof -
  obtain k2 d2 h2 l2 r2 where "r1 = Node k2 d2 h2 l2 r2" using assms(5) by (cases r1) auto
  then show ?thesis using assms by (auto simp: max_def split: if_splits)
qed

lemma right_left_rotate:
  assumes "avl l" "avl r" "r = Node k1 d1 h1 l1 r1" "subtree_height r = subtree_height l + 2"
    and "subtree_height l1 = subtree_height r1 + 1"
  shows "\<exists>t. right_rotate r \<bind> (\<lambda>r'. left_rotate (Node k d h l r')) = Some t \<and> avl t \<and>
    subtree_height t = subtree_height r \<and> inorder t = inorder l @ (k, d) # inorder r"
proof -
  obtain k2 d2 h2 l2 r2 where "l1 = Node k2 d2 h2 l2 r2" using assms(5) by (cases l1) auto
  then show ?thesis using assms by (auto simp: max_def split: if_splits)
qed

lemma insert_fixup_balanced:
  "avl l \<Longrightarrow> avl r \<Longrightarrow> subtree_height l \<le> subtree_height r + 1 \<Longrightarrow> subtree_height r \<le> subtree_height l + 1 \<Longrightarrow>
   insert_fixup key (Node k d h l r) = Some (update_height (Node k d h l r)) \<and> avl (update_height (Node k d h l r))"
  by (auto simp: Let_def)

lemma insert_fixup_left:
  assumes "avl l'" "avl r" "subtree_height l' = subtree_height r + 2" "grown key l l'" "l \<noteq> Nullptr"
  shows "\<exists>t. insert_fixup key (Node k d h l' r) = Some t \<and> avl t \<and>
    subtree_height t = subtree_height l' \<and> inorder t = inorder l' @ (k, d) # inorder r"
proof -
  obtain k1 d1 h1 l1 r1 where l': "l' = Node k1 d1 h1 l1 r1" using assms(4) by (cases l') auto
  define h' where "h' = max (subtree_height l') (subtree_height r) + 1"
  show ?thesis
  proof (cases "key < k1")
    case True
    then have "insert_fixup key (Node k d h l' r) = right_rotate (Node k d h' l' r)"
      using l' assms(3) by (simp add: Let_def h'_def del: right_rotate.simps)
    moreover have "subtree_height l1 = subtree_height r1 + 1" using True assms(4,5) l' by auto
    ultimately show ?thesis using right_rotate_outer [OF assms(1,2) l' assms(3), of k d h'] by simp
  next
    case False
    then have "insert_fixup key (Node k d h l' r) = left_rotate l' \<bind> (\<lambda>l'. right_rotate (Node k d h' l' r))"
      using l' assms(3-5) by (auto simp add: Let_def h'_def simp del: right_rotate.simps left_rotate.simps)
    moreover have "subtree_height r1 = subtree_height l1 + 1" using False assms(4,5) l' by auto
    ultimately show ?thesis using left_right_rotate [OF assms(1,2) l' assms(3), of k d h'] by simp
  qed
qed

lemma insert_fixup_right:
  assumes "avl l" "avl r'" "subtree_height r' = subtree_height l + 2" "grown key r r'" "r \<noteq> Nullptr"
  shows "\<exists>t. insert_fixup key (Node k d h l r') = Some t \<and> avl t \<and>
    subtree_height t = subtree_height r' \<and> inorder t = inorder l @ (k, d) # inorder r'"
proof -
  obtain k1 d1 h1 l1 r1 where r': "r' = Node k1 d1 h1 l1 r1" using assms(4) by (cases r') auto
  define h' where "h' = max (subtree_height l) (subtree_height r') + 1"
  show ?thesis
  proof (cases "key < k1")
    case True
    then have "insert_fixup key (Node k d h l r') = right_rotate r' \<bind> (\<lambda>r'. left_rotate (Node k d h' l r'))"
      using r' assms(3-5) by (auto simp add: Let_def h'_def simp del: right_rotate.simps left_rotate.simps)
    moreover have "subtree_height l1 = subtree_height r1 + 1" using True assms(4,5) r' by auto
    ultimately show ?thesis using right_left_rotate [OF assms(1,2) r' assms(3), of k d h'] by simp
  next
    case False
    then have "insert_fixup key (Node k d h l r') = left_rotate (Node k d h' l r')"
      using r' assms(3-5) by (auto simp add: Let_def h'_def simp del: right_rotate.simps left_rotate.simps)
    moreover have "subtree_height r1 = subtree_height l1 + 1" using False assms(4,5) r' by auto
    ultimately show ?thesis using left_rotate_outer [OF assms(1,2) r' assms(3), of k d h'] by simp
  qed
qed

declare insert_fixup.simps [simp del]

definition grows :: "'k::linorder \<Rightarrow> ('k, 'd) avl_node \<Rightarrow> ('k, 'd) avl_node \<Rightarrow> bool" where
  "grows key t t' \<longleftrightarrow> subtree_height t' = subtree_height t \<or>
     subtree_height t' = subtree_height t + 1 \<and> grown key t t'"

lemma insert_fixup_after_left:
  assumes "avl (Node k d h l r)" "avl l'" "grows key l l'" "key < k"
  shows "\<exists>t. insert_fixup key (Node k d h l' r) = Some t \<and> avl t \<and> grows key (Node k d h l r) t \<and>
    inorder t = inorder l' @ (k, d) # inorder r"
proof (cases "subtree_height l' = subtree_height r + 2")
  case True
  then have g: "l \<noteq> Nullptr" "grown key l l'" "h = subtree_height l'" using assms by (auto simp: grows_def)
  obtain t where "insert_fixup key (Node k d h l' r) = Some t" "avl t" "subtree_height t = subtree_height l'"
      "inorder t = inorder l' @ (k, d) # inorder r"
    using insert_fixup_left [OF assms(2) _ True g(2,1), of k d h] assms(1) by auto
  then show ?thesis using g by (simp add: grows_def)
next
  case False
  then have b: "subtree_height l' \<le> subtree_height r + 1" "subtree_height r \<le> subtree_height l' + 1"
    using assms by (auto simp: grows_def)
  show ?thesis
    using insert_fixup_balanced [OF assms(2) _ b, of key k d h] assms by (auto simp: grows_def max_def)
qed

lemma insert_fixup_after_right:
  assumes "avl (Node k d h l r)" "avl r'" "grows key r r'" "key > k"
  shows "\<exists>t. insert_fixup key (Node k d h l r') = Some t \<and> avl t \<and> grows key (Node k d h l r) t \<and>
    inorder t = inorder l @ (k, d) # inorder r'"
proof (cases "subtree_height r' = subtree_height l + 2")
  case True
  then have g: "r \<noteq> Nullptr" "grown key r r'" "h = subtree_height r'" using assms by (auto simp: grows_def)
  obtain t where "insert_fixup key (Node k d h l r') = Some t" "avl t" "subtree_height t = subtree_height r'"
      "inorder t = inorder l @ (k, d) # inorder r'"
    using insert_fixup_right [OF _ assms(2) True g(2,1), of k d h] assms(1) by auto
  then show ?thesis using g by (simp add: grows_def)
next
  case False
  then have b: "subtree_height l \<le> subtree_height r' + 1" "subtree_height r' \<le> subtree_height l + 1"
    using assms by (auto simp: grows_def)
  show ?thesis
    using insert_fixup_balanced [OF _ assms(2) b, of key k d h] assms by (auto simp: grows_def max_def)
qed

text \<open>What insertion does to the sequence of entries: a present key keeps its data.\<close>

fun ins_entry :: "'k::linorder \<Rightarrow> 'd \<Rightarrow> ('k \<times> 'd) list \<Rightarrow> ('k \<times> 'd) list" where
  "ins_entry key data [] = [(key, data)]"
| "ins_entry key data ((k, d) # ps) =
     (if key < k then (key, data) # (k, d) # ps
      else if key > k then (k, d) # ins_entry key data ps else (k, d) # ps)"

lemma ins_entry_append:
  "sorted_wrt (<) (map fst ps @ k # map fst qs) \<Longrightarrow>
   ins_entry key data (ps @ (k, d) # qs) =
     (if key < k then ins_entry key data ps @ (k, d) # qs
      else if key > k then ps @ (k, d) # ins_entry key data qs else ps @ (k, d) # qs)"
  by (induction ps) auto

lemma ins_entry_keys: "set (map fst (ins_entry key data ps)) = insert key (set (map fst ps))"
  by (induction key data ps rule: ins_entry.induct) auto

lemma ins_entry_sorted: "sorted_wrt (<) (map fst ps) \<Longrightarrow> sorted_wrt (<) (map fst (ins_entry key data ps))"
proof (induction key data ps rule: ins_entry.induct)
  case (2 key data k d ps)
  then show ?case using ins_entry_keys [of key data ps] by (auto simp del: set_map)
qed simp

lemma map_of_ins_entry:
  "sorted_wrt (<) (map fst ps) \<Longrightarrow>
   map_of (ins_entry key data ps) = (if key \<in> set (map fst ps) then map_of ps else (map_of ps)(key \<mapsto> data))"
  by (induction key data ps rule: ins_entry.induct) (auto simp: fun_eq_iff)

lemma length_ins_entry:
  "sorted_wrt (<) (map fst ps) \<Longrightarrow>
   length (ins_entry key data ps) = (if key \<in> set (map fst ps) then length ps else length ps + 1)"
  by (induction key data ps rule: ins_entry.induct) auto

text \<open>Insertion never faults, keeps the balance, and works as \<open>ins_entry\<close> on the entries.\<close>

lemma avl_insert_ok:
  assumes "avl t" "ordered t"
  shows "\<exists>t' sz'. avl_insert t key data sz = Some (t', sz') \<and> avl t' \<and> grows key t t' \<and>
    inorder t' = ins_entry key data (inorder t) \<and> sz' = (if key \<in> set (keys t) then sz else sz + 1)"
  using assms
proof (induction t)
  case Nullptr
  then show ?case by (auto simp: new_node_def grows_def)
next
  case (Node k d h l r)
  have ord: "sorted_wrt (<) (map fst (inorder l) @ k # map fst (inorder r))"
    using Node.prems(2) by (simp add: keys_def)
  have sub: "avl l" "avl r" "ordered l" "ordered r" using Node.prems by (auto simp: sorted_wrt_append)
  consider "key < k" | "key > k" | "key = k" by fastforce
  then show ?case
  proof cases
    case 1
    have "key \<notin> set (keys r)" "key \<noteq> k" using 1 Node.prems(2) by (auto simp: sorted_wrt_append)
    moreover obtain l' sz' where l': "avl_insert l key data sz = Some (l', sz')" "avl l'" "grows key l l'"
        "inorder l' = ins_entry key data (inorder l)" "sz' = (if key \<in> set (keys l) then sz else sz + 1)"
      using Node.IH(1) sub by auto
    ultimately show ?thesis
      using insert_fixup_after_left [OF Node.prems(1) l'(2,3) 1] 1 ins_entry_append [OF ord, of key data d] by auto
  next
    case 2
    have "key \<notin> set (keys l)" "key \<noteq> k" using 2 Node.prems(2) by (auto simp: sorted_wrt_append)
    moreover obtain r' sz' where r': "avl_insert r key data sz = Some (r', sz')" "avl r'" "grows key r r'"
        "inorder r' = ins_entry key data (inorder r)" "sz' = (if key \<in> set (keys r) then sz else sz + 1)"
      using Node.IH(2) sub by auto
    ultimately show ?thesis
      using insert_fixup_after_right [OF Node.prems(1) r'(2,3) 2] 2 ins_entry_append [OF ord, of key data d] by auto
  next
    case 3
    then show ?thesis using Node.prems ins_entry_append [OF ord, of key data d] by (auto simp: grows_def)
  qed
qed

section \<open>Removal keeps the balance and removes the key\<close>

text \<open>\<open>shrinks\<close>: the height stays or drops by one.\<close>

definition shrinks :: "('k, 'd) avl_node \<Rightarrow> ('k, 'd) avl_node \<Rightarrow> bool" where
  "shrinks t t' \<longleftrightarrow> subtree_height t = subtree_height t' \<or> subtree_height t = subtree_height t' + 1"

lemma remove_fixup_balanced:
  "avl l \<Longrightarrow> avl r \<Longrightarrow> subtree_height l \<le> subtree_height r + 1 \<Longrightarrow> subtree_height r \<le> subtree_height l + 1 \<Longrightarrow>
   remove_fixup (Node k d h l r) = Some (update_height (Node k d h l r)) \<and> avl (update_height (Node k d h l r))"
  by (auto simp: Let_def)

lemma remove_fixup_avl: "avl t \<Longrightarrow> remove_fixup t = Some t"
  by (cases t) (auto simp: Let_def)

lemma remove_fixup_left:
  assumes "avl l" "avl r" "subtree_height l = subtree_height r + 2"
  shows "\<exists>t. remove_fixup (Node k d h l r) = Some t \<and> avl t \<and>
    (subtree_height t = subtree_height l \<or> subtree_height t = subtree_height l + 1) \<and>
    inorder t = inorder l @ (k, d) # inorder r"
proof -
  obtain k1 d1 h1 l1 r1 where l: "l = Node k1 d1 h1 l1 r1" using assms(3) by (cases l) auto
  define h' where "h' = max (subtree_height l) (subtree_height r) + 1"
  show ?thesis
  proof (cases "subtree_height r1 \<le> subtree_height l1")
    case True
    then have "remove_fixup (Node k d h l r) = right_rotate (Node k d h' l r)"
      using l assms(3) by (simp add: Let_def h'_def del: right_rotate.simps)
    then show ?thesis using right_rotate_outer [OF assms(1,2) l assms(3) True, of k d h'] by auto
  next
    case False
    then have "remove_fixup (Node k d h l r) = left_rotate l \<bind> (\<lambda>l'. right_rotate (Node k d h' l' r))"
      using l assms(3) by (auto simp add: Let_def h'_def simp del: right_rotate.simps left_rotate.simps)
    moreover have "subtree_height r1 = subtree_height l1 + 1" using False assms(1) l by auto
    ultimately show ?thesis using left_right_rotate [OF assms(1,2) l assms(3), of k d h'] by auto
  qed
qed

lemma remove_fixup_right:
  assumes "avl l" "avl r" "subtree_height r = subtree_height l + 2"
  shows "\<exists>t. remove_fixup (Node k d h l r) = Some t \<and> avl t \<and>
    (subtree_height t = subtree_height r \<or> subtree_height t = subtree_height r + 1) \<and>
    inorder t = inorder l @ (k, d) # inorder r"
proof -
  obtain k1 d1 h1 l1 r1 where r: "r = Node k1 d1 h1 l1 r1" using assms(3) by (cases r) auto
  define h' where "h' = max (subtree_height l) (subtree_height r) + 1"
  show ?thesis
  proof (cases "subtree_height l1 \<le> subtree_height r1")
    case True
    then have "remove_fixup (Node k d h l r) = left_rotate (Node k d h' l r)"
      using r assms(3) by (simp add: Let_def h'_def del: right_rotate.simps left_rotate.simps)
    then show ?thesis using left_rotate_outer [OF assms(1,2) r assms(3) True, of k d h'] by auto
  next
    case False
    then have "remove_fixup (Node k d h l r) = right_rotate r \<bind> (\<lambda>r'. left_rotate (Node k d h' l r'))"
      using r assms(3) by (auto simp add: Let_def h'_def simp del: right_rotate.simps left_rotate.simps)
    moreover have "subtree_height l1 = subtree_height r1 + 1" using False assms(2) r by auto
    ultimately show ?thesis using right_left_rotate [OF assms(1,2) r assms(3), of k d h'] by auto
  qed
qed

declare remove_fixup.simps [simp del]

lemma remove_fixup_after_left:
  assumes "avl (Node k d h l r)" "avl l'" "shrinks l l'"
  shows "\<exists>t. remove_fixup (Node k d h l' r) = Some t \<and> avl t \<and> shrinks (Node k d h l r) t \<and>
    inorder t = inorder l' @ (k, d) # inorder r"
proof (cases "subtree_height r = subtree_height l' + 2")
  case True
  then have "h = subtree_height r + 1" using assms by (auto simp: shrinks_def)
  then show ?thesis using remove_fixup_right [OF assms(2) _ True, of k d h] assms(1) by (auto simp: shrinks_def)
next
  case False
  then have b: "subtree_height l' \<le> subtree_height r + 1" "subtree_height r \<le> subtree_height l' + 1"
    using assms by (auto simp: shrinks_def)
  show ?thesis
    using remove_fixup_balanced [OF assms(2) _ b, of k d h] assms by (auto simp: shrinks_def max_def)
qed

lemma remove_fixup_after_right:
  assumes "avl (Node k d h l r)" "avl r'" "shrinks r r'"
  shows "\<exists>t. remove_fixup (Node k' d h l r') = Some t \<and> avl t \<and> shrinks (Node k d h l r) t \<and>
    inorder t = inorder l @ (k', d) # inorder r'"
proof (cases "subtree_height l = subtree_height r' + 2")
  case True
  then have "h = subtree_height l + 1" using assms by (auto simp: shrinks_def)
  then show ?thesis using remove_fixup_left [OF _ assms(2) True, of k' d h] assms(1) by (auto simp: shrinks_def)
next
  case False
  then have b: "subtree_height l \<le> subtree_height r' + 1" "subtree_height r' \<le> subtree_height l + 1"
    using assms by (auto simp: shrinks_def)
  show ?thesis
    using remove_fixup_balanced [OF _ assms(2) b, of k' d h] assms by (auto simp: shrinks_def max_def)
qed

lemma min_node_hd: "t \<noteq> Nullptr \<Longrightarrow> min_node t = Some (hd (inorder t))"
proof (induction t rule: min_node.induct)
  case (3 k d h k' d' h' l' r' r)
  have "inorder (Node k' d' h' l' r') \<noteq> []" by simp
  then show ?case using 3 by (simp add: hd_append)
qed simp_all

lemma inorder_Nil_iff [simp]: "inorder t = [] \<longleftrightarrow> t = Nullptr"
  by (cases t) auto

lemma removeAll_sorted_hd: "sorted_wrt (<) (x # xs) \<Longrightarrow> removeAll (x::'k::linorder) (x # xs) = xs"
  by (auto intro: removeAll_id)

lemma sorted_removeAll: "sorted_wrt R xs \<Longrightarrow> sorted_wrt R (removeAll k xs)"
  by (simp add: removeAll_filter_not_eq sorted_wrt_filter)

lemma avl_remove_two:
  assumes "avl_remove r (fst (hd (inorder r))) sz = Some (r', sz')" "l \<noteq> Nullptr" "r \<noteq> Nullptr"
    and "avl (Node k d h l r)" "avl r'" "shrinks r r'"
  shows "\<exists>t. avl_remove (Node k d h l r) k sz = Some (t, sz') \<and> avl t \<and> shrinks (Node k d h l r) t \<and>
    inorder t = inorder l @ (fst (hd (inorder r)), d) # inorder r'"
  using remove_fixup_after_right [OF assms(4-6), of "fst (hd (inorder r))"] assms(1-3) min_node_hd [OF assms(3)]
  by (cases "hd (inorder r)") auto

lemma avl_remove_ok:
  assumes "avl t" "ordered t"
  shows "\<exists>t' sz'. avl_remove t key sz = Some (t', sz') \<and> avl t' \<and> shrinks t t' \<and>
    keys t' = removeAll key (keys t) \<and> sz' = (if key \<in> set (keys t) then sz - 1 else sz)"
  using assms
proof (induction t arbitrary: key)
  case Nullptr
  then show ?case by (auto simp: shrinks_def)
next
  case (Node k d h l r)
  have sub: "avl l" "avl r" "ordered l" "ordered r" using Node.prems by (auto simp: sorted_wrt_append)
  have lt: "\<forall>x \<in> set (keys l). x < k" "\<forall>x \<in> set (keys r). k < x" using Node.prems(2) by (auto simp: sorted_wrt_append)
  consider "key < k" | "key > k" | "key = k" by fastforce
  then show ?case
  proof cases
    case 1
    have "key \<notin> set (keys r)" "key \<noteq> k" using 1 lt by auto
    moreover obtain l' sz' where l': "avl_remove l key sz = Some (l', sz')" "avl l'" "shrinks l l'"
        "keys l' = removeAll key (keys l)" "sz' = (if key \<in> set (keys l) then sz - 1 else sz)"
      using Node.IH(1) [of key] sub by auto
    ultimately show ?thesis
      using remove_fixup_after_left [OF Node.prems(1) l'(2,3)] 1 by (auto simp: keys_def)
  next
    case 2
    have "key \<notin> set (keys l)" "key \<noteq> k" using 2 lt by auto
    moreover obtain r' sz' where r': "avl_remove r key sz = Some (r', sz')" "avl r'" "shrinks r r'"
        "keys r' = removeAll key (keys r)" "sz' = (if key \<in> set (keys r) then sz - 1 else sz)"
      using Node.IH(2) [of key] sub by auto
    ultimately show ?thesis
      using remove_fixup_after_right [OF Node.prems(1) r'(2,3), of k] 2 by (auto simp: keys_def)
  next
    case 3
    have k: "removeAll key (keys (Node k d h l r)) = keys l @ keys r"
      using lt 3 by (auto simp: removeAll_append) (metis order_less_irrefl removeAll_id)+
    show ?thesis
    proof (cases "l = Nullptr \<or> r = Nullptr")
      case True
      then show ?thesis using 3 sub k Node.prems(1) remove_fixup_avl [of l] remove_fixup_avl [of r]
        by (auto simp: shrinks_def)
    next
      case False
      define v where "v = fst (hd (inorder r))"
      have v: "keys r = v # tl (keys r)" using False by (cases "inorder r") (auto simp: keys_def v_def)
      obtain r' sz' where r': "avl_remove r v sz = Some (r', sz')" "avl r'" "shrinks r r'"
          "keys r' = removeAll v (keys r)" "sz' = (if v \<in> set (keys r) then sz - 1 else sz)"
        using Node.IH(2) [of v] sub by auto
      obtain t where t: "avl_remove (Node k d h l r) k sz = Some (t, sz')" "avl t"
          "shrinks (Node k d h l r) t" "inorder t = inorder l @ (v, d) # inorder r'"
        using avl_remove_two [of r sz r' sz' l k d h] False Node.prems(1) r' unfolding v_def by blast
      have "removeAll v (keys r) = tl (keys r)"
        using removeAll_sorted_hd [of v "tl (keys r)"] v sub(4) by simp
      then have "keys t = keys l @ v # tl (keys r)" using t(4) r'(4) by (simp add: keys_def)
      moreover have "v \<in> set (keys r)" using v by (metis list.set_intros(1))
      ultimately show ?thesis using t(1-3) r'(5) 3 k v by auto
    qed
  qed
qed

section \<open>Lookup\<close>

lemma avl_find_map_of: "ordered t \<Longrightarrow> avl_find t key = map_of (inorder t) key"
proof (induction t)
  case (Node k d h l r)
  have o: "ordered l" "ordered r" "\<forall>x \<in> set (keys l). x < k" "\<forall>x \<in> set (keys r). k < x"
    using Node.prems by (auto simp: sorted_wrt_append)
  then have n: "map_of (inorder l) key = None" if "\<not> key < k"
    using that by (force simp: map_of_eq_None_iff keys_def)
  moreover have "map_of (inorder r) key = None" if "\<not> key > k"
    using that o(4) by (force simp: map_of_eq_None_iff keys_def)
  ultimately show ?case using Node.IH o(1,2) by (auto simp: map_add_def split: option.splits)
qed simp


section \<open>The map contract\<close>

definition tree_inv :: "('k::linorder, 'd) avl_tree \<Rightarrow> bool" where
  "tree_inv t \<longleftrightarrow> avl (avl_root t) \<and> ordered (avl_root t) \<and> m_size t = of_nat (length (keys (avl_root t)))"

definition tree_lookup :: "('k::linorder, 'd) avl_tree \<Rightarrow> 'k \<Rightarrow> 'd option" where
  "tree_lookup t = avl_find (avl_root t)"

text \<open>
  An insert-if-absent map: insertion is total on good maps and adds a binding only for a key
  that has none.
\<close>

locale insert_map =
  fixes inv :: "'t \<Rightarrow> bool" and look :: "'t \<Rightarrow> 'k \<Rightarrow> 'd option" and ins :: "'k \<Rightarrow> 'd \<Rightarrow> 't \<Rightarrow> 't option"
  assumes ins_ok: "inv t \<Longrightarrow> \<exists>t'. ins k d t = Some t' \<and> inv t' \<and>
    look t' = (if look t k = None then (look t)(k \<mapsto> d) else look t)"
begin

lemma insert_all_ok:
  "inv t \<Longrightarrow> \<exists>t'. insert_all ins ps t = Some t' \<and> inv t' \<and>
    look t' x = (case look t x of None \<Rightarrow> map_of ps x | Some d \<Rightarrow> Some d)"
proof (induction ps arbitrary: t)
  case Nil
  then show ?case by (auto split: option.splits)
next
  case (Cons p ps)
  obtain t1 where t1: "ins (fst p) (snd p) t = Some t1" "inv t1"
      "look t1 = (if look t (fst p) = None then (look t)(fst p \<mapsto> snd p) else look t)"
    using ins_ok [OF Cons.prems] by blast
  obtain t' where "insert_all ins ps t1 = Some t'" "inv t'"
      "look t' x = (case look t1 x of None \<Rightarrow> map_of ps x | Some d \<Rightarrow> Some d)"
    using Cons.IH [OF t1(2)] by blast
  then show ?case using t1 by (cases p) (auto split: option.splits)
qed

end

lemma tree_insert_ok:
  assumes "tree_inv t"
  shows "\<exists>t'. tree_insert k d t = Some t' \<and> tree_inv t' \<and>
    tree_lookup t' = (if tree_lookup t k = None then (tree_lookup t)(k \<mapsto> d) else tree_lookup t)"
proof -
  let ?r = "avl_root t"
  have o: "avl ?r" "ordered ?r" and sz: "m_size t = of_nat (length (keys ?r))"
    using assms by (auto simp: tree_inv_def)
  obtain r' sz' where r': "avl_insert ?r k d (m_size t) = Some (r', sz')" "avl r'"
      "inorder r' = ins_entry k d (inorder ?r)" "sz' = (if k \<in> set (keys ?r) then m_size t else m_size t + 1)"
    using avl_insert_ok [OF o, of k d "m_size t"] by auto
  have s: "sorted_wrt (<) (map fst (inorder ?r))" using o(2) by (simp add: keys_def)
  have o': "ordered r'" using ins_entry_sorted [OF s] r'(3) by (simp add: keys_def)
  have "avl_find r' = (if avl_find ?r k = None then (avl_find ?r)(k \<mapsto> d) else avl_find ?r)"
    using avl_find_map_of [OF o(2)] avl_find_map_of [OF o'] map_of_ins_entry [OF s, of k d] r'(3)
    by (auto simp: fun_eq_iff map_of_eq_None_iff)
  moreover have "sz' = of_nat (length (keys r'))"
    using length_ins_entry [OF s, of k d] r'(3,4) sz by (simp add: keys_def)
  ultimately show ?thesis using r'(1,2) o' by (simp add: tree_insert_def tree_inv_def tree_lookup_def)
qed

interpretation avl_map: insert_map tree_inv tree_lookup tree_insert
  by unfold_locales (rule tree_insert_ok)

section \<open>A concrete tree\<close>

definition demo_tree :: "(nat, nat) avl_tree" where
  "demo_tree = \<lparr>avl_root = Node 5 50 2 (Node 3 30 1 Nullptr Nullptr) (Node 8 80 1 Nullptr Nullptr), m_size = 3\<rparr>"

lemma demo_tree_inv: "tree_inv demo_tree"
  by (simp add: tree_inv_def demo_tree_def)

section \<open>Properties\<close>

text \<open>
  C13. A tree filled by any sequence of insertions is balanced, ordered and of the right
  size, no insertion faults in a rotation, and a lookup finds for each key the data it was
  first inserted with.
\<close>

theorem avl_fill_lookup:
  "\<exists>t. insert_all tree_insert ps avl_new = Some t \<and> tree_inv t \<and> tree_lookup t key = map_of ps key"
  using avl_map.insert_all_ok [of avl_new ps key]
  by (simp add: avl_new_def tree_inv_def tree_lookup_def)

text \<open>
  C15. Removal from a good tree never faults, keeps it balanced and ordered, takes exactly
  the given key out of the key sequence, and keeps the size in step.
\<close>

theorem avl_remove_keys:
  assumes "tree_inv t"
  shows "\<exists>t'. tree_remove key t = Some t' \<and> tree_inv t' \<and>
    keys (avl_root t') = removeAll key (keys (avl_root t))"
proof -
  let ?r = "avl_root t"
  have o: "avl ?r" "ordered ?r" and sz: "m_size t = of_nat (length (keys ?r))"
    using assms by (auto simp: tree_inv_def)
  obtain r' sz' where r': "avl_remove ?r key (m_size t) = Some (r', sz')" "avl r'"
      "keys r' = removeAll key (keys ?r)" "sz' = (if key \<in> set (keys ?r) then m_size t - 1 else m_size t)"
    using avl_remove_ok [OF o, of key "m_size t"] by auto
  have d: "distinct (keys ?r)" using o(2) by (simp add: strict_sorted_iff)
  then have "sz' = of_nat (length (keys r'))"
    using r'(3,4) sz length_pos_if_in_set [of key "keys ?r"]
    by (auto simp: distinct_remove1_removeAll [symmetric] length_remove1 of_nat_diff Suc_leI)
  moreover have "ordered r'" using sorted_removeAll [OF o(2)] r'(3) by simp
  ultimately show ?thesis using r' by (simp add: tree_remove_def tree_inv_def)
qed

theorem avl_remove_keys_witness:
  "tree_inv demo_tree \<and> (\<exists>t'. tree_remove 5 demo_tree = Some t' \<and> tree_inv t' \<and> keys (avl_root t') = [3, 8])"
  using avl_remove_keys [OF demo_tree_inv, of 5] demo_tree_inv by (simp add: demo_tree_def)



text \<open>
  C31. Removing a node that has two children loses data: the key of its successor stays in
  the tree, but a lookup of that key now returns the data of the removed node, because only
  the key is copied.
\<close>

theorem avl_remove_two_children_data:
  assumes "avl (Node k d h l r)" "ordered (Node k d h l r)" "l \<noteq> Nullptr" "r \<noteq> Nullptr"
  shows "\<exists>t' sz'. avl_remove (Node k d h l r) k sz = Some (t', sz') \<and>
    avl_find t' (fst (hd (inorder r))) = Some d"
proof -
  define v where "v = fst (hd (inorder r))"
  have r: "avl r" "ordered r" using assms(1,2) by (auto simp: sorted_wrt_append)
  obtain r' sz' where r': "avl_remove r v sz = Some (r', sz')" "avl r'" "shrinks r r'"
    using avl_remove_ok [OF r] by metis
  obtain t where t: "avl_remove (Node k d h l r) k sz = Some (t, sz')"
      "inorder t = inorder l @ (v, d) # inorder r'"
    using avl_remove_two [of r sz r' sz' l k d h] r' assms(1,3,4) v_def by auto
  have "keys t = removeAll k (keys (Node k d h l r))" using avl_remove_ok [OF assms(1,2), of k sz] t(1) by auto
  then have o: "ordered t" using sorted_removeAll [OF assms(2), of k] by simp
  then have "v \<notin> fst ` set (inorder l)" using t(2) by (force simp: keys_def sorted_wrt_append)
  then have "map_of (inorder l) v = None" by (simp add: map_of_eq_None_iff)
  then have "avl_find t v = Some d" using avl_find_map_of [OF o] t(2) by (simp add: map_add_def)
  then show ?thesis using t(1) v_def by auto
qed

theorem avl_remove_two_children_data_witness:
  "\<exists>t' sz'. avl_remove (avl_root demo_tree) 5 3 = Some (t', sz') \<and> avl_find t' 8 = Some 50"
  using avl_remove_two_children_data [of "5::nat" "50::nat" 2 "Node 3 30 1 Nullptr Nullptr" "Node 8 80 1 Nullptr Nullptr" 3]
  by (simp add: demo_tree_def)

lemma clear_node_ok: "t \<noteq> Nullptr \<Longrightarrow> \<exists>ks. clear_node t = Some ks \<and> mset ks = mset (keys t)"
proof (induction t)
  case (Node k d h l r)
  then show ?case by (cases "l = Nullptr"; cases "r = Nullptr") auto
qed simp

text \<open>
  C33. \<^verbatim>\<open>clear()\<close>, which the destructor calls, dereferences the root without a test: on an
  empty tree it faults, and on every other tree it deletes each node exactly once and
  leaves the empty tree.
\<close>

theorem avl_clear_outcome:
  "tree_clear t = (if avl_root t = Nullptr then None else Some avl_new) \<and>
   (avl_root t \<noteq> Nullptr \<longrightarrow> (\<exists>ks. clear_node (avl_root t) = Some ks \<and> mset ks = mset (keys (avl_root t))))"
proof (cases "avl_root t = Nullptr")
  case False
  then show ?thesis using clear_node_ok [OF False] by (auto simp: tree_clear_def avl_new_def)
qed (simp add: tree_clear_def)

theorem avl_clear_outcome_witness:
  "avl_root demo_tree \<noteq> Nullptr \<and> tree_clear demo_tree = Some avl_new \<and>
   (\<exists>ks. clear_node (avl_root demo_tree) = Some ks \<and> mset ks = mset [3, 5, 8])"
  using avl_clear_outcome [of demo_tree] by (simp add: demo_tree_def)

end
