(* ===== verification/Kernel_Arith.thy ===== *)
theory Kernel_Arith
  imports Kernel_Prelude
begin

text \<open>
  The arithmetic helpers of \<^verbatim>\<open>include/system/types.h\<close>, the page constants and index macros of
  \<^verbatim>\<open>include/system/mmu.h\<close>, the address-space layout of \<^verbatim>\<open>include/system/memlayout.h\<close> and
  the conversions between virtual and physical addresses of
  \<^verbatim>\<open>kern/memory/vmm/address.cc\<close>. Addresses are 64-bit words with their wrap-around.
\<close>

unbundle bit_operations_syntax

section \<open>Logarithms and rounding\<close>

text \<open>The \<^verbatim>\<open>constexpr\<close> logarithm, which counts the bits of its argument (and gives 1 for 0).\<close>

fun log2_constexpr :: "nat \<Rightarrow> nat" where
  "log2_constexpr n = (if n < 2 then 1 else 1 + log2_constexpr (n div 2))"

declare log2_constexpr.simps [simp del]

definition log2p1 :: "nat \<Rightarrow> nat" where
  "log2p1 n = log2_constexpr n + 1"

text \<open>
  The compiler's \<^verbatim>\<open>__builtin_clzll\<close> on a non-zero argument: 64 minus the bit length.
\<close>

fun bit_length :: "nat \<Rightarrow> nat" where
  "bit_length n = (if n = 0 then 0 else 1 + bit_length (n div 2))"

declare bit_length.simps [simp del]

definition clzll :: "u64 \<Rightarrow> nat" where
  "clzll x = 64 - bit_length (unat x)"

definition powerof2_roundup :: "u64 \<Rightarrow> u64" where
  "powerof2_roundup x = push_bit (64 - clzll x) 1"

definition log2_template :: "u64 \<Rightarrow> nat" where
  "log2_template x = 8 * 8 - clzll x - 1"

definition rounddown :: "nat \<Rightarrow> nat \<Rightarrow> nat" where
  "rounddown val n = val - val mod n"

definition roundup :: "nat \<Rightarrow> nat \<Rightarrow> nat" where
  "roundup val n = rounddown (val + n - 1) n"

section \<open>Pages and table indices\<close>

definition PAGE_SIZE :: u64 where
  "PAGE_SIZE = 0x200000"

definition P4X :: "u64 \<Rightarrow> u64" where
  "P4X a = drop_bit 39 a AND 0x1FF"

definition P3X :: "u64 \<Rightarrow> u64" where
  "P3X a = drop_bit 30 a AND 0x1FF"

definition P2X :: "u64 \<Rightarrow> u64" where
  "P2X a = drop_bit 21 a AND 0x1FF"

definition PAGE_ROUNDUP :: "u64 \<Rightarrow> u64" where
  "PAGE_ROUNDUP a = (a + (PAGE_SIZE - 1)) AND NOT (PAGE_SIZE - 1)"

definition PAGE_ROUNDDOWN :: "u64 \<Rightarrow> u64" where
  "PAGE_ROUNDDOWN a = a AND NOT (PAGE_SIZE - 1)"

section \<open>The layout of the address space\<close>

definition KERNEL_ADDRESS_SPACE_BASE :: u64 where
  "KERNEL_ADDRESS_SPACE_BASE = 0xFFFF800000000000"

definition VIRTUALADDR_LIMIT :: u64 where
  "VIRTUALADDR_LIMIT = 0xFFFFFFFFFFFFFFFF"

definition PHYREMAP_VIRTUALBASE :: u64 where
  "PHYREMAP_VIRTUALBASE = 0xffff888000000000"

definition PHYREMAP_VIRTUALEND :: u64 where
  "PHYREMAP_VIRTUALEND = 0xffffc87fffffffff"

definition PHYMEMORY_SIZE :: u64 where
  "PHYMEMORY_SIZE = PHYREMAP_VIRTUALEND - PHYREMAP_VIRTUALBASE + 1"

definition KERNEL_VIRTUALBASE :: u64 where
  "KERNEL_VIRTUALBASE = 0xFFFFFFFF80000000"

definition KERNEL_VIRTUALEND :: u64 where
  "KERNEL_VIRTUALEND = VIRTUALADDR_LIMIT"

definition KERNEL_SIZE :: u64 where
  "KERNEL_SIZE = KERNEL_VIRTUALEND - KERNEL_VIRTUALBASE + 1"

definition USER_TOP :: u64 where
  "USER_TOP = 0x00007fffffffffff"

definition USER_STACK_TOP :: u64 where
  "USER_STACK_TOP = USER_TOP - PAGE_SIZE"

definition VALID_KERNEL_PTR :: "u64 \<Rightarrow> bool" where
  "VALID_KERNEL_PTR p \<longleftrightarrow> KERNEL_VIRTUALBASE \<le> p \<and> p \<le> KERNEL_VIRTUALEND"

definition VALID_USER_PTR :: "u64 \<Rightarrow> bool" where
  "VALID_USER_PTR p \<longleftrightarrow> p \<le> USER_TOP"

definition VALID_KERNEL_REGION :: "u64 \<Rightarrow> u64 \<Rightarrow> bool" where
  "VALID_KERNEL_REGION start end' \<longleftrightarrow> KERNEL_VIRTUALBASE < start \<and> start < end' \<and> end' \<le> KERNEL_VIRTUALEND"

definition VALID_USER_REGION :: "u64 \<Rightarrow> u64 \<Rightarrow> bool" where
  "VALID_USER_REGION start end' \<longleftrightarrow> start < end' \<and> end' \<le> USER_TOP"

lemmas layout_defs = KERNEL_ADDRESS_SPACE_BASE_def VIRTUALADDR_LIMIT_def PHYREMAP_VIRTUALBASE_def
  PHYREMAP_VIRTUALEND_def PHYMEMORY_SIZE_def KERNEL_VIRTUALBASE_def KERNEL_VIRTUALEND_def KERNEL_SIZE_def
  USER_TOP_def USER_STACK_TOP_def PAGE_SIZE_def

section \<open>Virtual and physical addresses\<close>

text \<open>\<open>None\<close> is the panic on an address the conversion has no answer for.\<close>

definition P2V_KERNEL :: "u64 \<Rightarrow> u64 option" where
  "P2V_KERNEL x = do { kassert (x \<le> KERNEL_SIZE); Some (x + KERNEL_VIRTUALBASE) }"

definition P2V_PHYREMAP :: "u64 \<Rightarrow> u64 option" where
  "P2V_PHYREMAP x = do { kassert (x \<le> PHYMEMORY_SIZE); Some (x + PHYREMAP_VIRTUALBASE) }"

definition V2P :: "u64 \<Rightarrow> u64 option" where
  "V2P x = do {
     kassert (x \<ge> KERNEL_ADDRESS_SPACE_BASE);
     if x \<ge> PHYREMAP_VIRTUALBASE \<and> x \<le> PHYREMAP_VIRTUALEND then Some (x - PHYREMAP_VIRTUALBASE)
     else if x \<ge> KERNEL_VIRTUALBASE \<and> x \<le> VIRTUALADDR_LIMIT then Some (x - KERNEL_VIRTUALBASE)
     else None
   }"

definition P2V :: "u64 \<Rightarrow> u64 option" where
  "P2V x = (if x \<le> KERNEL_SIZE then P2V_KERNEL x
            else if x \<ge> KERNEL_SIZE \<and> x \<le> PHYMEMORY_SIZE then P2V_PHYREMAP x
            else None)"

definition IO2V :: "u64 \<Rightarrow> u64 option" where
  "IO2V x = P2V x"

section \<open>Lemmas on rounding\<close>

lemma bit_length_bounds: "0 < n \<Longrightarrow> 2 ^ (bit_length n - 1) \<le> n \<and> n < 2 ^ bit_length n \<and> 0 < bit_length n"
proof (induction n rule: bit_length.induct)
  case (1 n)
  show ?case
  proof (cases "n = 1")
    case True
    then show ?thesis by (simp add: bit_length.simps)
  next
    case False
    then have "0 < n div 2" using 1(2) by auto
    with 1 have "2 ^ (bit_length (n div 2) - 1) \<le> n div 2" "n div 2 < 2 ^ bit_length (n div 2)" "0 < bit_length (n div 2)"
      by auto
    moreover have "bit_length n = Suc (bit_length (n div 2))" using 1(2) by (subst bit_length.simps) simp
    moreover have "(2::nat) ^ bit_length (n div 2) = 2 * 2 ^ (bit_length (n div 2) - 1)"
      using \<open>0 < bit_length (n div 2)\<close> by (cases "bit_length (n div 2)") auto
    ultimately show ?thesis by simp linarith
  qed
qed

lemma bit_length_eqI: "2 ^ k \<le> n \<Longrightarrow> n < 2 ^ Suc k \<Longrightarrow> bit_length n = Suc k"
proof -
  assume a: "2 ^ k \<le> n" "n < 2 ^ Suc k"
  have "0 < n" using a(1) by (metis gr_zeroI le_zero_eq power_not_zero zero_neq_numeral)
  note b = bit_length_bounds [OF this]
  have "(2::nat) ^ k < 2 ^ bit_length n" "(2::nat) ^ (bit_length n - 1) < 2 ^ Suc k" using a b by linarith+
  then have "k < bit_length n" "bit_length n - 1 < Suc k"
    by (auto intro: power_less_imp_less_exp [of "2::nat"])
  then show ?thesis by simp
qed

lemma log2_constexpr_bit_length: "0 < n \<Longrightarrow> log2_constexpr n = bit_length n"
proof (induction n rule: log2_constexpr.induct)
  case (1 n)
  show ?case
  proof (cases "n = 1")
    case True
    then show ?thesis by (simp add: log2_constexpr.simps bit_length.simps)
  next
    case False
    then show ?thesis using 1 by (simp add: log2_constexpr.simps [of n] bit_length.simps [of n])
  qed
qed

lemma bit_length_power [simp]: "bit_length (2 ^ k) = Suc k"
  by (rule bit_length_eqI) simp_all

lemma powerof2_roundup_unat:
  assumes "0 < n" "n < 2 ^ 63"
  shows "unat (powerof2_roundup (of_nat n)) = 2 ^ bit_length n"
proof -
  have n: "unat (of_nat n :: u64) = n" using assms(2) by (simp add: unat_of_nat take_bit_nat_eq_self_iff)
  have "2 ^ (bit_length n - 1) < (2::nat) ^ 63" using bit_length_bounds [OF assms(1)] assms(2) by linarith
  then have "bit_length n - 1 < 63" by (rule power_less_imp_less_exp [rotated]) simp
  then have l: "bit_length n \<le> 63" by simp
  then have "64 - clzll (of_nat n) = bit_length n" by (simp add: clzll_def n)
  moreover have "unat (push_bit k 1 :: u64) = take_bit 64 (push_bit k 1)" for k
    using unsigned_push_bit_eq [of k "1 :: u64", where ?'a = nat] by (simp only: unsigned_1) simp
  then have "unat (push_bit k 1 :: u64) = 2 ^ k" if "k \<le> 63" for k
    using that by (simp only: push_bit_of_1 [where ?'a = nat] take_bit_of_exp) simp
  ultimately show ?thesis using l by (simp add: powerof2_roundup_def)
qed

lemma page_mask: "PAGE_SIZE - 1 = mask 21"
  by (simp add: PAGE_SIZE_def mask_eq_exp_minus_1)

lemma and_not_mask_unat: "unat (a AND NOT (mask n) :: 'a::len word) = unat a div 2 ^ n * 2 ^ n"
proof -
  have "a AND NOT (mask n) = push_bit n (drop_bit n a)"
    by (rule bit_word_eqI) (auto simp: bit_simps)
  then have "unat (a AND NOT (mask n)) = take_bit LENGTH('a) (push_bit n (drop_bit n (unat a)))"
    by (simp only: unsigned_push_bit_eq unat_drop_bit_eq)
  also have "push_bit n (drop_bit n (unat a)) = unat a div 2 ^ n * 2 ^ n"
    by (simp only: push_bit_eq_mult drop_bit_eq_div)
  also have "unat a div 2 ^ n * 2 ^ n < 2 ^ LENGTH('a)"
    using div_times_less_eq_dividend [of "unat a" "2 ^ n"] unsigned_less [of a] by (rule le_less_trans)
  then have "take_bit LENGTH('a) (unat a div 2 ^ n * 2 ^ n) = unat a div 2 ^ n * 2 ^ n"
    by (simp add: take_bit_nat_eq_self_iff)
  finally show ?thesis .
qed

lemma PAGE_ROUNDDOWN_unat: "unat (PAGE_ROUNDDOWN a) = unat a div 2 ^ 21 * 2 ^ 21"
  by (simp only: PAGE_ROUNDDOWN_def page_mask and_not_mask_unat)

lemma PAGE_ROUNDUP_unat:
  assumes "unat a \<le> 2 ^ 64 - 2 ^ 21"
  shows "unat (PAGE_ROUNDUP a) = (unat a + 2 ^ 21 - 1) div 2 ^ 21 * 2 ^ 21"
proof -
  have "unat (a + (PAGE_SIZE - 1)) = unat a + 2 ^ 21 - 1"
    using assms by (subst unat_plus_if') (simp add: PAGE_SIZE_def)
  then show ?thesis by (simp only: PAGE_ROUNDUP_def page_mask and_not_mask_unat)
qed

lemma index_field: "unat (drop_bit k a AND 0x1FF :: u64) = unat a div 2 ^ k mod 2 ^ 9"
proof -
  have "(0x1FF :: u64) = mask 9" by (simp add: mask_eq_exp_minus_1)
  then have "drop_bit k a AND 0x1FF = take_bit 9 (drop_bit k a)" by (simp only: take_bit_eq_mask)
  then have "unat (drop_bit k a AND 0x1FF) = take_bit 9 (drop_bit k (unat a))"
    by (simp only: unsigned_take_bit_eq unat_drop_bit_eq)
  then show ?thesis by (simp only: take_bit_eq_mod [where ?'a = nat] drop_bit_eq_div [where ?'a = nat])
qed

lemma P2V_low:
  assumes "x < KERNEL_SIZE"
  shows "P2V x = Some (x + KERNEL_VIRTUALBASE)" "V2P (x + KERNEL_VIRTUALBASE) = Some x"
proof -
  have x: "unat x < 0x80000000" using assms by (simp add: layout_defs word_less_nat_alt)
  then have u: "unat (x + KERNEL_VIRTUALBASE) = unat x + 0xFFFFFFFF80000000"
    by (subst unat_plus_if') (simp add: layout_defs)
  show "P2V x = Some (x + KERNEL_VIRTUALBASE)"
    using assms by (simp add: P2V_def P2V_KERNEL_def order_less_imp_le)
  show "V2P (x + KERNEL_VIRTUALBASE) = Some x"
    using u x by (simp add: V2P_def word_le_nat_alt layout_defs)
qed

lemma P2V_high:
  assumes "x > KERNEL_SIZE" "x < PHYMEMORY_SIZE"
  shows "P2V x = Some (x + PHYREMAP_VIRTUALBASE)" "V2P (x + PHYREMAP_VIRTUALBASE) = Some x"
proof -
  have x: "unat x < 0x400000000000" using assms(2) by (simp add: layout_defs word_less_nat_alt)
  then have u: "unat (x + PHYREMAP_VIRTUALBASE) = unat x + 0xffff888000000000"
    by (subst unat_plus_if') (simp add: layout_defs)
  show "P2V x = Some (x + PHYREMAP_VIRTUALBASE)"
    using assms assms(1) [THEN not_le [THEN iffD2]] by (simp add: P2V_def P2V_PHYREMAP_def order_less_imp_le)
  show "V2P (x + PHYREMAP_VIRTUALBASE) = Some x"
    using u x by (simp add: V2P_def word_le_nat_alt layout_defs)
qed

section \<open>Properties\<close>

text \<open>
  C16. Translating a physical address to its kernel virtual address and back gives the
  address again, for every address below the end of the physical map except the single
  boundary address \<^verbatim>\<open>KERNEL_SIZE\<close>.
\<close>

theorem P2V_V2P_roundtrip:
  assumes "x < PHYMEMORY_SIZE" "x \<noteq> KERNEL_SIZE"
  shows "\<exists>v. P2V x = Some v \<and> V2P v = Some x \<and> VALID_USER_PTR v = False"
proof (cases "x < KERNEL_SIZE")
  case True
  then have "unat x < 0x80000000" by (simp add: layout_defs word_less_nat_alt)
  then have "unat (x + KERNEL_VIRTUALBASE) = unat x + 0xFFFFFFFF80000000"
    by (subst unat_plus_if') (simp add: layout_defs)
  then show ?thesis using P2V_low [OF True] by (simp add: VALID_USER_PTR_def word_le_nat_alt layout_defs)
next
  case False
  then have g: "x > KERNEL_SIZE" using assms(2) by simp
  have "unat x < 0x400000000000" using assms(1) by (simp add: layout_defs word_less_nat_alt)
  then have "unat (x + PHYREMAP_VIRTUALBASE) = unat x + 0xffff888000000000"
    by (subst unat_plus_if') (simp add: layout_defs)
  then show ?thesis using P2V_high [OF g assms(1)] by (simp add: VALID_USER_PTR_def word_le_nat_alt layout_defs)
qed

theorem P2V_V2P_roundtrip_witness:
  "(0x100000 :: u64) < PHYMEMORY_SIZE \<and> (\<exists>v. P2V 0x100000 = Some v \<and> V2P v = Some 0x100000)"
  using P2V_V2P_roundtrip [of "0x100000"] by (auto simp: layout_defs)


text \<open>
  C24. Page rounding: rounding down gives the greatest page boundary not above the address;
  rounding up the least one not below it, provided the address is not in the last page of
  the address space, where the sum wraps.
\<close>

theorem page_rounding:
  "PAGE_ROUNDDOWN a \<le> a \<and> unat a - unat (PAGE_ROUNDDOWN a) < 2 ^ 21 \<and> 2 ^ 21 dvd unat (PAGE_ROUNDDOWN a) \<and>
   (unat a \<le> 2 ^ 64 - 2 ^ 21 \<longrightarrow>
      a \<le> PAGE_ROUNDUP a \<and> unat (PAGE_ROUNDUP a) - unat a < 2 ^ 21 \<and> 2 ^ 21 dvd unat (PAGE_ROUNDUP a))"
proof -
  have "n \<le> (n + 2 ^ 21 - 1) div 2 ^ 21 * 2 ^ 21" "(n + 2 ^ 21 - 1) div 2 ^ 21 * 2 ^ 21 - n < 2 ^ 21" for n :: nat
    by simp_all
  then show ?thesis
    by (simp add: word_le_nat_alt PAGE_ROUNDDOWN_unat PAGE_ROUNDUP_unat minus_div_mult_eq_mod)
qed

theorem page_rounding_witness:
  "unat (0x300000 :: u64) \<le> 2 ^ 64 - 2 ^ 21 \<and> 0x300000 \<le> PAGE_ROUNDUP 0x300000 \<and> 2 ^ 21 dvd unat (PAGE_ROUNDUP 0x300000)"
  using page_rounding [of "0x300000"] by simp

text \<open>
  C25. The three table indices and the offset of a 2 MiB page determine a virtual address:
  they are the digits of its low 48 bits, each index is below 512, and two addresses with
  equal indices and equal offsets differ at most in the sign extension.
\<close>

theorem table_indices_digits:
  "unat (P4X a) < 512 \<and> unat (P3X a) < 512 \<and> unat (P2X a) < 512 \<and>
   unat a mod 2 ^ 48 = unat (P4X a) * 2 ^ 39 + unat (P3X a) * 2 ^ 30 + unat (P2X a) * 2 ^ 21 + unat a mod 2 ^ 21"
proof -
  define n where "n = unat a"
  have "n mod 2 ^ 48 = n div 2 ^ 39 mod 2 ^ 9 * 2 ^ 39 + n div 2 ^ 30 mod 2 ^ 9 * 2 ^ 30 +
      n div 2 ^ 21 mod 2 ^ 9 * 2 ^ 21 + n mod 2 ^ 21"
    using mod_mult2_eq [of n "2 ^ 39" "2 ^ 9"] mod_mult2_eq [of n "2 ^ 30" "2 ^ 9"]
      mod_mult2_eq [of n "2 ^ 21" "2 ^ 9"] by simp
  then show ?thesis unfolding P4X_def P3X_def P2X_def index_field n_def by simp
qed

end
