(* ===== verification/Buddy.thy ===== *)
theory Buddy
  imports Kernel_Arith "HOL-Library.Disjoint_Sets"
begin

text \<open>
  The buddy allocator of physical pages, \<^verbatim>\<open>kern/memory/pmm/buddy_provider.cc\<close>, with the page
  descriptors of \<^verbatim>\<open>include/memory/page.hpp\<close>. A \<^verbatim>\<open>page*\<close> is an index into the array of
  descriptors; an access outside the array is \<open>None\<close>, as is a failed assertion. A free list
  is the sequence of pages on it (the pointer surgery of \<^verbatim>\<open>list_add\<close>, \<^verbatim>\<open>list_remove\<close> is the
  subject of \<^theory_text>\<open>Link_Heap\<close>). The invariant says that the free blocks are disjoint and that
  descriptors and lists agree; allocation and freeing move exactly the requested pages.
\<close>

section \<open>Page descriptors\<close>

definition PHYSICAL_PAGE_FLAG_RESERVED :: u64 where
  "PHYSICAL_PAGE_FLAG_RESERVED = 1"

definition PHYSICAL_PAGE_FLAG_PROPERTY :: u64 where
  "PHYSICAL_PAGE_FLAG_PROPERTY = 2"

record page =
  pg_ref :: u64
  pg_flags :: u64
  pg_property :: nat
  pg_zone_id :: nat

definition page_has_flag :: "page \<Rightarrow> u64 \<Rightarrow> bool" where
  "page_has_flag pg fl \<longleftrightarrow> pg_flags pg AND fl \<noteq> 0"

definition page_set_flag :: "u64 \<Rightarrow> page \<Rightarrow> page" where
  "page_set_flag fl pg = pg\<lparr>pg_flags := pg_flags pg OR fl\<rparr>"

definition page_clear_flag :: "u64 \<Rightarrow> page \<Rightarrow> page" where
  "page_clear_flag fl pg = pg\<lparr>pg_flags := pg_flags pg AND NOT fl\<rparr>"

abbreviation reserved :: "page \<Rightarrow> bool" where
  "reserved pg \<equiv> page_has_flag pg PHYSICAL_PAGE_FLAG_RESERVED"

abbreviation free_head :: "page \<Rightarrow> bool" where
  "free_head pg \<equiv> page_has_flag pg PHYSICAL_PAGE_FLAG_PROPERTY"

section \<open>The provider\<close>

definition MAX_ORDER :: nat where
  "MAX_ORDER = 12"

definition ZONE_COUNT_MAX :: nat where
  "ZONE_COUNT_MAX = 8"

record buddy_provider =
  pages :: "page list"
  freelist :: "nat \<Rightarrow> nat list"
  fcount :: "nat \<Rightarrow> u64"
  zones :: "nat list"
  zone_count :: nat

definition get_page :: "buddy_provider \<Rightarrow> nat \<Rightarrow> page option" where
  "get_page s p = (if p < length (pages s) then Some (pages s ! p) else None)"

definition upd_page :: "nat \<Rightarrow> (page \<Rightarrow> page) \<Rightarrow> buddy_provider \<Rightarrow> buddy_provider option" where
  "upd_page p f s = (if p < length (pages s) then Some (s\<lparr>pages := (pages s)[p := f (pages s ! p)]\<rparr>) else None)"

definition buddy_init :: "page list \<Rightarrow> buddy_provider" where
  "buddy_init pgs = \<lparr>pages = pgs, freelist = (\<lambda>_. []), fcount = (\<lambda>_. 0),
     zones = replicate ZONE_COUNT_MAX 0, zone_count = 0\<rparr>"

definition get_order :: "nat \<Rightarrow> nat" where
  "get_order n = log2_constexpr (unat (powerof2_roundup (of_nat n)))"

definition index_to_page :: "buddy_provider \<Rightarrow> nat \<Rightarrow> nat \<Rightarrow> nat option" where
  "index_to_page s zone_id index =
     (if zone_id < length (zones s) then Some (zones s ! zone_id + index) else None)"

definition page_to_index :: "buddy_provider \<Rightarrow> nat \<Rightarrow> nat option" where
  "page_to_index s p = do {
     pg \<leftarrow> get_page s p;
     if pg_zone_id pg < length (zones s) then Some (p - zones s ! pg_zone_id pg) else None
   }"

definition is_buddy_page :: "buddy_provider \<Rightarrow> nat \<Rightarrow> nat \<Rightarrow> nat \<Rightarrow> bool" where
  "is_buddy_page s p order zone =
     (p < length (pages s) \<and> pg_zone_id (pages s ! p) = zone \<and> \<not> reserved (pages s ! p) \<and>
      free_head (pages s ! p) \<and> pg_property (pages s ! p) = order)"

text \<open>
  The bodies the operations share: putting a block at the front of the free list of its
  order, and unlinking a page from the list it is on.
\<close>

definition link_free_block :: "nat \<Rightarrow> nat \<Rightarrow> buddy_provider \<Rightarrow> buddy_provider option" where
  "link_free_block order p s = do {
     s \<leftarrow> upd_page p (\<lambda>pg. page_set_flag PHYSICAL_PAGE_FLAG_PROPERTY (pg\<lparr>pg_property := order\<rparr>)) s;
     Some (s\<lparr>freelist := (freelist s)(order := p # freelist s order),
             fcount := (fcount s)(order := fcount s order + 1)\<rparr>)
   }"

definition unlink_page :: "nat \<Rightarrow> nat \<Rightarrow> buddy_provider \<Rightarrow> buddy_provider" where
  "unlink_page order p s = s\<lparr>fcount := (fcount s)(order := fcount s order - 1),
     freelist := (\<lambda>i. removeAll p (freelist s i))\<rparr>"

section \<open>Setting up a zone\<close>

fun setup_pages :: "nat \<Rightarrow> nat \<Rightarrow> buddy_provider \<Rightarrow> buddy_provider option" where
  "setup_pages p 0 s = Some s"
| "setup_pages p (Suc n) s = do {
     pg \<leftarrow> get_page s p;
     kassert (reserved pg);
     s \<leftarrow> upd_page p (\<lambda>_. \<lparr>pg_ref = 0, pg_flags = 0, pg_property = 0, pg_zone_id = zone_count s\<rparr>) s;
     setup_pages (p + 1) n s
   }"

function setup_blocks :: "nat \<Rightarrow> nat \<Rightarrow> nat \<Rightarrow> buddy_provider \<Rightarrow> buddy_provider option" where
  "setup_blocks p n order s =
     (if n = 0 then Some s
      else if n \<ge> 2 ^ order then do {
        s \<leftarrow> link_free_block order p s;
        setup_blocks (p - 2 ^ order) (n - 2 ^ order) order s
      }
      else setup_blocks p n (order - 1) s)"
  by pat_completeness auto
termination
proof (relation "measures [\<lambda>(p, n, order, s). n, \<lambda>(p, n, order, s). order]", goal_cases)
  case (3 p n order s)
  then show ?case by (cases order) auto
qed auto

declare setup_blocks.simps [simp del]

definition setup_for_base :: "nat \<Rightarrow> nat \<Rightarrow> buddy_provider \<Rightarrow> buddy_provider option" where
  "setup_for_base base n s = do {
     kassert (n > 0);
     kassert (zone_count s < ZONE_COUNT_MAX);
     s \<leftarrow> setup_pages base n s;
     let s = s\<lparr>zones := (zones s)[zone_count s := base]\<rparr>;
     let s = s\<lparr>zone_count := zone_count s + 1\<rparr>;
     setup_blocks (base + (n - 1)) n MAX_ORDER s
   }"

section \<open>Freeing\<close>

fun free_pages_loop :: "nat \<Rightarrow> nat \<Rightarrow> buddy_provider \<Rightarrow> buddy_provider option" where
  "free_pages_loop p 0 s = Some s"
| "free_pages_loop p (Suc n) s = do {
     pg \<leftarrow> get_page s p;
     kassert (\<not> reserved pg);
     kassert (\<not> free_head pg);
     s \<leftarrow> upd_page p (\<lambda>pg. pg\<lparr>pg_flags := 0, pg_ref := 0\<rparr>) s;
     free_pages_loop (p + 1) n s
   }"

text \<open>The loop that merges a freed block with its buddy; it returns the block to link.\<close>

function merge_buddies :: "nat \<Rightarrow> nat \<Rightarrow> nat \<Rightarrow> buddy_provider \<Rightarrow> (nat \<times> nat \<times> buddy_provider) option" where
  "merge_buddies zone_id page_index order s =
     (if order < MAX_ORDER then do {
        let buddy_index = page_index XOR 2 ^ order;
        buddy \<leftarrow> index_to_page s zone_id buddy_index;
        if \<not> is_buddy_page s buddy order zone_id then Some (page_index, order, s)
        else do {
          let s = unlink_page order buddy s;
          s \<leftarrow> upd_page buddy (page_clear_flag PHYSICAL_PAGE_FLAG_PROPERTY) s;
          merge_buddies zone_id (page_index AND buddy_index) (order + 1) s
        }
      } else Some (page_index, order, s))"
  by pat_completeness auto
termination
  by (relation "measure (\<lambda>(z, i, order, s). MAX_ORDER - order)") auto

declare merge_buddies.simps [simp del]

definition do_free :: "nat \<Rightarrow> nat \<Rightarrow> buddy_provider \<Rightarrow> buddy_provider option" where
  "do_free base order s = do {
     page_index \<leftarrow> page_to_index s base;
     kassert (page_index AND (2 ^ order - 1) = 0);
     s \<leftarrow> free_pages_loop base (2 ^ order) s;
     pg \<leftarrow> get_page s base;
     let zone_id = pg_zone_id pg;
     (page_index, order, s) \<leftarrow> merge_buddies zone_id page_index order s;
     p \<leftarrow> index_to_page s zone_id page_index;
     link_free_block order p s
   }"

text \<open>
  \<^verbatim>\<open>free\<close>: first upwards through the orders, freeing a block whenever the index has the
  bit of the order set, then downwards through what is left.
\<close>

function free_up :: "nat \<Rightarrow> nat \<Rightarrow> nat \<Rightarrow> buddy_provider \<Rightarrow> (nat \<times> nat \<times> nat \<times> buddy_provider) option" where
  "free_up base n order s =
     (if n \<ge> 2 ^ order then do {
        kassert (order \<le> MAX_ORDER);
        page_index \<leftarrow> page_to_index s base;
        if page_index AND 2 ^ order \<noteq> 0 then do {
          s \<leftarrow> do_free base order s;
          free_up (base + 2 ^ order) (n - 2 ^ order) (order + 1) s
        }
        else free_up base n (order + 1) s
      } else Some (base, n, order, s))"
  by pat_completeness auto
termination
proof (relation "measure (\<lambda>(base, n, order, s). n - order)", goal_cases)
  case (2 base n order s)
  then have "order < n" using less_exp [of order] by linarith
  then show ?case by auto
next
  case (3 base n order s)
  then have "order < n" using less_exp [of order] by linarith
  then show ?case by auto
qed simp

declare free_up.simps [simp del]

function free_down :: "nat \<Rightarrow> nat \<Rightarrow> nat \<Rightarrow> buddy_provider \<Rightarrow> buddy_provider option" where
  "free_down base n order s =
     (if n = 0 then Some s
      else if n < 2 ^ order then free_down base n (order - 1) s
      else do {
        s \<leftarrow> do_free base order s;
        free_down (base + 2 ^ order) (n - 2 ^ order) order s
      })"
  by pat_completeness auto
termination
proof (relation "measures [\<lambda>(base, n, order, s). n, \<lambda>(base, n, order, s). order]", goal_cases)
  case (2 base n order s)
  then show ?case by (cases order) auto
qed auto

declare free_down.simps [simp del]

definition buddy_free :: "nat \<Rightarrow> nat \<Rightarrow> buddy_provider \<Rightarrow> buddy_provider option" where
  "buddy_free base n s = do {
     kassert (n > 0);
     if n = 1 then do_free base 0 s
     else do {
       (base, n, order, s) \<leftarrow> free_up base n 0 s;
       free_down base n order s
     }
   }"

section \<open>Allocating\<close>

fun split_block :: "nat \<Rightarrow> nat \<Rightarrow> nat \<Rightarrow> buddy_provider \<Rightarrow> buddy_provider option" where
  "split_block pg 0 order s = Some s"
| "split_block pg (Suc cur) order s =
     (if Suc cur > order then do {
        s \<leftarrow> link_free_block cur (pg + 2 ^ cur) s;
        split_block pg cur order s
      } else Some s)"

function do_allocate_from :: "nat \<Rightarrow> nat \<Rightarrow> buddy_provider \<Rightarrow> (nat option \<times> buddy_provider) option" where
  "do_allocate_from cur_order order s =
     (if cur_order \<le> MAX_ORDER then
        (case freelist s cur_order of
           [] \<Rightarrow> do_allocate_from (cur_order + 1) order s
         | pg # _ \<Rightarrow> do {
             let s = unlink_page cur_order pg s;
             s \<leftarrow> split_block pg cur_order order s;
             s \<leftarrow> upd_page pg (page_clear_flag PHYSICAL_PAGE_FLAG_PROPERTY) s;
             Some (Some pg, s)
           })
      else Some (None, s))"
  by pat_completeness auto
termination
  by (relation "measure (\<lambda>(cur, order, s). Suc MAX_ORDER - cur)") auto

declare do_allocate_from.simps [simp del]

definition do_allocate :: "nat \<Rightarrow> buddy_provider \<Rightarrow> (nat option \<times> buddy_provider) option" where
  "do_allocate order s = do {
     kassert (order \<le> MAX_ORDER);
     do_allocate_from order order s
   }"

definition buddy_allocate :: "nat \<Rightarrow> buddy_provider \<Rightarrow> (nat option \<times> buddy_provider) option" where
  "buddy_allocate n s = do {
     kassert (n > 0);
     let order = get_order n;
     (pg, s) \<leftarrow> do_allocate order s;
     (case pg of
        Some p \<Rightarrow> if n \<noteq> 2 ^ order then do { s \<leftarrow> buddy_free (p + n) (2 ^ order - n) s; Some (pg, s) }
                  else Some (pg, s)
      | None \<Rightarrow> Some (pg, s))
   }"




section \<open>Flags\<close>

lemma page_has_flag_bit [simp]:
  "reserved pg \<longleftrightarrow> bit (pg_flags pg) 0" "free_head pg \<longleftrightarrow> bit (pg_flags pg) 1"
  using and_exp_eq_0_iff_not_bit [of "pg_flags pg" 0] and_exp_eq_0_iff_not_bit [of "pg_flags pg" 1]
  by (simp_all add: page_has_flag_def PHYSICAL_PAGE_FLAG_RESERVED_def PHYSICAL_PAGE_FLAG_PROPERTY_def)

lemma page_flag_upd [simp]:
  "bit (pg_flags (page_set_flag PHYSICAL_PAGE_FLAG_PROPERTY pg)) n \<longleftrightarrow> bit (pg_flags pg) n \<or> n = 1"
  "bit (pg_flags (page_clear_flag PHYSICAL_PAGE_FLAG_PROPERTY pg)) n \<longleftrightarrow> bit (pg_flags pg) n \<and> n \<noteq> 1"
  "pg_property (page_set_flag fl pg) = pg_property pg" "pg_property (page_clear_flag fl pg) = pg_property pg"
  "pg_zone_id (page_set_flag fl pg) = pg_zone_id pg" "pg_zone_id (page_clear_flag fl pg) = pg_zone_id pg"
  using bit_imp_le_length [of "pg_flags pg" n]
  by (auto simp: page_set_flag_def page_clear_flag_def PHYSICAL_PAGE_FLAG_PROPERTY_def bit_simps)

section \<open>The invariant\<close>

fun blk :: "nat \<times> nat \<Rightarrow> nat set" where
  "blk (order, p) = {p..<p + 2 ^ order}"

definition blocks :: "buddy_provider \<Rightarrow> (nat \<times> nat) set" where
  "blocks s = {(order, p). p \<in> set (freelist s order)}"

definition free_set :: "buddy_provider \<Rightarrow> nat set" where
  "free_set s = \<Union> (blk ` blocks s)"




text \<open>What no operation after set-up changes: the array's extent, zones and reservations.\<close>

definition same_map :: "buddy_provider \<Rightarrow> buddy_provider \<Rightarrow> bool" where
  "same_map s s' \<longleftrightarrow> length (pages s') = length (pages s) \<and> zones s' = zones s \<and>
     (\<forall>q < length (pages s). pg_zone_id (pages s' ! q) = pg_zone_id (pages s ! q) \<and>
        reserved (pages s' ! q) = reserved (pages s ! q))"

lemma same_map_refl [simp]: "same_map s s"
  by (simp add: same_map_def)










section \<open>Linking and unlinking a block\<close>




section \<open>Buddy arithmetic\<close>



lemma xor_one: "k XOR Suc 0 = (if even k then k + 1 else k - 1)" for k :: nat
  using xor_Suc_0_eq [of k] by simp

lemma and_xor_one: "k AND (k XOR Suc 0) = (if even k then k else k - 1)" for k :: nat
proof (cases "even k")
  case True
  then obtain m where "k = 2 * m" by blast
  then show ?thesis by (simp add: xor_one and_rec [of "2 * m"])
next
  case False
  then obtain m where "k = 2 * m + 1" by (rule oddE)
  then show ?thesis by (simp add: xor_one and_rec [of "Suc (2 * m)"])
qed

lemma buddy_index:
  assumes "2 ^ order dvd (i::nat)"
  shows "i XOR 2 ^ order = (if even (i div 2 ^ order) then i + 2 ^ order else i - 2 ^ order)"
    "i AND (i XOR 2 ^ order) = (if even (i div 2 ^ order) then i else i - 2 ^ order)"
proof -
  obtain k where i: "i = 2 ^ order * k" using assms by blast
  then have p: "i = push_bit order k" "2 ^ order = push_bit order (1::nat)" by (simp_all add: push_bit_eq_mult)
  then have x: "i XOR 2 ^ order = push_bit order (k XOR 1)" by (simp only: push_bit_xor)
  then show "i XOR 2 ^ order = (if even (i div 2 ^ order) then i + 2 ^ order else i - 2 ^ order)"
    using i by (simp only: xor_one One_nat_def push_bit_eq_mult) (simp add: algebra_simps)
  have "i AND (i XOR 2 ^ order) = push_bit order (k AND (k XOR 1))" unfolding x by (simp only: p(1) push_bit_and)
  then show "i AND (i XOR 2 ^ order) = (if even (i div 2 ^ order) then i else i - 2 ^ order)"
    using i by (simp only: and_xor_one One_nat_def push_bit_eq_mult) (simp add: algebra_simps)
qed


section \<open>Freeing\<close>














section \<open>Allocating\<close>









lemma get_order_bit_length: "0 < n \<Longrightarrow> n < 2 ^ 63 \<Longrightarrow> get_order n = bit_length n + 1"
  by (simp add: get_order_def powerof2_roundup_unat log2_constexpr_bit_length)



section \<open>The page source contract\<close>




section \<open>Counting\<close>



section \<open>Set-up\<close>

lemma link_free_block_blocks: "link_free_block order p s = Some s' \<Longrightarrow> blocks s' = insert (order, p) (blocks s)"
  by (auto simp: link_free_block_def upd_page_def blocks_def split: if_splits)

lemma setup_blocks_mono: "setup_blocks p n order s = Some s' \<Longrightarrow> blocks s \<subseteq> blocks s'"
proof (induction p n order s rule: setup_blocks.induct)
  case (1 p n order s)
  consider "n = 0" | "n \<noteq> 0" "2 ^ order \<le> n" | "n \<noteq> 0" "\<not> 2 ^ order \<le> n" by blast
  then show ?case
  proof cases
    case 2
    then obtain s1 where "link_free_block order p s = Some s1"
        "setup_blocks (p - 2 ^ order) (n - 2 ^ order) order s1 = Some s'"
      using "1.prems" by (simp add: setup_blocks.simps [of p n] bind_eq_Some_conv) blast
    then show ?thesis using "1.IH"(1) [OF 2] link_free_block_blocks by blast
  next
    case 3
    then show ?thesis using "1.IH"(2) [OF 3] "1.prems" by (simp add: setup_blocks.simps [of p n order])
  qed (use "1.prems" in \<open>simp add: setup_blocks.simps\<close>)
qed

text \<open>The first block set-up puts on a list starts at \<open>p\<close>, with the highest order that fits.\<close>

lemma setup_blocks_first:
  "setup_blocks p n order s = Some s' \<Longrightarrow> 0 < n \<Longrightarrow> 1 \<le> order \<Longrightarrow> 2 \<le> n \<Longrightarrow> \<exists>k \<ge> 1. (k, p) \<in> blocks s'"
proof (induction order arbitrary: s)
  case (Suc order)
  show ?case
  proof (cases "2 ^ Suc order \<le> n")
    case True
    then obtain s1 where "link_free_block (Suc order) p s = Some s1"
        "setup_blocks (p - 2 ^ Suc order) (n - 2 ^ Suc order) (Suc order) s1 = Some s'"
      using Suc.prems by (simp add: setup_blocks.simps [of p n] bind_eq_Some_conv) blast
    then have "(Suc order, p) \<in> blocks s'" using setup_blocks_mono link_free_block_blocks by blast
    then show ?thesis by auto
  next
    case False
    then have "order \<noteq> 0" using Suc.prems(4) by (cases order) auto
    moreover have "setup_blocks p n order s = Some s'"
      using False Suc.prems(1,2) by (simp add: setup_blocks.simps [of p n "Suc order"])
    ultimately show ?thesis using Suc.IH Suc.prems(2,4) by simp
  qed
qed simp

section \<open>A concrete provider\<close>

text \<open>Eight usable pages of one zone, all of them on the list of order 3.\<close>

definition demo_buddy :: buddy_provider where
  "demo_buddy = \<lparr>
     pages = \<lparr>pg_ref = 0, pg_flags = 2, pg_property = 3, pg_zone_id = 0\<rparr> #
       replicate 7 \<lparr>pg_ref = 0, pg_flags = 0, pg_property = 0, pg_zone_id = 0\<rparr>,
     freelist = (\<lambda>order. if order = 3 then [0] else []),
     fcount = (\<lambda>order. if order = 3 then 1 else 0),
     zones = replicate 8 0, zone_count = 1\<rparr>"




section \<open>Properties\<close>







text \<open>
  C26. The largest request the allocator can serve is 2047 pages, although its largest block
  has 4096: \<^verbatim>\<open>get_order\<close> rounds a request up to the next larger power of two and then counts
  its bits, so a request of 2048 pages asks for order 13 and fails the assertion.
\<close>

theorem buddy_large_request_panics:
  assumes "2048 \<le> n" "n < 2 ^ 63"
  shows "buddy_allocate n s = None"
proof -
  have "(2::nat) ^ 11 < 2 ^ bit_length n" using bit_length_bounds [of n] assms(1) by simp
  then have "11 < bit_length n" by (rule power_less_imp_less_exp [rotated]) simp
  then have "\<not> get_order n \<le> MAX_ORDER" using get_order_bit_length [of n] assms by (simp add: MAX_ORDER_def)
  then show ?thesis using assms(1) by (simp add: buddy_allocate_def do_allocate_def)
qed

theorem buddy_large_request_panics_witness:
  "(2048::nat) \<le> 4096 \<and> buddy_allocate 4096 demo_buddy = None"
  using buddy_large_request_panics [of 4096 demo_buddy] by simp

text \<open>
  C37. \<^verbatim>\<open>setup_for_base\<close> puts pages on the free lists that do not belong to the zone: it
  places the first block at the last page of the zone instead of at its beginning, so for
  every zone of two or more pages the page after the zone's end becomes free.
\<close>

theorem buddy_setup_overruns:
  assumes "setup_for_base base n s = Some s'" "2 \<le> n"
  shows "base + n \<in> free_set s'"
proof -
  obtain s1 where "setup_blocks (base + (n - 1)) n MAX_ORDER s1 = Some s'"
    using assms by (auto simp: setup_for_base_def Let_def bind_eq_Some_conv)
  then obtain k where "k \<ge> 1" "(k, base + (n - 1)) \<in> blocks s'"
    using setup_blocks_first [of "base + (n - 1)" n MAX_ORDER] assms(2) by (auto simp: MAX_ORDER_def)
  moreover have "base + n \<in> blk (k, base + (n - 1))"
    using assms(2) power_increasing [OF \<open>k \<ge> 1\<close>, of "2::nat"] by simp
  ultimately show ?thesis unfolding free_set_def by blast
qed

definition demo_reserved :: buddy_provider where
  "demo_reserved = buddy_init (replicate 3 \<lparr>pg_ref = 0, pg_flags = 1, pg_property = 0, pg_zone_id = 0\<rparr>)"

lemma setup_pages_total:
  "(\<And>q. p \<le> q \<Longrightarrow> q < p + n \<Longrightarrow> q < length (pages s) \<and> reserved (pages s ! q)) \<Longrightarrow>
   \<exists>s'. setup_pages p n s = Some s' \<and> length (pages s') = length (pages s)"
proof (induction n arbitrary: p s)
  case (Suc n)
  let ?s = "s\<lparr>pages := (pages s)[p := \<lparr>pg_ref = 0, pg_flags = 0, pg_property = 0, pg_zone_id = zone_count s\<rparr>]\<rparr>"
  have p: "p < length (pages s)" "reserved (pages s ! p)" using Suc.prems [of p] by auto
  have "\<exists>s'. setup_pages (Suc p) n ?s = Some s' \<and> length (pages s') = length (pages ?s)"
    using Suc.prems by (intro Suc.IH) auto
  then show ?case using p by (auto simp: get_page_def upd_page_def)
qed simp

lemma setup_blocks_2:
  "1 \<le> order \<Longrightarrow> p < length (pages s) \<Longrightarrow> \<exists>s'. setup_blocks p 2 order s = Some s'"
proof (induction order)
  case (Suc order)
  show ?case
  proof (cases "order = 0")
    case True
    then show ?thesis
      using Suc.prems(2) by (simp add: setup_blocks.simps [of _ 2] setup_blocks.simps [of _ 0] link_free_block_def upd_page_def)
  next
    case False
    then have "(2::nat) ^ 2 \<le> 2 ^ Suc order" by (intro power_increasing) auto
    then have "setup_blocks p 2 (Suc order) s = setup_blocks p 2 order s" by (simp add: setup_blocks.simps [of p 2 "Suc order"])
    then show ?thesis using Suc False by simp
  qed
qed simp

theorem buddy_setup_overruns_witness:
  "\<exists>s'. setup_for_base 0 2 demo_reserved = Some s' \<and> 2 \<in> free_set s'"
proof -
  obtain s1 where s1: "setup_pages 0 2 demo_reserved = Some s1" "length (pages s1) = 3"
    using setup_pages_total [of 0 2 demo_reserved] by (auto simp: demo_reserved_def buddy_init_def)
  then obtain s' where "setup_for_base 0 2 demo_reserved = Some s'"
    using setup_blocks_2 [of MAX_ORDER 1 "s1\<lparr>zones := (zones s1)[zone_count s1 := 0], zone_count := zone_count s1 + 1\<rparr>"]
    by (auto simp: setup_for_base_def demo_reserved_def buddy_init_def ZONE_COUNT_MAX_def MAX_ORDER_def Let_def)
  then show ?thesis using buddy_setup_overruns [of 0 2 demo_reserved s'] by (auto simp: numeral_2_eq_2)
qed

end
