(* ===== verification/Bit_Field.thy ===== *)
theory Bit_Field
  imports Kernel_Prelude
begin

text \<open>
  Packed bit fields of 64-bit registers. A member \<^verbatim>\<open>uint64_t f: len\<close> that starts at bit
  \<open>lo\<close> is read by \<open>get_field lo len\<close> and assigned by \<open>set_field lo len\<close>; an assignment
  truncates the value to the width of the field and leaves every other bit alone.
\<close>

unbundle bit_operations_syntax

named_theorems field_defs \<open>accessors of packed structures, as bit fields\<close>

definition get_field :: "nat \<Rightarrow> nat \<Rightarrow> u64 \<Rightarrow> u64" where
  "get_field lo len w = take_bit len (drop_bit lo w)"

definition set_field :: "nat \<Rightarrow> nat \<Rightarrow> u64 \<Rightarrow> u64 \<Rightarrow> u64" where
  "set_field lo len v w = (w AND NOT (push_bit lo (mask len))) OR push_bit lo (take_bit len v)"

lemma bit_get_field [simp]: "bit (get_field lo len w) i \<longleftrightarrow> i < len \<and> bit w (lo + i)"
  by (simp add: get_field_def bit_take_bit_iff bit_drop_bit_eq)

lemma bit_set_field [simp]:
  "bit (set_field lo len v w) i \<longleftrightarrow>
     i < 64 \<and> (if lo \<le> i \<and> i < lo + len then bit v (i - lo) else bit w i)"
  by (auto simp: set_field_def bit_or_iff bit_and_iff bit_not_iff bit_push_bit_iff bit_take_bit_iff
      bit_mask_iff dest: bit_imp_le_length)

lemma get_set_same: "lo + len \<le> 64 \<Longrightarrow> get_field lo len (set_field lo len v w) = take_bit len v"
  by (rule bit_word_eqI) (auto simp: bit_take_bit_iff)

lemma get_set_other:
  "lo + len \<le> lo' \<or> lo' + len' \<le> lo \<Longrightarrow> get_field lo len (set_field lo' len' v w) = get_field lo len w"
  by (rule bit_word_eqI) (auto dest: bit_imp_le_length)

lemma unat_take_bit_mod: "unat (take_bit n w) = unat w mod 2 ^ n"
  by (simp only: unsigned_take_bit_eq take_bit_eq_mod [where ?'a = nat])

lemma unat_get_field_less: "len < 64 \<Longrightarrow> unat (get_field lo len w) < 2 ^ len"
  by (simp add: get_field_def unat_take_bit_mod)

lemma get_field_0 [simp]: "get_field lo len 0 = 0"
  by (simp add: get_field_def)

text \<open>A counter field incremented below its capacity.\<close>

lemma field_increment:
  assumes "lo + len \<le> 64" "len < 64" "unat (get_field lo len w) + 1 < 2 ^ len"
  shows "unat (get_field lo len (set_field lo len (get_field lo len w + 1) w)) = unat (get_field lo len w) + 1"
proof -
  let ?g = "get_field lo len w"
  have "unat ?g + 1 < 2 ^ 64"
    using assms(2,3) order_less_trans [OF assms(3) power_strict_increasing [of len 64 "2::nat"]] by simp
  then have "unat (?g + 1) = unat ?g + 1"
    by (subst unat_word_ariths) simp
  then show ?thesis
    using assms by (simp add: get_set_same unat_take_bit_mod)
qed

text \<open>A counter field incremented at its capacity starts again at zero.\<close>

lemma field_increment_wraps:
  assumes "lo + len \<le> 64" "len < 64" "unat (get_field lo len w) + 1 = 2 ^ len"
  shows "get_field lo len (set_field lo len (get_field lo len w + 1) w) = 0"
proof -
  let ?g = "get_field lo len w"
  have "unat ?g + 1 < 2 ^ 64"
    using assms(2,3) power_strict_increasing [of len 64 "2::nat"] by simp
  then have "unat (?g + 1) = 2 ^ len"
    using assms(3) by (subst unat_word_ariths) simp
  then have "unat (take_bit len (?g + 1)) = 0"
    by (simp add: unat_take_bit_mod)
  then show ?thesis
    using assms(1) by (simp add: get_set_same unat_eq_0)
qed

end
