(* ===== verification/Ipc_Message.thy ===== *)
theory Ipc_Message
  imports Bit_Field Kernel_Arith
begin

text \<open>
  Flexpages (\<^verbatim>\<open>include/memory/fpage.hpp\<close>) and IPC messages
  (\<^verbatim>\<open>include/task/ipc/public/messages.hpp\<close>). Tags, acceptors, items and flexpages are
  packed structures over 64-bit registers, so each is its raw word (or its two raw words) and the
  members are bit fields. A message is its 64 registers; register 0 is the tag, which the source
  overlays with a union. A register access past the array is undefined and yields \<open>None\<close>.
\<close>

unbundle bit_operations_syntax

section \<open>Flexpages\<close>

type_synonym fpage = u64

definition AR_X :: u64 where "AR_X = 0b0001"
definition AR_W :: u64 where "AR_W = 0b0010"
definition AR_R :: u64 where "AR_R = 0b0100"

definition AR_RX :: u64 where "AR_RX = (AR_X OR AR_X)"
definition AR_RW :: u64 where "AR_RW = (AR_X OR AR_W)"
definition AR_FULL :: u64 where "AR_FULL = (AR_X OR AR_W OR AR_X)"

lemmas access_rights_defs = AR_X_def AR_W_def AR_R_def AR_RX_def AR_RW_def AR_FULL_def

definition fpage_rights :: "fpage \<Rightarrow> u64" where
  "fpage_rights p = get_field 0 4 p"

definition fpage_s :: "fpage \<Rightarrow> u64" where
  "fpage_s p = get_field 4 6 p"

definition fpage_b_div_1024 :: "fpage \<Rightarrow> u64" where
  "fpage_b_div_1024 p = get_field 10 54 p"

definition make_fpage :: "u64 \<Rightarrow> u64 \<Rightarrow> u64 \<Rightarrow> fpage" where
  "make_fpage b s rights = set_field 10 54 (drop_bit 10 b) (set_field 4 6 s (set_field 0 4 rights 0))"

definition check_rights :: "fpage \<Rightarrow> u64 \<Rightarrow> bool" where
  "check_rights p rights \<longleftrightarrow> (rights AND fpage_rights p) = rights"

definition get_size :: "fpage \<Rightarrow> u64" where
  "get_size p = push_bit (unat (fpage_s p)) 1"

definition get_base_address :: "fpage \<Rightarrow> u64" where
  "get_base_address p = fpage_b_div_1024 p * push_bit 10 1"

section \<open>Message tags\<close>

type_synonym message_tag = u64

definition untyped_count :: "message_tag \<Rightarrow> nat" where
  "untyped_count tag = unat (get_field 0 6 tag)"

definition typed_count :: "message_tag \<Rightarrow> nat" where
  "typed_count tag = unat (get_field 6 6 tag)"

definition tag_flags :: "message_tag \<Rightarrow> u64" where
  "tag_flags tag = get_field 12 4 tag"

definition tag_label :: "message_tag \<Rightarrow> u64" where
  "tag_label tag = get_field 16 48 tag"

definition set_flags :: "u32 \<Rightarrow> message_tag \<Rightarrow> message_tag" where
  "set_flags flags tag = set_field 12 4 (ucast flags) tag"

definition set_label :: "u64 \<Rightarrow> message_tag \<Rightarrow> message_tag" where
  "set_label lab tag = set_field 16 48 lab tag"

definition check_flags :: "message_tag \<Rightarrow> u32 \<Rightarrow> bool" where
  "check_flags tag flags \<longleftrightarrow> (tag_flags tag AND ucast flags) \<noteq> 0"

definition next_typed_pos :: "message_tag \<Rightarrow> nat" where
  "next_typed_pos tag = 1 + untyped_count tag + typed_count tag"

text \<open>The increments \<^verbatim>\<open>++tag_.u_\<close> and \<^verbatim>\<open>tag_.t_++\<close>: both counters have six bits.\<close>

definition inc_u :: "message_tag \<Rightarrow> message_tag" where
  "inc_u tag = set_field 0 6 (get_field 0 6 tag + 1) tag"

definition inc_t :: "message_tag \<Rightarrow> message_tag" where
  "inc_t tag = set_field 6 6 (get_field 6 6 tag + 1) tag"

section \<open>Acceptors\<close>

type_synonym message_acceptor = u64

definition allow_string :: "message_acceptor \<Rightarrow> bool" where
  "allow_string acc \<longleftrightarrow> get_field 1 1 acc \<noteq> 0"

definition allow_map_or_grant :: "message_acceptor \<Rightarrow> bool" where
  "allow_map_or_grant acc \<longleftrightarrow> get_field 0 1 acc \<noteq> 0"

definition receive_window :: "message_acceptor \<Rightarrow> u64" where
  "receive_window acc = get_field 4 60 acc"

text \<open>
  \<^verbatim>\<open>1 << receive_s\<close> shifts an \<^verbatim>\<open>int\<close>: from 31 on the shift is undefined, which is \<open>None\<close>.
\<close>

definition get_send_receive_region :: "message_acceptor \<Rightarrow> fpage \<Rightarrow> u64 \<Rightarrow> (fpage \<times> fpage) option" where
  "get_send_receive_region acc send sndbase = (
     let receive_s = drop_bit 4 (receive_window acc) AND 0x3F;
         receive_b = drop_bit 10 (receive_window acc);
         size = push_bit (unat receive_s) (1 :: u64);
         s = of_nat (log2_constexpr (unat (PAGE_ROUNDUP size)))
     in do {
       kassert (receive_s < 31);
       if get_size send > size then
         (let new_send_base = PAGE_ROUNDDOWN (get_base_address send + sndbase mod get_size send)
          in Some (make_fpage new_send_base s AR_FULL, make_fpage (push_bit 10 receive_b) s AR_FULL))
       else if get_size send < size then
         (let new_receive_base = PAGE_ROUNDDOWN (push_bit 10 receive_s + sndbase mod size)
          in Some (send, make_fpage (push_bit 10 new_receive_base) s AR_FULL))
       else Some (send, make_fpage (push_bit 10 receive_b) s AR_FULL)
     })"

section \<open>Typed items\<close>

datatype message_item_types = STRING | MAP | GRANT

fun item_type_code :: "message_item_types \<Rightarrow> u64" where
  "item_type_code STRING = 0"
| "item_type_code MAP = 1"
| "item_type_code GRANT = 2"

text \<open>An item is its two raw registers; the three classes share the layout type/reserved/54 bits.\<close>

type_synonym double_item = "u64 \<times> u64"

definition string_item :: double_item where
  "string_item = (set_field 0 4 (item_type_code STRING) 0, 0)"

definition string_length :: "double_item \<Rightarrow> u64" where
  "string_length it = get_field 10 54 (fst it)"

definition string_address :: "double_item \<Rightarrow> u64" where
  "string_address it = snd it"

definition map_item :: double_item where
  "map_item = (set_field 0 4 (item_type_code MAP) 0, 0)"

definition map_base :: "double_item \<Rightarrow> u64" where
  "map_base it = get_field 10 54 (fst it)"

definition map_page :: "double_item \<Rightarrow> fpage" where
  "map_page it = snd it"

definition grant_item :: double_item where
  "grant_item = (set_field 0 4 (item_type_code GRANT) 0, 0)"

definition grant_base :: "double_item \<Rightarrow> u64" where
  "grant_base it = get_field 10 54 (fst it)"

definition grant_page :: "double_item \<Rightarrow> fpage" where
  "grant_page it = snd it"

section \<open>Messages\<close>

definition REGS_PER_MESSAGE :: nat where
  "REGS_PER_MESSAGE = 64"

type_synonym message = "u64 list"

definition get_reg :: "message \<Rightarrow> nat \<Rightarrow> u64 option" where
  "get_reg m i = (if i < length m then Some (m ! i) else None)"

definition set_reg :: "nat \<Rightarrow> u64 \<Rightarrow> message \<Rightarrow> message option" where
  "set_reg i v m = (if i < length m then Some (m[i := v]) else None)"

definition new_message :: message where
  "new_message = replicate REGS_PER_MESSAGE 0"

definition message_move :: "message \<Rightarrow> message \<times> message" where
  "message_move another = (another, replicate REGS_PER_MESSAGE 0)"

definition get_tag :: "message \<Rightarrow> message_tag" where
  "get_tag m = m ! 0"

definition set_tag :: "message_tag \<Rightarrow> message \<Rightarrow> message" where
  "set_tag tag m = m[0 := tag]"

definition message_clear :: "message \<Rightarrow> message" where
  "message_clear m = set_tag 0 m"

text \<open>The loop that moves the typed items up by one register.\<close>

fun shift_typed :: "nat \<Rightarrow> nat \<Rightarrow> message \<Rightarrow> message option" where
  "shift_typed i lo m =
     (if lo < i then do {
        v \<leftarrow> get_reg m (i - 1);
        m \<leftarrow> set_reg i v m;
        shift_typed (i - 1) lo m
      } else Some m)"

declare shift_typed.simps [simp del]

definition append_untyped :: "u64 \<Rightarrow> message \<Rightarrow> message option" where
  "append_untyped item m = do {
     m \<leftarrow> (if typed_count (get_tag m) \<noteq> 0
          then shift_typed (next_typed_pos (get_tag m)) (1 + untyped_count (get_tag m)) m
          else Some m);
     let m = set_tag (inc_u (get_tag m)) m;
     set_reg (untyped_count (get_tag m)) item m
   }"

definition append_single :: "u64 \<Rightarrow> message \<Rightarrow> message option" where
  "append_single raw m = do {
     m \<leftarrow> set_reg (next_typed_pos (get_tag m)) raw m;
     Some (set_tag (inc_t (get_tag m)) m)
   }"

definition append_double :: "double_item \<Rightarrow> message \<Rightarrow> message option" where
  "append_double raw m = do {
     m \<leftarrow> set_reg (next_typed_pos (get_tag m)) (fst raw) m;
     let m = set_tag (inc_t (get_tag m)) m;
     m \<leftarrow> set_reg (next_typed_pos (get_tag m)) (snd raw) m;
     Some (set_tag (inc_t (get_tag m)) m)
   }"

definition put_untyped :: "u64 \<Rightarrow> nat \<Rightarrow> message \<Rightarrow> message option" where
  "put_untyped item index m = set_reg (untyped_count (get_tag m) + index + 1) item m"

definition put_single :: "u64 \<Rightarrow> nat \<Rightarrow> message \<Rightarrow> message option" where
  "put_single raw index m = set_reg (untyped_count (get_tag m) + index + 1) raw m"

definition put_double :: "double_item \<Rightarrow> nat \<Rightarrow> message \<Rightarrow> message option" where
  "put_double raw index m = do {
     m \<leftarrow> set_reg (untyped_count (get_tag m) + index + 1) (fst raw) m;
     set_reg (untyped_count (get_tag m) + index + 2) (snd raw) m
   }"

definition at_untyped :: "message \<Rightarrow> nat \<Rightarrow> u64 option" where
  "at_untyped m index = get_reg m (1 + index)"

definition at_single :: "message \<Rightarrow> nat \<Rightarrow> u64 option" where
  "at_single m index = get_reg m (untyped_count (get_tag m) + index)"

definition at_double :: "message \<Rightarrow> nat \<Rightarrow> double_item option" where
  "at_double m index = do {
     a \<leftarrow> get_reg m (untyped_count (get_tag m) + index);
     b \<leftarrow> get_reg m (untyped_count (get_tag m) + index + 1);
     Some (a, b)
   }"

text \<open>
  A span is a pointer and a length. The two overloads differ in the tag the length is read from;
  a span that reaches past the registers is undefined.
\<close>

definition span_length :: "message_tag \<Rightarrow> nat" where
  "span_length tag = untyped_count tag + typed_count tag"

definition get_items_span_for :: "message_tag \<Rightarrow> message \<Rightarrow> u64 list option" where
  "get_items_span_for tag m =
     (if 1 + span_length tag \<le> length m then Some (take (span_length tag) (drop 1 m)) else None)"

definition get_items_span :: "message \<Rightarrow> u64 list option" where
  "get_items_span m = get_items_span_for (get_tag m) m"

section \<open>Fields\<close>

lemmas tag_defs = untyped_count_def typed_count_def tag_flags_def tag_label_def inc_u_def inc_t_def
  set_flags_def set_label_def

lemma untyped_count_less: "untyped_count tag < 64"
  using unat_get_field_less [of 6 0 tag] by (simp add: untyped_count_def)

lemma typed_count_less: "typed_count tag < 64"
  using unat_get_field_less [of 6 6 tag] by (simp add: typed_count_def)

lemma inc_u_fields [simp]:
  "untyped_count tag < 63 \<Longrightarrow> untyped_count (inc_u tag) = Suc (untyped_count tag)"
  "typed_count (inc_u tag) = typed_count tag"
  "tag_flags (inc_u tag) = tag_flags tag"
  "tag_label (inc_u tag) = tag_label tag"
  using field_increment [of 0 6 tag] by (simp_all add: tag_defs get_set_other)

lemma inc_u_wraps: "untyped_count tag = 63 \<Longrightarrow> untyped_count (inc_u tag) = 0"
  using field_increment_wraps [of 0 6 tag] by (simp add: tag_defs)

lemma inc_t_fields [simp]:
  "typed_count tag < 63 \<Longrightarrow> typed_count (inc_t tag) = Suc (typed_count tag)"
  "untyped_count (inc_t tag) = untyped_count tag"
  "tag_flags (inc_t tag) = tag_flags tag"
  "tag_label (inc_t tag) = tag_label tag"
  using field_increment [of 6 6 tag] by (simp_all add: tag_defs get_set_other)

lemma make_fpage_fields:
  "fpage_rights (make_fpage b s r) = take_bit 4 r"
  "fpage_s (make_fpage b s r) = take_bit 6 s"
  "fpage_b_div_1024 (make_fpage b s r) = drop_bit 10 b"
proof -
  show "fpage_rights (make_fpage b s r) = take_bit 4 r" "fpage_s (make_fpage b s r) = take_bit 6 s"
    by (simp_all add: fpage_rights_def fpage_s_def make_fpage_def get_set_other get_set_same)
  show "fpage_b_div_1024 (make_fpage b s r) = drop_bit 10 b"
    unfolding fpage_b_div_1024_def make_fpage_def
    by (subst get_set_same, simp)
      (rule bit_word_eqI, auto simp: bit_take_bit_iff bit_drop_bit_eq dest: bit_imp_le_length)
qed

lemma get_base_address_make_fpage: "get_base_address (make_fpage b s r) = b AND NOT (mask 10)"
proof -
  have "get_base_address (make_fpage b s r) = push_bit 10 (drop_bit 10 b)"
    by (simp add: get_base_address_def make_fpage_fields push_bit_eq_mult mult.commute)
  also have "\<dots> = b AND NOT (mask 10)"
    by (rule bit_word_eqI)
      (auto simp: bit_push_bit_iff bit_drop_bit_eq bit_and_iff bit_not_iff bit_mask_iff)
  finally show ?thesis .
qed

section \<open>The contents of a message\<close>

text \<open>
  The abstract view of a message: the untyped items and the registers of the typed items, in
  order. The header register carries the two lengths.
\<close>

definition message_rep :: "message \<Rightarrow> u64 list \<Rightarrow> u64 list \<Rightarrow> bool" where
  "message_rep m us ts \<longleftrightarrow> (\<exists>tag rest. m = tag # us @ ts @ rest \<and> length m = REGS_PER_MESSAGE
     \<and> untyped_count tag = length us \<and> typed_count tag = length ts)"

lemma message_repE:
  assumes "message_rep m us ts"
  obtains tag rest where "m = tag # us @ ts @ rest" "length us + length ts + length rest = 63"
    "untyped_count tag = length us" "typed_count tag = length ts"
  using assms by (auto simp: message_rep_def REGS_PER_MESSAGE_def)

lemma message_repI:
  "length us + length ts + length rest = 63 \<Longrightarrow> untyped_count tag = length us \<Longrightarrow>
   typed_count tag = length ts \<Longrightarrow> message_rep (tag # us @ ts @ rest) us ts"
  by (auto simp: message_rep_def REGS_PER_MESSAGE_def)

lemma message_rep_roomE:
  assumes "message_rep m us ts" "length us + length ts < 63"
  obtains tag y rest where "m = tag # us @ ts @ y # rest" "length us + length ts + length rest = 62"
    "untyped_count tag = length us" "typed_count tag = length ts"
proof -
  obtain tag rest where m: "m = tag # us @ ts @ rest" "length us + length ts + length rest = 63"
    and "untyped_count tag = length us" "typed_count tag = length ts"
    using assms(1) by (rule message_repE)
  moreover obtain y rest' where "rest = y # rest'"
    using assms(2) m(2) by (cases rest) auto
  ultimately show ?thesis
    using that by simp
qed

lemma message_rep_tag:
  "message_rep m us ts \<Longrightarrow> untyped_count (get_tag m) = length us"
  "message_rep m us ts \<Longrightarrow> typed_count (get_tag m) = length ts"
  "message_rep m us ts \<Longrightarrow> length us + length ts \<le> 63"
  by (auto elim!: message_repE simp: get_tag_def)

lemma message_rep_span: "message_rep m us ts \<Longrightarrow> get_items_span m = Some (us @ ts)"
  by (auto elim!: message_repE simp: get_items_span_def get_items_span_for_def span_length_def get_tag_def)

lemma message_rep_new: "message_rep new_message [] []"
  using message_repI [of "[]" "[]" "replicate 63 0" 0]
  by (simp add: new_message_def REGS_PER_MESSAGE_def tag_defs numeral_eq_Suc)

lemma shift_typed_ok:
  "shift_typed (length pre + length ts) (length pre) (pre @ ts @ y # rest)
     = Some (pre @ hd (ts @ [y]) # ts @ rest)"
proof (induction ts arbitrary: y rest rule: rev_induct)
  case Nil
  show ?case
    by (simp add: shift_typed.simps)
next
  case (snoc z ts)
  have "(pre @ ts @ z # y # rest) ! (length pre + length ts) = z"
    "(pre @ ts @ z # y # rest)[Suc (length pre + length ts) := z] = pre @ ts @ z # z # rest"
    by (simp_all add: nth_append list_update_append)
  then show ?case
    using snoc.IH [of z "z # rest"]
    by (subst shift_typed.simps) (simp add: get_reg_def set_reg_def hd_append)
qed

lemma append_untyped_ok:
  assumes "message_rep m us ts" "length us + length ts < 63"
  obtains m' where "append_untyped item m = Some m'" "message_rep m' (us @ [item]) ts"
    "tag_flags (get_tag m') = tag_flags (get_tag m)" "tag_label (get_tag m') = tag_label (get_tag m)"
proof -
  obtain tag y rest where m: "m = tag # us @ ts @ y # rest"
    and len: "length us + length ts + length rest = 62"
    and tag: "untyped_count tag = length us" "typed_count tag = length ts"
    using assms by (rule message_rep_roomE)
  let ?x = "hd (ts @ [y])"
  have g: "get_tag m = tag"
    by (simp add: get_tag_def m)
  have "(if typed_count (get_tag m) \<noteq> 0
      then shift_typed (next_typed_pos (get_tag m)) (1 + untyped_count (get_tag m)) m else Some m)
      = Some (tag # us @ ?x # ts @ rest)"
    using shift_typed_ok [of "tag # us" ts y rest]
    by (auto simp: g tag next_typed_pos_def simp flip: m) (simp_all add: m)
  moreover have "length us < 63"
    using len by simp
  ultimately have "append_untyped item m = Some (inc_u tag # us @ item # ts @ rest)"
    unfolding append_untyped_def
    by (simp add: get_tag_def tag set_tag_def set_reg_def list_update_append)
  moreover have "message_rep (inc_u tag # (us @ [item]) @ ts @ rest) (us @ [item]) ts"
    using len \<open>length us < 63\<close> by (intro message_repI) (simp_all add: tag)
  ultimately show ?thesis
    using that by (simp add: get_tag_def m)
qed

lemma append_single_ok:
  assumes "message_rep m us ts" "length us + length ts < 63"
  obtains m' where "append_single raw m = Some m'" "message_rep m' us (ts @ [raw])"
    "tag_flags (get_tag m') = tag_flags (get_tag m)" "tag_label (get_tag m') = tag_label (get_tag m)"
proof -
  obtain tag y rest where m: "m = tag # us @ ts @ y # rest"
    and len: "length us + length ts + length rest = 62"
    and tag: "untyped_count tag = length us" "typed_count tag = length ts"
    using assms by (rule message_rep_roomE)
  have "append_single raw m = Some (inc_t tag # us @ ts @ raw # rest)"
    using len by (simp add: append_single_def get_tag_def m tag next_typed_pos_def set_tag_def
        set_reg_def list_update_append)
  moreover have "message_rep (inc_t tag # us @ (ts @ [raw]) @ rest) us (ts @ [raw])"
    using len by (intro message_repI) (simp_all add: tag)
  ultimately show ?thesis
    using that by (simp add: get_tag_def m)
qed

lemma append_double_single:
  "append_double raw m = append_single (fst raw) m \<bind> append_single (snd raw)"
  by (auto simp: append_double_def append_single_def Let_def split: bind_split)

lemma message_append_refines_parts:
  assumes "message_rep m us ts"
  shows "length us + length ts < 63 \<Longrightarrow> \<exists>m'. append_untyped x m = Some m' \<and> message_rep m' (us @ [x]) ts
      \<and> get_items_span m' = Some (us @ [x] @ ts)
      \<and> tag_flags (get_tag m') = tag_flags (get_tag m) \<and> tag_label (get_tag m') = tag_label (get_tag m)"
    and "length us + length ts < 63 \<Longrightarrow> \<exists>m'. append_single x m = Some m' \<and> message_rep m' us (ts @ [x])
      \<and> get_items_span m' = Some (us @ ts @ [x])
      \<and> tag_flags (get_tag m') = tag_flags (get_tag m) \<and> tag_label (get_tag m') = tag_label (get_tag m)"
    and "length us + length ts < 62 \<Longrightarrow> \<exists>m'. append_double (x, y) m = Some m' \<and> message_rep m' us (ts @ [x, y])
      \<and> get_items_span m' = Some (us @ ts @ [x, y])
      \<and> tag_flags (get_tag m') = tag_flags (get_tag m) \<and> tag_label (get_tag m') = tag_label (get_tag m)"
proof -
  show "length us + length ts < 63 \<Longrightarrow> \<exists>m'. append_untyped x m = Some m' \<and> message_rep m' (us @ [x]) ts
      \<and> get_items_span m' = Some (us @ [x] @ ts)
      \<and> tag_flags (get_tag m') = tag_flags (get_tag m) \<and> tag_label (get_tag m') = tag_label (get_tag m)"
    using append_untyped_ok [OF assms] message_rep_span by (metis append_assoc)
  show "length us + length ts < 63 \<Longrightarrow> \<exists>m'. append_single x m = Some m' \<and> message_rep m' us (ts @ [x])
      \<and> get_items_span m' = Some (us @ ts @ [x])
      \<and> tag_flags (get_tag m') = tag_flags (get_tag m) \<and> tag_label (get_tag m') = tag_label (get_tag m)"
    using append_single_ok [OF assms] message_rep_span by metis
  assume "length us + length ts < 62"
  then obtain m1 where 1: "append_single x m = Some m1" "message_rep m1 us (ts @ [x])"
    "tag_flags (get_tag m1) = tag_flags (get_tag m)" "tag_label (get_tag m1) = tag_label (get_tag m)"
    using append_single_ok [OF assms, of x] by auto
  obtain m2 where "append_single y m1 = Some m2" "message_rep m2 us ((ts @ [x]) @ [y])"
    "tag_flags (get_tag m2) = tag_flags (get_tag m1)" "tag_label (get_tag m2) = tag_label (get_tag m1)"
    using append_single_ok [OF 1(2), of y] \<open>length us + length ts < 62\<close> by auto
  then show "\<exists>m'. append_double (x, y) m = Some m' \<and> message_rep m' us (ts @ [x, y])
      \<and> get_items_span m' = Some (us @ ts @ [x, y])
      \<and> tag_flags (get_tag m') = tag_flags (get_tag m) \<and> tag_label (get_tag m') = tag_label (get_tag m)"
    using 1 message_rep_span [of m2] by (simp add: append_double_single)
qed

text \<open>
  C14. The three \<^verbatim>\<open>append\<close> overloads of \<^verbatim>\<open>message\<close> refine appending to the
  abstract contents: while there is room, an untyped item goes behind the untyped ones, with the
  typed items moved up unharmed, a single or a double item goes behind the typed ones, and the
  span handed to the kernel is the untyped items followed by the typed registers. Flags and label
  of the tag stay as they are.
\<close>

theorem message_append_refines:
  assumes "message_rep m us ts"
  shows "(length us + length ts < 63 \<longrightarrow> (\<exists>m'. append_untyped x m = Some m' \<and> message_rep m' (us @ [x]) ts
        \<and> get_items_span m' = Some (us @ [x] @ ts)
        \<and> tag_flags (get_tag m') = tag_flags (get_tag m) \<and> tag_label (get_tag m') = tag_label (get_tag m)))
   \<and> (length us + length ts < 63 \<longrightarrow> (\<exists>m'. append_single x m = Some m' \<and> message_rep m' us (ts @ [x])
        \<and> get_items_span m' = Some (us @ ts @ [x])
        \<and> tag_flags (get_tag m') = tag_flags (get_tag m) \<and> tag_label (get_tag m') = tag_label (get_tag m)))
   \<and> (length us + length ts < 62 \<longrightarrow> (\<exists>m'. append_double (x, y) m = Some m' \<and> message_rep m' us (ts @ [x, y])
        \<and> get_items_span m' = Some (us @ ts @ [x, y])
        \<and> tag_flags (get_tag m') = tag_flags (get_tag m) \<and> tag_label (get_tag m') = tag_label (get_tag m)))"
  by (intro conjI impI; rule message_append_refines_parts [OF assms]; assumption)

theorem message_append_refines_witness:
  "message_rep new_message [] [] \<and> (\<exists>m. append_untyped 7 new_message = Some m \<and> message_rep m [7] [])
   \<and> (\<exists>m. append_double (2, 9) new_message = Some m \<and> get_items_span m = Some [2, 9])"
  using message_append_refines [OF message_rep_new, of 7]
    message_append_refines [OF message_rep_new, of 2 9] message_rep_new by auto

text \<open>
  C29. \<^verbatim>\<open>put\<close> and \<^verbatim>\<open>at\<close> disagree on the position of a typed item: \<^verbatim>\<open>put\<close>
  stores item \<open>i\<close> in the register in which the appended item \<open>i\<close> lives, \<^verbatim>\<open>at\<close>
  reads one register lower. So \<^verbatim>\<open>at\<close> at \<open>i + 1\<close> returns what was put at \<open>i\<close>,
  and \<^verbatim>\<open>at\<close> at 0 returns the last untyped item, or the tag when there is none.
\<close>

theorem message_at_off_by_one:
  assumes "message_rep m us ts" "i < length ts"
  shows "\<exists>m'. put_single x i m = Some m' \<and> message_rep m' us (ts[i := x])
      \<and> at_single m' (i + 1) = Some x \<and> at_single m' 0 = Some (last (get_tag m # us))"
proof -
  obtain tag rest where m: "m = tag # us @ ts @ rest"
    and len: "length us + length ts + length rest = 63"
    and tag: "untyped_count tag = length us" "typed_count tag = length ts"
    using assms(1) by (rule message_repE)
  let ?m = "tag # us @ ts[i := x] @ rest"
  have "put_single x i m = Some ?m"
    using assms(2) by (simp add: put_single_def set_reg_def m get_tag_def tag list_update_append)
  moreover have "message_rep ?m us (ts[i := x])"
    using len by (intro message_repI) (simp_all add: tag)
  moreover have "at_single ?m (i + 1) = Some x"
    using assms(2) by (simp add: at_single_def get_reg_def get_tag_def tag nth_append)
  moreover have "at_single ?m 0 = Some (last (get_tag m # us))"
    by (cases us rule: rev_cases) (simp_all add: at_single_def get_reg_def get_tag_def tag m nth_append)
  ultimately show ?thesis
    by blast
qed

theorem message_at_off_by_one_witness:
  "\<exists>m m'. append_single 5 new_message = Some m \<and> put_single 6 0 m = Some m'
     \<and> at_single m' 1 = Some 6 \<and> at_single m' 0 = Some (get_tag m)"
proof -
  obtain m where "append_single 5 new_message = Some m" "message_rep m [] [5]"
    using append_single_ok [OF message_rep_new, of 5] by auto
  then show ?thesis
    using message_at_off_by_one [of m "[]" "[5]" 0 6] by auto
qed

text \<open>
  C32. A 64th untyped item destroys the message: the six-bit counter wraps and the item lands in
  register 0, over the tag. With a typed item present the same call writes past the registers.
\<close>

theorem message_append_overflow:
  assumes "message_rep m us ts" "length us + length ts = 63"
  shows "append_untyped x m = (if ts = [] then Some (x # us) else None)"
proof -
  obtain tag where m: "m = tag # us @ ts"
    and tag: "untyped_count tag = length us" "typed_count tag = length ts"
    using assms by (elim message_repE) auto
  show ?thesis
  proof (cases "ts = []")
    case True
    then have "untyped_count tag = 63"
      using assms(2) tag by simp
    then show ?thesis
      using True tag inc_u_wraps [of tag]
      by (simp add: append_untyped_def m get_tag_def set_tag_def set_reg_def)
  next
    case False
    then have "0 < length ts"
      by simp
    then have "length us < 63"
      using assms(2) by linarith
    then have "shift_typed 64 (Suc (length us)) m = None"
      using assms(2)
      by (subst shift_typed.simps) (auto simp: get_reg_def set_reg_def m)
    then show ?thesis
      using False tag assms(2) by (simp add: append_untyped_def m get_tag_def next_typed_pos_def)
  qed
qed

theorem message_append_overflow_witness:
  "append_untyped 5 (63 # replicate 63 0) = Some (5 # replicate 63 0)"
proof -
  have "message_rep (63 # replicate 63 0) (replicate 63 0) []"
    using message_repI [of "replicate 63 0" "[]" "[]" 63]
    by (simp add: tag_defs get_field_def take_bit_eq_mod drop_bit_eq_div)
  then show ?thesis
    using message_append_overflow [of "63 # replicate 63 0" "replicate 63 0" "[]" 5] by simp
qed

lemma fpage_fields_and_rights_parts:
  "get_base_address (make_fpage b s r) = b AND NOT (mask 10)"
  "s < 64 \<Longrightarrow> get_size (make_fpage b s r) = 2 ^ unat s"
  "r < 16 \<Longrightarrow> check_rights (make_fpage b s r) q \<longleftrightarrow> q AND r = q"
  "\<not> check_rights (make_fpage b s AR_FULL) AR_R"
  "\<not> check_rights (make_fpage b s AR_RW) AR_R \<and> check_rights (make_fpage b s AR_RW) AR_X"
proof -
  have small: "take_bit 6 s = s" if "s < 64"
    using that by (simp add: word_unat_eq_iff unat_take_bit_mod word_less_nat_alt)
  have small': "take_bit 4 r = r" if "r < 16"
    using that by (simp add: word_unat_eq_iff unat_take_bit_mod word_less_nat_alt)
  show "get_base_address (make_fpage b s r) = b AND NOT (mask 10)"
    by (rule get_base_address_make_fpage)
  show "s < 64 \<Longrightarrow> get_size (make_fpage b s r) = 2 ^ unat s"
    by (simp add: get_size_def make_fpage_fields small push_bit_eq_mult)
  show "r < 16 \<Longrightarrow> check_rights (make_fpage b s r) q \<longleftrightarrow> q AND r = q"
    by (simp add: check_rights_def make_fpage_fields small')
  show "\<not> check_rights (make_fpage b s AR_FULL) AR_R"
    "\<not> check_rights (make_fpage b s AR_RW) AR_R \<and> check_rights (make_fpage b s AR_RW) AR_X"
    by (simp_all add: check_rights_def make_fpage_fields access_rights_defs)
qed

text \<open>
  C27. A flexpage keeps what it is built from: the base address rounded down to 1 KiB, the size
  exponent and the rights. \<^verbatim>\<open>AR_FULL\<close> is misspelt and lacks the read right, so a page
  with full rights fails the test for reading, and \<^verbatim>\<open>AR_RW\<close> allows execution instead
  of reading.
\<close>

theorem fpage_fields_and_rights:
  shows "(get_base_address (make_fpage b s r) = b AND NOT (mask 10))
   \<and> (s < 64 \<longrightarrow> get_size (make_fpage b s r) = 2 ^ unat s)
   \<and> (r < 16 \<longrightarrow> (check_rights (make_fpage b s r) q \<longleftrightarrow> q AND r = q))
   \<and> (\<not> check_rights (make_fpage b s AR_FULL) AR_R)
   \<and> (\<not> check_rights (make_fpage b s AR_RW) AR_R \<and> check_rights (make_fpage b s AR_RW) AR_X)"
  using fpage_fields_and_rights_parts by simp

theorem fpage_fields_and_rights_witness:
  "get_size (make_fpage 0x400000 21 AR_FULL) = 2 ^ 21 \<and> (3 :: u64) < 16
   \<and> \<not> check_rights (make_fpage 0x400000 21 3) 4"
  using fpage_fields_and_rights [of "0x400000" 21 AR_FULL]
    fpage_fields_and_rights [of "0x400000" 21 3 4] by simp

end
