(* ===== verification/Ipc_State.thy ===== *)
theory Ipc_State
  imports Ipc_Message
begin

text \<open>
  Message passing between threads (\<^verbatim>\<open>kern/task/thread/ipc_state.cc\<close>,
  \<^verbatim>\<open>include/task/thread/ipc_state.hpp\<close>). Every thread has one set of message registers, used
  both for what it sends and for what it receives, and two semaphores: \<^verbatim>\<open>e_\<close> counts free
  places for a message and starts at 1, \<^verbatim>\<open>f_\<close> counts messages to be read. Waiting on a
  semaphore parks the thread until the count is positive, and a wait that ends with its deadline
  instead is a panic. The operations below are what happens once the count is positive; on a count
  of zero \<open>sem_down\<close>, and with it the operation, has no result.
\<close>

unbundle bit_operations_syntax

section \<open>State\<close>

definition MR_SIZE :: nat where "MR_SIZE = 64"
definition BR_SIZE :: nat where "BR_SIZE = 33"

record ipc_state =
  mr :: "u64 list"
  mr_count :: nat
  br :: "u64 list"
  br_count :: nat
  sender :: "nat option"
  f_count :: nat
  e_count :: nat

definition new_ipc_state :: ipc_state where
  "new_ipc_state = \<lparr>mr = replicate MR_SIZE 0, mr_count = 0, br = replicate BR_SIZE 0, br_count = 0,
     sender = None, f_count = 0, e_count = 1\<rparr>"

type_synonym ipc_system = "nat \<Rightarrow> ipc_state"

definition sem_down :: "nat \<Rightarrow> nat option" where
  "sem_down n = (if n > 0 then Some (n - 1) else None)"

section \<open>Registers\<close>

definition get_message_tag :: "ipc_state \<Rightarrow> message_tag" where
  "get_message_tag s = mr s ! 0"

definition get_acceptor :: "ipc_state \<Rightarrow> message_acceptor" where
  "get_acceptor s = br s ! 0"

definition set_message_tag_locked :: "message_tag \<Rightarrow> ipc_state \<Rightarrow> ipc_state" where
  "set_message_tag_locked tag s = s\<lparr>mr := (mr s)[0 := tag], mr_count := 1\<rparr>"

definition set_acceptor :: "message_acceptor \<Rightarrow> ipc_state \<Rightarrow> ipc_state" where
  "set_acceptor acc s = s\<lparr>br := (br s)[0 := acc], br_count := 1\<rparr>"

definition get_mr :: "nat \<Rightarrow> ipc_state \<Rightarrow> u64 option" where
  "get_mr i s = (if i < length (mr s) then Some (mr s ! i) else None)"

text \<open>A block copy into registers from \<open>st\<close> on; past the end of the array it is undefined.\<close>

definition memmove_at :: "nat \<Rightarrow> u64 list \<Rightarrow> u64 list \<Rightarrow> u64 list option" where
  "memmove_at st xs regs =
     (if st + length xs \<le> length regs then Some (take st regs @ xs @ drop (st + length xs) regs) else None)"

definition copy_mrs_to :: "nat \<Rightarrow> nat \<Rightarrow> nat \<Rightarrow> nat \<Rightarrow> ipc_system \<Rightarrow> ipc_system option" where
  "copy_mrs_to from another st cnt S = do {
     kassert (st + cnt \<le> length (mr (S from)));
     regs \<leftarrow> memmove_at st (take cnt (drop st (mr (S from)))) (mr (S another));
     Some (S(another := (S another)\<lparr>mr := regs\<rparr>))
   }"

definition load_mrs :: "nat \<Rightarrow> u64 list \<Rightarrow> ipc_state \<Rightarrow> ipc_state option" where
  "load_mrs start mrs s = do { regs \<leftarrow> memmove_at start mrs (mr s); Some (s\<lparr>mr := regs\<rparr>) }"

text \<open>\<open>n\<close> registers are stored over the items of a message, which start at its register 1.\<close>

definition store_mrs :: "nat \<Rightarrow> nat \<Rightarrow> ipc_state \<Rightarrow> message \<Rightarrow> message option" where
  "store_mrs start n s msg = do {
     kassert (start + n \<le> length (mr s));
     memmove_at 1 (take n (drop start (mr s))) msg
   }"

section \<open>Sending and receiving\<close>

text \<open>
  \<open>send_extended_items\<close> is called by \<open>send\<close> only, with \<^verbatim>\<open>lock_\<close> held, and its loop takes the
  same lock for every item it transfers: the lock panics, so the first such item is the end and
  what the loop does behind the acquisition is never reached.
\<close>

definition item_type :: "u64 \<Rightarrow> message_item_types option" where
  "item_type m = (if (m AND 0xF) = item_type_code MAP then Some MAP
     else if (m AND 0xF) = item_type_code GRANT then Some GRANT
     else if (m AND 0xF) = item_type_code STRING then Some STRING else None)"

definition send_extended_items :: "nat \<Rightarrow> nat \<Rightarrow> ipc_system \<Rightarrow> error_code option" where
  "send_extended_items from dst S = (
     let tag = get_message_tag (S from); idx = untyped_count tag + 1
     in if idx < typed_count tag then do {
          m \<leftarrow> get_mr idx (S from);
          case item_type m of
            Some MAP \<Rightarrow> None
          | Some GRANT \<Rightarrow> None
          | Some STRING \<Rightarrow>
              (if \<not> allow_string (get_acceptor (S dst)) then Some (- code_of ERROR_INVALID) else None)
          | None \<Rightarrow> Some (- code_of ERROR_INVALID)
        } else Some (code_of ERROR_SUCCESS))"

definition send :: "nat \<Rightarrow> nat \<Rightarrow> ipc_system \<Rightarrow> (error_code \<times> ipc_system) option" where
  "send from dst S = do {
     e \<leftarrow> sem_down (e_count (S dst));
     let S = S(dst := (S dst)\<lparr>e_count := e, sender := Some from\<rparr>);
     S \<leftarrow> copy_mrs_to from dst 0 MR_SIZE S;
     err \<leftarrow> send_extended_items from dst S;
     if err \<noteq> code_of ERROR_SUCCESS then Some (err, S)
     else Some (code_of ERROR_SUCCESS, S(dst := (S dst)\<lparr>f_count := f_count (S dst) + 1\<rparr>))
   }"

definition nonempty_tag :: "message_tag \<Rightarrow> bool" where
  "nonempty_tag tag \<longleftrightarrow> typed_count tag \<noteq> 0 \<or> untyped_count tag \<noteq> 0"

definition receive :: "nat \<Rightarrow> nat \<Rightarrow> ipc_system \<Rightarrow> (error_code \<times> ipc_system) option" where
  "receive t from S = do {
     f \<leftarrow> sem_down (f_count (S t));
     let S = S(t := (S t)\<lparr>f_count := f\<rparr>);
     kassert (nonempty_tag (get_message_tag (S t)));
     if sender (S t) \<noteq> Some from then Some (- code_of ERROR_IPC_NOT_THE_SENDER, S)
     else Some (code_of ERROR_SUCCESS, S)
   }"

definition wait_any :: "nat \<Rightarrow> ipc_system \<Rightarrow> (error_code \<times> ipc_system) option" where
  "wait_any t S = do {
     f \<leftarrow> sem_down (f_count (S t));
     let S = S(t := (S t)\<lparr>f_count := f\<rparr>);
     kassert (nonempty_tag (get_message_tag (S t)));
     Some (code_of ERROR_SUCCESS, S)
   }"

definition load_message :: "nat \<Rightarrow> message \<Rightarrow> ipc_system \<Rightarrow> ipc_system option" where
  "load_message t msg S = do {
     items \<leftarrow> get_items_span msg;
     s \<leftarrow> load_mrs 1 items (set_message_tag_locked (get_tag msg) (S t));
     Some (S(t := s))
   }"

definition store_message :: "nat \<Rightarrow> message \<Rightarrow> ipc_system \<Rightarrow> (message \<times> ipc_system) option" where
  "store_message t msg S = do {
     let tag = get_message_tag (S t);
     msg \<leftarrow> store_mrs 1 (span_length tag) (S t) (set_tag tag msg);
     Some (msg, S(t := (S t)\<lparr>e_count := e_count (S t) + 1\<rparr>))
   }"

section \<open>Loading and storing\<close>

definition regs_ok :: "ipc_state \<Rightarrow> bool" where
  "regs_ok s \<longleftrightarrow> length (mr s) = MR_SIZE"

lemma load_message_ok:
  assumes "message_rep m us ts" "regs_ok (S t)"
  obtains s rest where "load_message t m S = Some (S(t := s))" "mr s = get_tag m # us @ ts @ rest" "regs_ok s"
    "e_count s = e_count (S t)" "f_count s = f_count (S t)" "sender s = sender (S t)" "br s = br (S t)"
proof -
  let ?k = "1 + length us + length ts"
  have k: "?k \<le> 64" and sp: "get_items_span m = Some (us @ ts)"
    using message_rep_tag(3) [OF assms(1)] message_rep_span [OF assms(1)] by auto
  let ?s = "(S t)\<lparr>mr := get_tag m # us @ ts @ drop ?k (mr (S t)), mr_count := 1\<rparr>"
  obtain x xs where x: "mr (S t) = x # xs" "length xs = 63"
    using assms(2) by (cases "mr (S t)") (auto simp: regs_ok_def MR_SIZE_def)
  have "load_mrs 1 (us @ ts) (set_message_tag_locked (get_tag m) (S t)) = Some ?s"
    using k x by (simp add: load_mrs_def memmove_at_def set_message_tag_locked_def)
  then have "load_message t m S = Some (S(t := ?s))"
    using sp by (simp add: load_message_def)
  then show ?thesis
    using that [of ?s "drop ?k (mr (S t))"] k x by (simp add: regs_ok_def MR_SIZE_def)
qed

lemma store_message_ok:
  assumes "mr (S t) = tag # us @ ts @ rest" "untyped_count tag = length us" "typed_count tag = length ts"
    "regs_ok (S t)" "length d = REGS_PER_MESSAGE"
  obtains d' where "store_message t d S = Some (d', S(t := (S t)\<lparr>e_count := e_count (S t) + 1\<rparr>))"
    "message_rep d' us ts" "get_tag d' = tag"
proof -
  obtain y ys where d: "d = y # ys" "length ys = 63"
    using assms(5) by (cases d) (auto simp: REGS_PER_MESSAGE_def)
  have len: "length us + length ts + length rest = 63"
    using assms(1,4) by (simp add: regs_ok_def MR_SIZE_def)
  let ?d = "tag # us @ ts @ drop (length us + length ts) ys"
  have "store_message t d S = Some (?d, S(t := (S t)\<lparr>e_count := e_count (S t) + 1\<rparr>))"
    using assms(1-3) len d
    by (simp add: store_message_def store_mrs_def memmove_at_def get_message_tag_def span_length_def set_tag_def)
  moreover have "message_rep ?d us ts"
    using len d by (intro message_repI) (simp_all add: assms(2,3))
  ultimately show ?thesis
    using that [of ?d] by (simp add: get_tag_def)
qed

lemma send_ok:
  assumes "mr (S a) = tag # us @ ts @ rest" "untyped_count tag = length us" "typed_count tag = length ts"
    "regs_ok (S a)" "regs_ok (S b)" "e_count (S b) > 0" "a \<noteq> b" "length ts \<le> length us + 1"
  shows "send a b S = Some (0, S(b := (S b)\<lparr>e_count := e_count (S b) - 1, sender := Some a, mr := mr (S a),
      f_count := f_count (S b) + 1\<rparr>))"
proof -
  let ?S = "S(b := (S b)\<lparr>e_count := e_count (S b) - 1, sender := Some a\<rparr>)"
  have "copy_mrs_to a b 0 MR_SIZE ?S = Some (?S(b := (?S b)\<lparr>mr := mr (S a)\<rparr>))"
    using assms(4,5,7) by (simp add: copy_mrs_to_def memmove_at_def regs_ok_def)
  moreover have "send_extended_items a b (?S(b := (?S b)\<lparr>mr := mr (S a)\<rparr>)) = Some 0"
    using assms(1-3,7,8) by (simp add: send_extended_items_def get_message_tag_def)
  ultimately show ?thesis
    using assms(6) by (simp add: send_def sem_down_def)
qed

lemma append_single_item:
  obtains m where "append_untyped item new_message = Some m" "message_rep m [item] []"
  by (rule append_untyped_ok [OF message_rep_new, of item]) (simp_all add: that)

lemma store_new_state:
  obtains m where "store_message t new_message (\<lambda>_. new_ipc_state)
    = Some (m, (\<lambda>_. new_ipc_state)(t := new_ipc_state\<lparr>e_count := e_count new_ipc_state + 1\<rparr>))"
proof (rule store_message_ok [of "\<lambda>_. new_ipc_state" t 0 "[]" "[]" "replicate 63 0" new_message])
  show "mr new_ipc_state = 0 # [] @ [] @ replicate 63 0"
    by (simp add: new_ipc_state_def MR_SIZE_def numeral_eq_Suc)
  show "untyped_count 0 = length []" "typed_count 0 = length []"
    by (simp_all add: tag_defs get_field_def)
  show "regs_ok new_ipc_state" "length new_message = REGS_PER_MESSAGE"
    by (simp_all add: regs_ok_def new_ipc_state_def new_message_def)
qed (rule that)

section \<open>Properties\<close>

text \<open>
  C5. A message gets through: what the sender loads is, after send and receive, what the receiver
  stores, with the same tag and the same untyped and typed registers, and the mailbox is free
  again. The typed part may be one register longer than the untyped one at most: beyond that the
  kernel looks at the typed items, see the next property.
\<close>

theorem ipc_delivery:
  assumes "message_rep m us ts" "us @ ts \<noteq> []" "length ts \<le> length us + 1" "a \<noteq> b"
    "regs_ok (S a)" "regs_ok (S b)" "e_count (S b) > 0" "length d = REGS_PER_MESSAGE"
  shows "\<exists>S1 S2 S3 S4 d'. load_message a m S = Some S1 \<and> send a b S1 = Some (0, S2) \<and> receive b a S2 = Some (0, S3)
      \<and> store_message b d S3 = Some (d', S4) \<and> message_rep d' us ts \<and> get_tag d' = get_tag m
      \<and> e_count (S4 b) = e_count (S b) \<and> f_count (S4 b) = f_count (S b)"
proof -
  have tag: "untyped_count (get_tag m) = length us" "typed_count (get_tag m) = length ts"
    using message_rep_tag [OF assms(1)] by auto
  obtain s rest where 1: "load_message a m S = Some (S(a := s))" "mr s = get_tag m # us @ ts @ rest" "regs_ok s"
    by (rule load_message_ok [where S = S and t = a, OF assms(1,5)])
  let ?S1 = "S(a := s)"
  let ?b = "(S b)\<lparr>e_count := e_count (S b) - 1, sender := Some a, mr := mr s, f_count := f_count (S b) + 1\<rparr>"
  have 2: "send a b ?S1 = Some (0, ?S1(b := ?b))"
    using send_ok [of ?S1 a "get_tag m" us ts rest b] 1 tag assms(3-7) by simp
  let ?S3 = "?S1(b := ?b\<lparr>f_count := f_count (S b)\<rparr>)"
  have "nonempty_tag (get_tag m)"
    using assms(2) tag by (auto simp: nonempty_tag_def)
  then have 3: "receive b a (?S1(b := ?b)) = Some (0, ?S3)"
    using 1(2) by (simp add: receive_def sem_down_def get_message_tag_def)
  have r: "mr (?S3 b) = get_tag m # us @ ts @ rest" "regs_ok (?S3 b)"
    using 1(2,3) by (simp_all add: regs_ok_def)
  obtain d' where 4: "store_message b d ?S3 = Some (d', ?S3(b := (?S3 b)\<lparr>e_count := e_count (?S3 b) + 1\<rparr>))"
    "message_rep d' us ts" "get_tag d' = get_tag m"
    by (rule store_message_ok [where S = ?S3 and t = b, OF r(1) tag r(2) assms(8)])
  show ?thesis
    using 1(1) 2 3 4 assms(7) by (intro exI conjI) (assumption | simp)+
qed

theorem ipc_delivery_witness:
  "\<exists>m S1 S2 S3 S4 d'. append_untyped 7 new_message = Some m \<and> load_message 0 m (\<lambda>_. new_ipc_state) = Some S1
     \<and> send 0 1 S1 = Some (0, S2) \<and> receive 1 0 S2 = Some (0, S3) \<and> store_message 1 new_message S3 = Some (d', S4)
     \<and> get_items_span d' = Some [7]"
proof -
  obtain m where m: "append_untyped 7 new_message = Some m" "message_rep m [7] []"
    by (rule append_single_item)
  have "regs_ok new_ipc_state" "length new_message = REGS_PER_MESSAGE" "e_count new_ipc_state > 0"
    by (simp_all add: regs_ok_def new_ipc_state_def new_message_def)
  then obtain S1 S2 S3 S4 d' where "load_message 0 m (\<lambda>_. new_ipc_state) = Some S1" "send 0 1 S1 = Some (0, S2)"
    "receive 1 0 S2 = Some (0, S3)" "store_message 1 new_message S3 = Some (d', S4)" "message_rep d' [7] []"
    using ipc_delivery [of m "[7]" "[]" 0 1 "\<lambda>_. new_ipc_state" new_message] m(2) by auto
  moreover from this(5) have "get_items_span d' = Some [7]"
    by (auto dest: message_rep_span)
  ultimately show ?thesis
    using m(1) by blast
qed

text \<open>
  C36. The registers of a thread serve both directions: a thread that loads a message to send while
  one is waiting for it loses the waiting one. It then receives, with success and under the name
  of the sender, the message it has just loaded itself.
\<close>

theorem ipc_pending_overwritten:
  assumes "message_rep m us ts" "us @ ts \<noteq> []" "regs_ok (S b)" "f_count (S b) > 0" "sender (S b) = Some a"
    "length d = REGS_PER_MESSAGE"
  shows "\<exists>S1 S2 S3 d'. load_message b m S = Some S1 \<and> receive b a S1 = Some (0, S2)
      \<and> store_message b d S2 = Some (d', S3) \<and> message_rep d' us ts"
proof -
  have tag: "untyped_count (get_tag m) = length us" "typed_count (get_tag m) = length ts"
    using message_rep_tag [OF assms(1)] by auto
  obtain s rest where 1: "load_message b m S = Some (S(b := s))" "mr s = get_tag m # us @ ts @ rest" "regs_ok s"
    "f_count s = f_count (S b)" "sender s = sender (S b)"
    by (rule load_message_ok [where S = S and t = b, OF assms(1,3)])
  let ?S2 = "S(b := s\<lparr>f_count := f_count (S b) - 1\<rparr>)"
  have "nonempty_tag (get_tag m)"
    using assms(2) tag by (auto simp: nonempty_tag_def)
  then have 2: "receive b a (S(b := s)) = Some (0, ?S2)"
    using 1 assms(4,5) by (simp add: receive_def sem_down_def get_message_tag_def)
  have r: "mr (?S2 b) = get_tag m # us @ ts @ rest" "regs_ok (?S2 b)"
    using 1(2,3) by (simp_all add: regs_ok_def)
  obtain d' where "store_message b d ?S2 = Some (d', ?S2(b := (?S2 b)\<lparr>e_count := e_count (?S2 b) + 1\<rparr>))"
    "message_rep d' us ts"
    by (rule store_message_ok [where S = ?S2 and t = b, OF r(1) tag r(2) assms(6)])
  then show ?thesis
    using 1(1) 2 by blast
qed

theorem ipc_pending_overwritten_witness:
  "\<exists>m S1 S2 S3 d'. append_untyped 7 new_message = Some m
     \<and> load_message 1 m (\<lambda>_. new_ipc_state\<lparr>f_count := 1, e_count := 0, sender := Some 0\<rparr>) = Some S1
     \<and> receive 1 0 S1 = Some (0, S2) \<and> store_message 1 new_message S2 = Some (d', S3) \<and> get_items_span d' = Some [7]"
proof -
  obtain m where m: "append_untyped 7 new_message = Some m" "message_rep m [7] []"
    by (rule append_single_item)
  have "length new_message = REGS_PER_MESSAGE" "regs_ok (new_ipc_state\<lparr>f_count := 1, e_count := 0, sender := Some 0\<rparr>)"
    by (simp_all add: regs_ok_def new_ipc_state_def new_message_def)
  then obtain S1 S2 S3 d' where
    "load_message 1 m (\<lambda>_. new_ipc_state\<lparr>f_count := 1, e_count := 0, sender := Some 0\<rparr>) = Some S1"
    "receive 1 0 S1 = Some (0, S2)" "store_message 1 new_message S2 = Some (d', S3)" "message_rep d' [7] []"
    using ipc_pending_overwritten [of m "[7]" "[]" "\<lambda>_. new_ipc_state\<lparr>f_count := 1, e_count := 0, sender := Some 0\<rparr>" 1 0 new_message]
      m(2) by auto
  moreover from this(4) have "get_items_span d' = Some [7]"
    by (auto dest: message_rep_span)
  ultimately show ?thesis
    using m(1) by blast
qed

section \<open>The mailbox token\<close>

text \<open>
  The operations as steps. \<open>R\<close> holds the threads that have received a message and not stored it
  yet; storing is what a receiver does next.
\<close>

inductive ipc_step :: "ipc_system \<times> nat set \<Rightarrow> ipc_system \<times> nat set \<Rightarrow> bool" where
  i_load: "load_message t m S = Some S' \<Longrightarrow> ipc_step (S, R) (S', R)"
| i_send: "send a b S = Some (e, S') \<Longrightarrow> ipc_step (S, R) (S', R)"
| i_receive: "t \<notin> R \<Longrightarrow> receive t a S = Some (0, S') \<Longrightarrow> ipc_step (S, R) (S', insert t R)"
| i_refuse: "t \<notin> R \<Longrightarrow> receive t a S = Some (e, S') \<Longrightarrow> e \<noteq> 0 \<Longrightarrow> ipc_step (S, R) (S', R)"
| i_wait: "t \<notin> R \<Longrightarrow> wait_any t S = Some (0, S') \<Longrightarrow> ipc_step (S, R) (S', insert t R)"
| i_store: "t \<in> R \<Longrightarrow> store_message t m S = Some (m', S') \<Longrightarrow> ipc_step (S, R) (S', R - {t})"

inductive_cases ipc_stepE: "ipc_step x y"

definition tokens :: "nat \<Rightarrow> ipc_system \<times> nat set \<Rightarrow> nat" where
  "tokens t x = e_count (fst x t) + f_count (fst x t) + (if t \<in> snd x then 1 else 0)"

lemma copy_mrs_counts:
  "copy_mrs_to a b st n S = Some S' \<Longrightarrow> e_count (S' t) = e_count (S t) \<and> f_count (S' t) = f_count (S t)"
  by (auto simp: copy_mrs_to_def split: bind_splits)

lemma load_counts:
  "load_message u m S = Some S' \<Longrightarrow> e_count (S' t) = e_count (S t) \<and> f_count (S' t) = f_count (S t)"
  by (auto simp: load_message_def load_mrs_def set_message_tag_locked_def split: bind_splits)

lemma send_counts:
  assumes "send a b S = Some (e, S')"
  shows "e_count (S' t) + f_count (S' t) \<le> e_count (S t) + f_count (S t)"
    and "e \<noteq> 0 \<Longrightarrow> e_count (S' b) + f_count (S' b) < e_count (S b) + f_count (S b)"
proof -
  let ?S = "\<lambda>c. S(b := (S b)\<lparr>e_count := c, sender := Some a\<rparr>)"
  obtain S1 where 1: "e_count (S b) > 0" "copy_mrs_to a b 0 MR_SIZE (?S (e_count (S b) - 1)) = Some S1"
    "S' = (if e \<noteq> 0 then S1 else S1(b := (S1 b)\<lparr>f_count := f_count (S1 b) + 1\<rparr>))"
    using assms by (auto simp: send_def sem_down_def split: bind_splits if_splits)
  have c: "e_count (S1 t) = e_count (?S (e_count (S b) - 1) t)" "f_count (S1 t) = f_count (?S (e_count (S b) - 1) t)" for t
    using copy_mrs_counts [OF 1(2)] by auto
  show "e_count (S' t) + f_count (S' t) \<le> e_count (S t) + f_count (S t)"
    using 1(1,3) c [of t] by (auto split: if_splits)
  show "e \<noteq> 0 \<Longrightarrow> e_count (S' b) + f_count (S' b) < e_count (S b) + f_count (S b)"
    using 1(1,3) c [of b] by (simp split: if_splits)
qed

lemma receive_counts:
  "receive u a S = Some (e, S') \<Longrightarrow> e_count (S' t) = e_count (S t) \<and> f_count (S' t) = f_count (S t) - (if t = u then 1 else 0)
     \<and> f_count (S u) > 0"
  by (auto simp: receive_def sem_down_def Let_def split: bind_splits if_splits)

lemma wait_counts:
  "wait_any u S = Some (e, S') \<Longrightarrow> e_count (S' t) = e_count (S t) \<and> f_count (S' t) = f_count (S t) - (if t = u then 1 else 0)
     \<and> f_count (S u) > 0"
  by (auto simp: wait_any_def sem_down_def Let_def split: bind_splits if_splits)

lemma store_counts:
  "store_message u m S = Some (m', S') \<Longrightarrow> e_count (S' t) = e_count (S t) + (if t = u then 1 else 0) \<and> f_count (S' t) = f_count (S t)"
  by (auto simp: store_message_def Let_def split: bind_splits)

lemma step_tokens: "ipc_step x y \<Longrightarrow> tokens t y \<le> tokens t x"
proof (induction rule: ipc_step.induct)
  case (i_load u m S S' R)
  then show ?case
    using load_counts by (simp add: tokens_def)
next
  case (i_send a b S e S' R)
  then show ?case
    using send_counts(1) [of a b S e S' t] by (simp add: tokens_def)
next
  case (i_receive u R a S S')
  then show ?case
    using receive_counts [of u a S 0 S' t] by (auto simp: tokens_def)
next
  case (i_refuse u R a S e S')
  then show ?case
    using receive_counts [of u a S e S' t] by (auto simp: tokens_def)
next
  case (i_wait u R S S')
  then show ?case
    using wait_counts [of u S 0 S' t] by (auto simp: tokens_def)
next
  case (i_store u R m S m' S')
  then show ?case
    using store_counts [of u m S m' S' t] by (auto simp: tokens_def)
qed

text \<open>
  C6. Every mailbox has one token that is either a free place, a message to be read, or with a
  receiver that has not stored yet; no sequence of operations makes a second one, so at most one
  message is in a mailbox. The token can be lost: a send that fails on its typed items does not
  give it back, and then no send to that thread ever gets through again. That storing follows
  receiving is up to the threads: a store without it makes a further token.
\<close>

theorem ipc_single_message:
  "(ipc_step\<^sup>*\<^sup>* (\<lambda>_. new_ipc_state, {}) (S, R) \<longrightarrow> e_count (S t) + f_count (S t) + (if t \<in> R then 1 else 0) \<le> 1)
   \<and> (tokens t x = 1 \<longrightarrow> send a t (fst x) = Some (e, S') \<longrightarrow> e \<noteq> 0 \<longrightarrow> ipc_step\<^sup>*\<^sup>* (S', snd x) y \<longrightarrow> send c t (fst y) = None)
   \<and> (t \<notin> snd x \<longrightarrow> store_message t m (fst x) = Some (m', S') \<longrightarrow> tokens t (S', snd x) = tokens t x + 1)"
proof (intro conjI impI)
  have mono: "tokens t y \<le> tokens t x" if "ipc_step\<^sup>*\<^sup>* x y" for x y
    using that by (induction rule: rtranclp_induct) (auto dest: step_tokens intro: order_trans)
  show "e_count (S t) + f_count (S t) + (if t \<in> R then 1 else 0) \<le> 1"
    if "ipc_step\<^sup>*\<^sup>* (\<lambda>_. new_ipc_state, {}) (S, R)"
    using mono [OF that] by (simp add: tokens_def new_ipc_state_def)
  show "send c t (fst y) = None"
    if "tokens t x = 1" "send a t (fst x) = Some (e, S')" "e \<noteq> 0" "ipc_step\<^sup>*\<^sup>* (S', snd x) y"
  proof -
    have "tokens t (S', snd x) < tokens t x"
      using send_counts(2) [OF that(2,3)] by (simp add: tokens_def)
    then have "tokens t y = 0"
      using mono [OF that(4)] that(1) by simp
    then show ?thesis
      by (simp add: tokens_def send_def sem_down_def)
  qed
  show "tokens t (S', snd x) = tokens t x + 1"
    if "t \<notin> snd x" "store_message t m (fst x) = Some (m', S')"
    using store_counts [OF that(2)] that(1) by (simp add: tokens_def)
qed

theorem ipc_single_message_witness:
  "(\<exists>S. ipc_step (\<lambda>_. new_ipc_state, {}) (S, {}) \<and> e_count (S 1) + f_count (S 1) \<le> 1)
   \<and> (\<exists>e S'. send 0 1 (\<lambda>t. new_ipc_state\<lparr>mr := (if t = 0 then 0x80 # replicate 63 5 else replicate 64 0)\<rparr>) = Some (e, S')
        \<and> send 2 1 S' = None)
   \<and> (\<exists>m S'. store_message 1 new_message (\<lambda>_. new_ipc_state) = Some (m, S') \<and> tokens 1 (S', {}) = 2)"
proof (intro conjI)
  let ?S = "\<lambda>t :: nat. new_ipc_state\<lparr>mr := (if t = 0 then 0x80 # replicate 63 5 else replicate 64 0)\<rparr>"
  have regs: "regs_ok new_ipc_state" "length new_message = REGS_PER_MESSAGE"
    by (simp_all add: regs_ok_def new_ipc_state_def new_message_def)
  have init: "tokens 1 (\<lambda>_. new_ipc_state, {}) = 1" "tokens 1 (?S, {}) = 1"
    by (simp_all add: tokens_def new_ipc_state_def)
  obtain s where "load_message 1 new_message (\<lambda>_. new_ipc_state) = Some ((\<lambda>_. new_ipc_state)(1 := s))"
    by (rule load_message_ok [OF message_rep_new regs(1)])
  then have step: "ipc_step (\<lambda>_. new_ipc_state, {}) ((\<lambda>_. new_ipc_state)(1 := s), {})"
    by (rule i_load)
  then show "\<exists>S. ipc_step (\<lambda>_. new_ipc_state, {}) (S, {}) \<and> e_count (S 1) + f_count (S 1) \<le> 1"
    using conjunct1 [OF ipc_single_message, THEN mp, OF r_into_rtranclp [of ipc_step, OF step], of 1]
    by (intro exI [of _ "(\<lambda>_. new_ipc_state)(1 := s)"]) simp
  have tag: "untyped_count 0x80 = 0" "typed_count 0x80 = 2"
    by (simp_all add: tag_defs get_field_def take_bit_eq_mod drop_bit_eq_div)
  have "send 0 1 ?S = Some (- code_of ERROR_INVALID,
      ?S(1 := (?S 1)\<lparr>e_count := 0, sender := Some 0, mr := mr (?S 0)\<rparr>))" (is "_ = Some (?e, ?S')")
    by (simp add: send_def sem_down_def new_ipc_state_def copy_mrs_to_def memmove_at_def MR_SIZE_def
        send_extended_items_def get_message_tag_def tag get_mr_def item_type_def nth_Cons')
  moreover have "send 2 1 ?S' = None"
    using ipc_single_message [of ?S' "{}" 1 "(?S, {})" 0 ?e ?S' "(?S', {})" 2] init(2) calculation by simp
  ultimately show "\<exists>e S'. send 0 1 ?S = Some (e, S') \<and> send 2 1 S' = None"
    by blast
  obtain m where "store_message 1 new_message (\<lambda>_. new_ipc_state)
      = Some (m, (\<lambda>_. new_ipc_state)(1 := new_ipc_state\<lparr>e_count := e_count new_ipc_state + 1\<rparr>))"
    by (rule store_new_state)
  then show "\<exists>m S'. store_message 1 new_message (\<lambda>_. new_ipc_state) = Some (m, S') \<and> tokens 1 (S', {}) = 2"
    using conjunct2 [OF conjunct2 [OF ipc_single_message, of 1 "(\<lambda>_. new_ipc_state, {})"], THEN mp] init(1)
    by (intro exI conjI) (assumption, fastforce)
qed

end
