(* ===== verification/Scheduler.thy ===== *)
theory Scheduler
  imports Kernel_Prelude
begin

text \<open>
  Threads as the scheduler sees them and the scheduler itself
  (\<^verbatim>\<open>kern/task/scheduler/scheduler.cc\<close>, \<^verbatim>\<open>fcfs/fcfs.cc\<close>,
  \<^verbatim>\<open>include/task/thread/thread.hpp\<close>). Threads, wait queues and processors are named by
  numbers. Every operation takes the number \<open>c\<close> of the processor that executes it, the
  \<^verbatim>\<open>cpu\<close> and \<^verbatim>\<open>cur_thread\<close> of the source. The intrusive queues are lists; linking a
  thread that is linked already would corrupt the other queue and is \<open>None\<close>, like a failed
  assertion. The bookkeeping hooks \<^verbatim>\<open>on_tick\<close>, \<^verbatim>\<open>on_sleep\<close> and
  \<^verbatim>\<open>on_wakeup\<close> are empty for the first-come-first-served class.
\<close>

unbundle bit_operations_syntax

section \<open>Threads and processors\<close>

type_synonym tid = nat
type_synonym cpu_num = nat

text \<open>
  The wait queues of this state: the one in every semaphore and the one in every thread on which
  its joiners wait.
\<close>

datatype wq_id = Sem nat | Join tid

datatype thread_states = INITIAL | READY | RUNNING | SUSPENDED | BLOCKED | BLOCKED_READ_LOCK
  | SLEEPING | DYING | DEAD

datatype cpu_affinity_type = SOFT | HARD

definition FLAG_DETACHED :: u64 where "FLAG_DETACHED = 0b1"
definition FLAG_IDLE :: u64 where "FLAG_IDLE = 0b10"
definition FLAG_INIT :: u64 where "FLAG_INIT = 0b100"

text \<open>The signals are plain enumerators: the first one is 0.\<close>

definition SIGNAL_KILLED :: u64 where "SIGNAL_KILLED = 0"
definition SIGNAL_SUSPEND :: u64 where "SIGNAL_SUSPEND = 1"

text \<open>
  \<open>affinity_cpu\<close> is \<open>None\<close> for \<^verbatim>\<open>CPU_NUM_INVALID\<close>. \<open>wait_link\<close> names the queue
  the \<^verbatim>\<open>wait_queue_link\<close> of the thread is linked in.
\<close>

record thread =
  t_state :: thread_states
  flags :: u64
  signals :: u64
  is_user :: bool
  critical :: bool
  affinity_cpu :: "cpu_num option"
  affinity_type :: cpu_affinity_type
  need_reschedule :: bool
  wait_link :: "wq_id option"
  blocking_on :: "wq_id option"
  block_code :: error_code
  interruptible :: bool
  exit_code :: error_code

record scheduler_timer =
  expires :: int
  arg :: tid

record cpu_struct =
  run_queue :: "tid list"
  zombie_queue :: "tid list"
  idle_thread :: tid
  cur_thread :: tid
  timer_list :: "nat list"
  timer_lock :: bool

record kstate =
  thr :: "tid \<Rightarrow> thread"
  thread_list :: "tid list"
  wait_queues :: "wq_id \<Rightarrow> tid list"
  counts :: "nat \<Rightarrow> u64"
  ncpu :: nat
  cpus :: "cpu_num \<Rightarrow> cpu_struct"
  timers :: "nat \<Rightarrow> scheduler_timer"

definition upd_thr :: "tid \<Rightarrow> (thread \<Rightarrow> thread) \<Rightarrow> kstate \<Rightarrow> kstate" where
  "upd_thr t f s = s\<lparr>thr := (thr s)(t := f (thr s t))\<rparr>"

definition upd_cpu :: "cpu_num \<Rightarrow> (cpu_struct \<Rightarrow> cpu_struct) \<Rightarrow> kstate \<Rightarrow> kstate" where
  "upd_cpu c f s = s\<lparr>cpus := (cpus s)(c := f (cpus s c))\<rparr>"

definition set_state :: "tid \<Rightarrow> thread_states \<Rightarrow> kstate \<Rightarrow> kstate" where
  "set_state t st = upd_thr t (t_state_update (\<lambda>_. st))"

definition set_need_reschedule :: "tid \<Rightarrow> bool \<Rightarrow> kstate \<Rightarrow> kstate" where
  "set_need_reschedule t b = upd_thr t (need_reschedule_update (\<lambda>_. b))"

definition cur :: "cpu_num \<Rightarrow> kstate \<Rightarrow> tid" where
  "cur c s = cur_thread (cpus s c)"

definition is_idle :: "tid \<Rightarrow> kstate \<Rightarrow> bool" where
  "is_idle t s \<longleftrightarrow> (flags (thr s t) AND FLAG_IDLE) \<noteq> 0"

definition run_linked :: "tid \<Rightarrow> kstate \<Rightarrow> bool" where
  "run_linked t s \<longleftrightarrow> list_ex (\<lambda>i. t \<in> set (run_queue (cpus s i))) [0..<ncpu s]"

section \<open>The first-come-first-served class\<close>

text \<open>\<open>owner\<close> is the processor whose scheduler the class object belongs to.\<close>

definition fcfs_enqueue :: "cpu_num \<Rightarrow> cpu_num \<Rightarrow> tid \<Rightarrow> kstate \<Rightarrow> kstate option" where
  "fcfs_enqueue c owner t s = do {
     kassert (c = owner);
     if t_state (thr s t) = DYING then
       Some (upd_cpu owner (zombie_queue_update (\<lambda>q. q @ [t])) s)
     else do {
       kassert (\<not> run_linked t s);
       Some (upd_cpu owner (run_queue_update (\<lambda>q. q @ [t])) s)
     }
   }"

definition fcfs_dequeue :: "cpu_num \<Rightarrow> cpu_num \<Rightarrow> tid \<Rightarrow> kstate \<Rightarrow> kstate option" where
  "fcfs_dequeue c owner t s = do {
     kassert (c = owner);
     if run_linked t s then Some (upd_cpu owner (run_queue_update (remove1 t)) s) else Some s
   }"

definition fcfs_fetch :: "cpu_num \<Rightarrow> cpu_num \<Rightarrow> kstate \<Rightarrow> (tid option \<times> kstate) option" where
  "fcfs_fetch c owner s = do {
     kassert (c = owner);
     case run_queue (cpus s owner) of
       [] \<Rightarrow> Some (None, s)
     | t # q \<Rightarrow> Some (Some t, upd_cpu owner (run_queue_update (\<lambda>_. q)) s)
   }"

text \<open>
  The end of a thread. The destructor looks the thread up in the handle table of its process
  through \<^verbatim>\<open>parent_\<close>, which a kernel thread does not have. The user stack and the handle
  tables are not part of this state.
\<close>

definition finish_dead_transition :: "tid \<Rightarrow> kstate \<Rightarrow> kstate option" where
  "finish_dead_transition t s = do {
     let s = set_state t DEAD s;
     kassert (\<not> critical (thr s t));
     kassert (is_user (thr s t));
     Some s
   }"

fun reap :: "tid list \<Rightarrow> kstate \<Rightarrow> kstate option" where
  "reap [] s = Some s"
| "reap (t # ts) s = do { s \<leftarrow> finish_dead_transition t s; reap ts s }"

definition fcfs_tick :: "cpu_num \<Rightarrow> cpu_num \<Rightarrow> kstate \<Rightarrow> kstate option" where
  "fcfs_tick c owner s = do {
     kassert (c = owner);
     let zombies = zombie_queue (cpus s owner);
     s \<leftarrow> reap zombies (upd_cpu owner (zombie_queue_update (\<lambda>_. [])) s);
     Some (set_need_reschedule (cur c s) True s)
   }"

text \<open>\<^verbatim>\<open>steal\<close> makes three passes over the reversed queue with a growing choice of threads.\<close>

definition stealable :: "cpu_num \<Rightarrow> kstate \<Rightarrow> tid \<Rightarrow> bool" where
  "stealable c s t \<longleftrightarrow> cur c s \<noteq> t \<and> t_state (thr s t) = READY
     \<and> (flags (thr s t) AND FLAG_IDLE) = 0 \<and> (flags (thr s t) AND FLAG_INIT) = 0"

definition fcfs_steal :: "cpu_num \<Rightarrow> cpu_num \<Rightarrow> kstate \<Rightarrow> tid option \<times> kstate" where
  "fcfs_steal c owner s = (
     let q = rev (run_queue (cpus s owner));
         pick = (\<lambda>P. find (\<lambda>t. stealable c s t \<and> P (thr s t)) q);
         take_it = (\<lambda>t. (Some t, upd_cpu owner (run_queue_update (remove1 t)) s))
     in case pick (\<lambda>th. affinity_cpu th = Some c) of
          Some t \<Rightarrow> take_it t
        | None \<Rightarrow> (case pick (\<lambda>th. affinity_type th = SOFT) of
            Some t \<Rightarrow> take_it t
          | None \<Rightarrow> (case pick (\<lambda>th. affinity_type th = HARD) of
              Some t \<Rightarrow> take_it t
            | None \<Rightarrow> (None, s))))"

definition workload_size :: "cpu_num \<Rightarrow> kstate \<Rightarrow> nat" where
  "workload_size owner s = length (run_queue (cpus s owner))"

section \<open>The scheduler\<close>

definition enqueue :: "cpu_num \<Rightarrow> cpu_num \<Rightarrow> tid \<Rightarrow> kstate \<Rightarrow> kstate option" where
  "enqueue c owner t s =
     (if t_state (thr s t) = DYING \<and> t = idle_thread (cpus s c) then None
      else fcfs_enqueue c owner t s)"

definition switch_to :: "cpu_num \<Rightarrow> tid \<Rightarrow> kstate \<Rightarrow> kstate option" where
  "switch_to c t s = do {
     kassert (t_state (thr s t) = READY);
     let s = set_state t RUNNING s;
     Some (upd_cpu c (cur_thread_update (\<lambda>_. t)) s)
   }"

definition schedule :: "cpu_num \<Rightarrow> kstate \<Rightarrow> kstate option" where
  "schedule c s = do {
     kassert (thread_list s \<noteq> []);
     let cu = cur c s;
     let s = set_need_reschedule cu False s;
     s \<leftarrow> (if t_state (thr s cu) = READY then enqueue c c cu s else Some s);
     (nxt, s) \<leftarrow> fcfs_fetch c c s;
     s \<leftarrow> (case nxt of Some t \<Rightarrow> fcfs_dequeue c c t s | None \<Rightarrow> Some s);
     let t = (case nxt of Some t \<Rightarrow> t | None \<Rightarrow> idle_thread (cpus s c));
     if t \<noteq> cu then switch_to c t s else Some s
   }"

definition reschedule_locked :: "cpu_num \<Rightarrow> kstate \<Rightarrow> kstate option" where
  "reschedule_locked c s = do {
     let cu = cur c s;
     let s = (if t_state (thr s cu) = RUNNING then set_state cu READY s else s);
     schedule c s
   }"

definition yield :: "cpu_num \<Rightarrow> kstate \<Rightarrow> kstate" where
  "yield c s = set_need_reschedule (cur c s) True s"

definition unblock_on :: "cpu_num \<Rightarrow> cpu_num \<Rightarrow> tid \<Rightarrow> kstate \<Rightarrow> kstate option" where
  "unblock_on c owner t s = do {
     kassert (c = owner);
     enqueue c owner t (set_state t READY s)
   }"

definition insert_on :: "cpu_num \<Rightarrow> cpu_num \<Rightarrow> tid \<Rightarrow> kstate \<Rightarrow> kstate option" where
  "insert_on c owner t s = do { kassert (c = owner); enqueue c owner t s }"

definition unblock :: "cpu_num \<Rightarrow> tid \<Rightarrow> kstate \<Rightarrow> (bool \<times> kstate) option" where
  "unblock c t s = (case affinity_cpu (thr s t) of
       Some a \<Rightarrow> do {
         kassert (a < ncpu s);
         s \<leftarrow> unblock_on c a t s;
         Some (a = c, s)
       }
     | None \<Rightarrow> do { s \<leftarrow> unblock_on c c t s; Some (False, s) })"

definition current_insert :: "cpu_num \<Rightarrow> tid \<Rightarrow> kstate \<Rightarrow> kstate option" where
  "current_insert c t s = do {
     s \<leftarrow> (case affinity_cpu (thr s t) of
         Some a \<Rightarrow> do { kassert (a < ncpu s); insert_on c a t s }
       | None \<Rightarrow> Some s);
     insert_on c c t s
   }"

text \<open>\<^verbatim>\<open>current::unblock_locked\<close> readies a whole list; it always asks for a reschedule.\<close>

fun unblock_list :: "cpu_num \<Rightarrow> tid list \<Rightarrow> kstate \<Rightarrow> kstate option" where
  "unblock_list c [] s = Some s"
| "unblock_list c (t # ts) s = do {
     kassert (\<not> is_idle t s);
     (_, s) \<leftarrow> unblock c t (set_state t READY s);
     unblock_list c ts s
   }"

definition max_load :: "kstate \<Rightarrow> cpu_num" where
  "max_load s = fold (\<lambda>i m. if workload_size i s > workload_size m s then i else m) [0..<ncpu s] 0"

definition min_load :: "kstate \<Rightarrow> cpu_num" where
  "min_load s = fold (\<lambda>i m. if workload_size i s < workload_size m s then i else m) [0..<ncpu s] 0"

definition balance :: "cpu_num \<Rightarrow> kstate \<Rightarrow> kstate option" where
  "balance c s = (
     let mx = max_load s; mn = min_load s
     in if mx \<noteq> mn \<and> workload_size mx s > workload_size mn s + 1 then
          (case fcfs_steal c mx s of
             (Some v, s) \<Rightarrow> enqueue c mn v s
           | (None, s) \<Rightarrow> Some s)
        else Some s)"

definition tick :: "cpu_num \<Rightarrow> tid \<Rightarrow> kstate \<Rightarrow> kstate option" where
  "tick c t s = do {
     s \<leftarrow> (if t \<noteq> idle_thread (cpus s c) then fcfs_tick c c s
           else Some (set_need_reschedule t True s));
     balance c s
   }"

text \<open>One round of the idle loop: pull a thread from the busiest other processor, reschedule.\<close>

definition pull_load :: "cpu_num \<Rightarrow> kstate \<Rightarrow> cpu_num" where
  "pull_load c s =
     fold (\<lambda>i m. if workload_size i s > workload_size m s \<and> i \<noteq> c then i else m) [0..<ncpu s] 0"

definition idle_round :: "cpu_num \<Rightarrow> kstate \<Rightarrow> kstate option" where
  "idle_round c s = do {
     s \<leftarrow> (case fcfs_steal c (pull_load c s) s of
         (Some t, s) \<Rightarrow> enqueue c c t s
       | (None, s) \<Rightarrow> Some s);
     reschedule_locked c s
   }"

section \<open>Timers\<close>

text \<open>
  The timers of a processor form a delta list: \<open>expires\<close> counts from the expiry of the timer
  before. \<open>timer_lock\<close> is the state of the spinlock, which panics when its holder takes it
  again. \<open>add_loop\<close> is the search loop of \<^verbatim>\<open>add_timer\<close>, with the number of timers
  passed.
\<close>

definition upd_timer :: "nat \<Rightarrow> (int \<Rightarrow> int) \<Rightarrow> kstate \<Rightarrow> kstate" where
  "upd_timer tm f s = s\<lparr>timers := (timers s)(tm := (timers s tm)\<lparr>expires := f (expires (timers s tm))\<rparr>)\<rparr>"

definition set_timer_list :: "cpu_num \<Rightarrow> nat list \<Rightarrow> kstate \<Rightarrow> kstate" where
  "set_timer_list c ts = upd_cpu c (timer_list_update (\<lambda>_. ts))"

fun add_loop :: "nat \<Rightarrow> nat list \<Rightarrow> nat \<Rightarrow> kstate \<Rightarrow> nat \<times> kstate" where
  "add_loop tm [] k s = (k, s)"
| "add_loop tm (x # xs) k s =
     (if expires (timers s tm) < expires (timers s x)
      then (k, upd_timer x (\<lambda>e. e - expires (timers s tm)) s)
      else add_loop tm xs (k + 1) (upd_timer tm (\<lambda>e. e - expires (timers s x)) s))"

text \<open>\<^verbatim>\<open>insert\<close> of the intrusive list links the new element behind the iterator.\<close>

definition insert_after :: "nat \<Rightarrow> 'a \<Rightarrow> 'a list \<Rightarrow> 'a list" where
  "insert_after it x xs = take (it + 1) xs @ x # drop (it + 1) xs"

definition add_timer :: "cpu_num \<Rightarrow> nat \<Rightarrow> kstate \<Rightarrow> kstate option" where
  "add_timer c tm s = do {
     kassert (\<not> timer_lock (cpus s c));
     let ts = timer_list (cpus s c);
     let (it, s) = add_loop tm ts 0 s;
     let ts' = (if it \<noteq> 0 then insert_after (it - 1) tm ts else insert_after it tm ts);
     Some (set_timer_list c ts' s)
   }"

fun next_of :: "nat \<Rightarrow> nat list \<Rightarrow> nat option" where
  "next_of x [] = None"
| "next_of x (y # ys) = (if x = y then (case ys of [] \<Rightarrow> None | z # _ \<Rightarrow> Some z) else next_of x ys)"

definition remove_timer :: "cpu_num \<Rightarrow> nat \<Rightarrow> kstate \<Rightarrow> kstate option" where
  "remove_timer c tm s = do {
     kassert (\<not> timer_lock (cpus s c));
     let ts = timer_list (cpus s c);
     if ts = [] then Some s
     else do {
       kassert (tm \<in> set ts);
       let s = (if expires (timers s tm) \<noteq> 0
                then (case next_of tm ts of
                        Some n \<Rightarrow> upd_timer n (\<lambda>e. e + expires (timers s tm)) s
                      | None \<Rightarrow> s)
                else s);
       Some (set_timer_list c (remove1 tm ts) s)
     }
   }"

text \<open>
  \<open>cb\<close> is the callback stored in the timers. The loop may see a list the callback has changed,
  so its termination is not evident: an endless run is \<open>None\<close>.
\<close>

partial_function (option) fire_loop ::
    "(nat \<Rightarrow> kstate \<Rightarrow> kstate option) \<Rightarrow> cpu_num \<Rightarrow> nat \<Rightarrow> kstate \<Rightarrow> kstate option" where
  "fire_loop cb c tm s =
     (if expires (timers s tm) \<noteq> 0 then Some s
      else Option.bind (cb tm s) (\<lambda>s1. Option.bind (remove_timer c tm s1) (\<lambda>s2.
        (case next_of tm (timer_list (cpus s c)) of
           None \<Rightarrow> Some s2
         | Some n \<Rightarrow> fire_loop cb c n s2))))"

definition check_timers_locked :: "(nat \<Rightarrow> kstate \<Rightarrow> kstate option) \<Rightarrow> cpu_num \<Rightarrow> kstate \<Rightarrow> kstate option" where
  "check_timers_locked cb c s = (case timer_list (cpus s c) of
       [] \<Rightarrow> Some s
     | tm # _ \<Rightarrow> fire_loop cb c tm (upd_timer tm (\<lambda>e. e - 1) s))"

definition timer_tick_handle :: "(nat \<Rightarrow> kstate \<Rightarrow> kstate option) \<Rightarrow> cpu_num \<Rightarrow> kstate \<Rightarrow> kstate option" where
  "timer_tick_handle cb c s = do {
     kassert (\<not> timer_lock (cpus s c));
     s \<leftarrow> check_timers_locked cb c (upd_cpu c (timer_lock_update (\<lambda>_. True)) s);
     tick c (cur c s) (upd_cpu c (timer_lock_update (\<lambda>_. False)) s)
   }"

section \<open>Reads over writes\<close>

named_theorems sched_simps \<open>reads over writes of the scheduler state\<close>

lemma upd_thr_simps [simp, sched_simps]:
  "thr (upd_thr t f s) = (thr s)(t := f (thr s t))"
  "thread_list (upd_thr t f s) = thread_list s"
  "wait_queues (upd_thr t f s) = wait_queues s"
  "counts (upd_thr t f s) = counts s"
  "ncpu (upd_thr t f s) = ncpu s"
  "cpus (upd_thr t f s) = cpus s"
  "timers (upd_thr t f s) = timers s"
  by (simp_all add: upd_thr_def)

lemma upd_cpu_simps [simp, sched_simps]:
  "thr (upd_cpu c g s) = thr s"
  "thread_list (upd_cpu c g s) = thread_list s"
  "wait_queues (upd_cpu c g s) = wait_queues s"
  "counts (upd_cpu c g s) = counts s"
  "ncpu (upd_cpu c g s) = ncpu s"
  "cpus (upd_cpu c g s) = (cpus s)(c := g (cpus s c))"
  "timers (upd_cpu c g s) = timers s"
  by (simp_all add: upd_cpu_def)

lemma upd_timer_simps [simp, sched_simps]:
  "cpus (upd_timer tm g s) = cpus s"
  "timers (upd_timer tm g s) = (timers s)(tm := (timers s tm)\<lparr>expires := g (expires (timers s tm))\<rparr>)"
  by (simp_all add: upd_timer_def)

lemmas thr_updates [simp] = set_state_def set_need_reschedule_def

lemma cur_upd [simp]:
  "cur i (upd_thr t f s) = cur i s"
  "cur i (upd_cpu c (run_queue_update g) s) = cur i s"
  "cur i (upd_cpu c (cur_thread_update (\<lambda>_. t)) s) = (if i = c then t else cur i s)"
  "cur i (upd_cpu c (timer_list_update h) s) = cur i s"
  "cur i (upd_cpu c (timer_lock_update l) s) = cur i s"
  by (simp_all add: cur_def)

lemma is_idle_upd [simp]:
  "(\<And>th. flags (f th) = flags th) \<Longrightarrow> is_idle t (upd_thr u f s) = is_idle t s"
  "is_idle t (upd_cpu c g s) = is_idle t s"
  by (simp_all add: is_idle_def)

lemma run_linked_upd_thr [simp]: "run_linked t (upd_thr u f s) = run_linked t s"
  by (simp add: run_linked_def)

lemma run_linked_iff: "run_linked t s \<longleftrightarrow> (\<exists>i<ncpu s. t \<in> set (run_queue (cpus s i)))"
  by (auto simp: run_linked_def list_ex_iff)

section \<open>The scheduling invariant\<close>

text \<open>
  \<open>hosts s i\<close> lists the threads processor \<open>i\<close> is responsible for: the running one and its run
  queue. The invariant is indexed by the processors whose current thread is on its way out, which
  is the situation between a change of its state and the call of \<open>schedule\<close>.
\<close>

abbreviation hosts :: "kstate \<Rightarrow> cpu_num \<Rightarrow> tid list" where
  "hosts s i \<equiv> cur i s # run_queue (cpus s i)"

definition blocked :: "thread_states \<Rightarrow> bool" where
  "blocked st \<longleftrightarrow> st = BLOCKED \<or> st = BLOCKED_READ_LOCK"

text \<open>The parts of a thread the scheduler only reads.\<close>

definition conf :: "thread \<Rightarrow> u64 \<times> bool \<times> bool \<times> cpu_num option \<times> cpu_affinity_type" where
  "conf th = (flags th, is_user th, critical th, affinity_cpu th, affinity_type th)"

lemma conf_update [simp]:
  "conf (th\<lparr>t_state := st\<rparr>) = conf th" "conf (th\<lparr>need_reschedule := b\<rparr>) = conf th"
  by (simp_all add: conf_def)

definition cpu_inv :: "cpu_num set \<Rightarrow> kstate \<Rightarrow> bool" where
  "cpu_inv X s \<longleftrightarrow>
     (\<forall>i<ncpu s. distinct (hosts s i) \<and> idle_thread (cpus s i) \<in> set (hosts s i)
        \<and> zombie_queue (cpus s i) = []
        \<and> idle_thread (cpus s i) \<in> set (thread_list s) \<and> is_idle (idle_thread (cpus s i)) s
        \<and> (\<forall>t\<in>set (run_queue (cpus s i)). t_state (thr s t) = READY)
        \<and> (i \<notin> X \<longrightarrow> t_state (thr s (cur i s)) = RUNNING
            \<or> t_state (thr s (cur i s)) = READY \<and> cur i s = idle_thread (cpus s i)))
     \<and> (\<forall>i<ncpu s. \<forall>j<ncpu s. i \<noteq> j \<longrightarrow> set (hosts s i) \<inter> set (hosts s j) = {})
     \<and> (\<forall>t. t_state (thr s t) = RUNNING \<longrightarrow> (\<exists>i<ncpu s. t = cur i s))"

definition wait_inv :: "kstate \<Rightarrow> bool" where
  "wait_inv s \<longleftrightarrow>
     (\<forall>q. distinct (wait_queues s q) \<and> (\<forall>t. t \<in> set (wait_queues s q) \<longleftrightarrow> blocking_on (thr s t) = Some q))
     \<and> (\<forall>t. wait_link (thr s t) = blocking_on (thr s t)
          \<and> (blocking_on (thr s t) \<noteq> None \<longleftrightarrow> blocked (t_state (thr s t)))
          \<and> (blocking_on (thr s t) \<noteq> None \<longrightarrow> \<not> is_idle t s))"

lemma cpu_invD:
  assumes "cpu_inv X s" "i < ncpu s"
  shows "distinct (hosts s i)" "idle_thread (cpus s i) \<in> set (hosts s i)" "zombie_queue (cpus s i) = []"
    "t \<in> set (run_queue (cpus s i)) \<Longrightarrow> t_state (thr s t) = READY"
    "i \<notin> X \<Longrightarrow> t_state (thr s (cur i s)) = RUNNING \<or> t_state (thr s (cur i s)) = READY \<and> cur i s = idle_thread (cpus s i)"
    "j < ncpu s \<Longrightarrow> i \<noteq> j \<Longrightarrow> set (hosts s i) \<inter> set (hosts s j) = {}"
    "idle_thread (cpus s i) \<in> set (thread_list s)"
    "is_idle (idle_thread (cpus s i)) s"
  using assms unfolding cpu_inv_def by blast+

lemma cpu_inv_thread_list: "cpu_inv X s \<Longrightarrow> i < ncpu s \<Longrightarrow> thread_list s \<noteq> []"
  using cpu_invD(7) [of X s i] by auto

lemma cpu_inv_running: "cpu_inv X s \<Longrightarrow> t_state (thr s t) = RUNNING \<Longrightarrow> \<exists>i<ncpu s. t = cur i s"
  unfolding cpu_inv_def by blast

lemma cpu_invI:
  assumes "\<And>i. i < ncpu s \<Longrightarrow> distinct (hosts s i)"
    "\<And>i. i < ncpu s \<Longrightarrow> idle_thread (cpus s i) \<in> set (hosts s i)"
    "\<And>i. i < ncpu s \<Longrightarrow> zombie_queue (cpus s i) = []"
    "\<And>i t. i < ncpu s \<Longrightarrow> t \<in> set (run_queue (cpus s i)) \<Longrightarrow> t_state (thr s t) = READY"
    "\<And>i. i < ncpu s \<Longrightarrow> i \<notin> X \<Longrightarrow> t_state (thr s (cur i s)) = RUNNING
        \<or> t_state (thr s (cur i s)) = READY \<and> cur i s = idle_thread (cpus s i)"
    "\<And>i j. i < ncpu s \<Longrightarrow> j < ncpu s \<Longrightarrow> i \<noteq> j \<Longrightarrow> set (hosts s i) \<inter> set (hosts s j) = {}"
    "\<And>t. t_state (thr s t) = RUNNING \<Longrightarrow> \<exists>i<ncpu s. t = cur i s"
    "\<And>i. i < ncpu s \<Longrightarrow> idle_thread (cpus s i) \<in> set (thread_list s)"
    "\<And>i. i < ncpu s \<Longrightarrow> is_idle (idle_thread (cpus s i)) s"
  shows "cpu_inv X s"
  using assms unfolding cpu_inv_def by blast

lemma cpu_inv_close:
  assumes inv: "cpu_inv {c} s"
    and cu: "t_state (thr s (cur c s)) = RUNNING \<or> t_state (thr s (cur c s)) = READY \<and> cur c s = idle_thread (cpus s c)"
  shows "cpu_inv {} s"
proof (rule cpu_invI)
  show "t_state (thr s (cur i s)) = RUNNING \<or> t_state (thr s (cur i s)) = READY \<and> cur i s = idle_thread (cpus s i)"
    if "i < ncpu s" for i
    using cpu_invD(5) [OF inv that] cu by (cases "i = c") auto
qed (rule cpu_invD(1) [OF inv] cpu_invD(2) [OF inv] cpu_invD(3) [OF inv] cpu_invD(4) [OF inv]
    cpu_invD(6) [OF inv] cpu_inv_running [OF inv] cpu_invD(7) [OF inv] cpu_invD(8) [OF inv]; assumption)+

lemma cpu_inv_mono: "cpu_inv X s \<Longrightarrow> X \<subseteq> Y \<Longrightarrow> cpu_inv Y s"
  unfolding cpu_inv_def by blast

text \<open>Changes of a thread that keep its state matter to neither part.\<close>

lemma upd_thr_field: "(\<And>th. g (f th) = g th) \<Longrightarrow> g (thr (upd_thr t f s) u) = g (thr s u)"
  by simp

lemma cpu_inv_upd_same:
  assumes "\<And>th. t_state (f th) = t_state th" "\<And>th. flags (f th) = flags th"
  shows "cpu_inv X (upd_thr t f s) \<longleftrightarrow> cpu_inv X s"
  unfolding cpu_inv_def
  using upd_thr_field [of t_state f t s, OF assms(1)] is_idle_upd(1) [of f, OF assms(2)]
  by (simp del: upd_thr_simps(1))

lemma wait_inv_upd_same:
  assumes "\<And>th. t_state (f th) = t_state th" "\<And>th. wait_link (f th) = wait_link th"
    "\<And>th. blocking_on (f th) = blocking_on th" "\<And>th. flags (f th) = flags th"
  shows "wait_inv (upd_thr t f s) \<longleftrightarrow> wait_inv s"
  unfolding wait_inv_def
  using upd_thr_field [of t_state f t s, OF assms(1)] upd_thr_field [of wait_link f t s, OF assms(2)]
    upd_thr_field [of blocking_on f t s, OF assms(3)] is_idle_upd(1) [of f, OF assms(4)]
  by (simp del: upd_thr_simps(1))

lemma wait_inv_upd_cpu [simp]: "wait_inv (upd_cpu c g s) \<longleftrightarrow> wait_inv s"
  unfolding wait_inv_def by simp

lemma wait_inv_set_state:
  assumes "wait_inv s" "\<not> blocked (t_state (thr s t))" "\<not> blocked st"
  shows "wait_inv (set_state t st s)"
  using assms unfolding wait_inv_def by (auto simp: blocked_def)

definition rotate_to :: "cpu_num \<Rightarrow> tid \<Rightarrow> tid list \<Rightarrow> kstate \<Rightarrow> kstate" where
  "rotate_to c t q s =
     upd_cpu c (cur_thread_update (\<lambda>_. t)) (set_state t RUNNING (upd_cpu c (run_queue_update (\<lambda>_. q)) s))"

text \<open>What \<open>schedule\<close> does to a queue that is the run queue with the current thread behind it.\<close>

lemma fetch_dequeue:
  assumes "run_queue (cpus s c) = t # q" "t \<notin> set q"
    "\<And>i. i < ncpu s \<Longrightarrow> i \<noteq> c \<Longrightarrow> t \<notin> set (run_queue (cpus s i))"
  shows "fcfs_fetch c c s = Some (Some t, upd_cpu c (run_queue_update (\<lambda>_. q)) s)"
    and "fcfs_dequeue c c t (upd_cpu c (run_queue_update (\<lambda>_. q)) s) = Some (upd_cpu c (run_queue_update (\<lambda>_. q)) s)"
proof -
  show "fcfs_fetch c c s = Some (Some t, upd_cpu c (run_queue_update (\<lambda>_. q)) s)"
    using assms(1) by (simp add: fcfs_fetch_def)
  have "\<not> run_linked t (upd_cpu c (run_queue_update (\<lambda>_. q)) s)"
    using assms(2,3) by (auto simp: run_linked_iff)
  then show "fcfs_dequeue c c t (upd_cpu c (run_queue_update (\<lambda>_. q)) s) = Some (upd_cpu c (run_queue_update (\<lambda>_. q)) s)"
    by (simp add: fcfs_dequeue_def)
qed

lemma upd_cpu_twice: "upd_cpu c f (upd_cpu c g s) = upd_cpu c (f \<circ> g) s"
  by (simp add: upd_cpu_def)

text \<open>The tail of \<open>schedule\<close>: the head of the queue becomes the current thread.\<close>

lemma fetch_switch:
  assumes "run_queue (cpus s c) = t # q" "t \<notin> set q" "t \<noteq> cu" "t_state (thr s t) = READY"
    "\<And>i. i < ncpu s \<Longrightarrow> i \<noteq> c \<Longrightarrow> t \<notin> set (run_queue (cpus s i))"
  shows "Option.bind (fcfs_fetch c c s) (\<lambda>(nxt, s).
      Option.bind (case nxt of Some t \<Rightarrow> fcfs_dequeue c c t s | None \<Rightarrow> Some s) (\<lambda>s.
        let t = (case nxt of Some t \<Rightarrow> t | None \<Rightarrow> idle_thread (cpus s c))
        in if t \<noteq> cu then switch_to c t s else Some s)) = Some (rotate_to c t q s)"
  using fetch_dequeue [OF assms(1,2,5)] assms(3,4) by (simp add: switch_to_def rotate_to_def)

lemma cur_not_linked:
  assumes "cpu_inv X s" "c < ncpu s"
  shows "\<not> run_linked (cur c s) s"
proof -
  have "cur c s \<notin> set (run_queue (cpus s i))" if "i < ncpu s" for i
    using cpu_invD(1) [OF assms] cpu_invD(6) [OF assms that] by (cases "i = c") auto
  then show ?thesis
    by (auto simp: run_linked_iff)
qed

lemma rotate_to_simps [simp]:
  "thr (rotate_to c t q s) = (thr s)(t := (thr s t)\<lparr>t_state := RUNNING\<rparr>)"
  "ncpu (rotate_to c t q s) = ncpu s"
  "thread_list (rotate_to c t q s) = thread_list s"
  "wait_queues (rotate_to c t q s) = wait_queues s"
  "counts (rotate_to c t q s) = counts s"
  "cur i (rotate_to c t q s) = (if i = c then t else cur i s)"
  "run_queue (cpus (rotate_to c t q s) i) = (if i = c then q else run_queue (cpus s i))"
  "idle_thread (cpus (rotate_to c t q s) i) = idle_thread (cpus s i)"
  "zombie_queue (cpus (rotate_to c t q s) i) = zombie_queue (cpus s i)"
  "is_idle u (rotate_to c t q s) = is_idle u s"
  by (simp_all add: rotate_to_def)

lemma rotate_inv:
  assumes inv: "cpu_inv {c} s" and c: "c < ncpu s" and rq: "run_queue (cpus s c) = t # q"
    and nrun: "t_state (thr s (cur c s)) \<noteq> RUNNING"
    and q': "q' = q @ [cur c s] \<and> t_state (thr s (cur c s)) = READY \<or> q' = q \<and> cur c s \<noteq> idle_thread (cpus s c)"
  shows "cpu_inv {} (rotate_to c t q' s)"
proof -
  let ?s = "rotate_to c t q' s"
  have d: "distinct (cur c s # t # q)"
    using cpu_invD(1) [OF inv c] rq by simp
  have tc: "t \<notin> set (hosts s i)" if "i < ncpu s" "i \<noteq> c" for i
    using cpu_invD(6) [OF inv c that(1)] that(2) rq by auto
  have sub: "set (hosts ?s i) \<subseteq> set (hosts s i)" for i
    using q' rq by auto
  show ?thesis
  proof (rule cpu_invI)
    fix i
    assume "i < ncpu ?s"
    then have i: "i < ncpu s"
      by simp
    show "distinct (hosts ?s i)"
      using cpu_invD(1) [OF inv i] d q' by auto
    show "idle_thread (cpus ?s i) \<in> set (hosts ?s i)"
      using cpu_invD(2) [OF inv i] q' rq by auto
    show "t_state (thr ?s u) = READY" if "u \<in> set (run_queue (cpus ?s i))" for u
      using that cpu_invD(4) [OF inv i] tc [OF i] q' rq d by (auto split: if_splits)
    show "t_state (thr ?s (cur i ?s)) = RUNNING \<or> t_state (thr ?s (cur i ?s)) = READY \<and> cur i ?s = idle_thread (cpus ?s i)"
      using cpu_invD(5) [OF inv i] tc [OF i] by auto
    show "set (hosts ?s i) \<inter> set (hosts ?s j) = {}" if "j < ncpu ?s" "i \<noteq> j" for j
      using cpu_invD(6) [OF inv i _ that(2)] that(1) sub [of i] sub [of j] unfolding rotate_to_simps(2) by blast
  next
    fix u
    assume run: "t_state (thr ?s u) = RUNNING"
    show "\<exists>i<ncpu ?s. u = cur i ?s"
    proof (cases "u = t")
      case False
      then have "t_state (thr s u) = RUNNING"
        using run by simp
      then obtain i where "i < ncpu s" "u = cur i s"
        using cpu_inv_running [OF inv] by blast
      then show ?thesis
        using run nrun False by (intro exI [of _ i]) auto
    qed (use c in auto)
  qed (use cpu_invD(3,7,8) [OF inv] in simp_all)
qed

lemma schedule_ready:
  assumes inv: "cpu_inv X s" and c: "c < ncpu s" and st: "t_state (thr s (cur c s)) = READY"
  shows "run_queue (cpus s c) = [] \<Longrightarrow>
      schedule c s = Some (set_need_reschedule (cur c s) False s)"
    and "run_queue (cpus s c) = t # q \<Longrightarrow>
      schedule c s = Some (rotate_to c t (q @ [cur c s]) (set_need_reschedule (cur c s) False s))"
proof -
  let ?s = "set_need_reschedule (cur c s) False s"
  let ?e = "upd_cpu c (run_queue_update (\<lambda>q. q @ [cur c s])) ?s"
  have enq: "enqueue c c (cur c s) ?s = Some ?e"
    using cur_not_linked [OF inv c] st by (simp add: enqueue_def fcfs_enqueue_def)
  have tl: "thread_list s \<noteq> []"
    using cpu_inv_thread_list [OF inv c] .
  {
    assume "run_queue (cpus s c) = []"
    then have "fcfs_fetch c c ?e = Some (Some (cur c s), upd_cpu c (run_queue_update (\<lambda>_. [])) ?e)"
      by (simp add: fcfs_fetch_def)
    moreover have same: "upd_cpu c (run_queue_update (\<lambda>_. [])) ?e = ?s"
      using \<open>run_queue (cpus s c) = []\<close> by (simp add: upd_cpu_def upd_thr_def fun_upd_idem)
    moreover have "fcfs_dequeue c c (cur c s) ?s = Some ?s"
      using cur_not_linked [OF inv c] by (simp add: fcfs_dequeue_def)
    ultimately show "schedule c s = Some ?s"
      using tl st enq unfolding schedule_def by simp
  }
  assume rq: "run_queue (cpus s c) = t # q"
  have d: "distinct (cur c s # t # q)" "t_state (thr s t) = READY"
    using cpu_invD(1) [OF inv c] cpu_invD(4) [OF inv c, of t] rq by auto
  have off: "t \<notin> set (run_queue (cpus s i))" if "i < ncpu s" "i \<noteq> c" for i
    using cpu_invD(6) [OF inv c that(1)] that(2) rq by auto
  have "rotate_to c t (q @ [cur c s]) ?e = rotate_to c t (q @ [cur c s]) ?s"
    by (simp add: rotate_to_def upd_cpu_twice comp_def)
  then show "schedule c s = Some (rotate_to c t (q @ [cur c s]) ?s)"
    using fetch_switch [of ?e c t "q @ [cur c s]" "cur c s"] rq d off tl st enq
    unfolding schedule_def by (simp add: Let_def split_def)
qed

lemma schedule_gone:
  assumes inv: "cpu_inv X s" and c: "c < ncpu s" and st: "t_state (thr s (cur c s)) \<noteq> READY"
    and rq: "run_queue (cpus s c) = t # q"
  shows "schedule c s = Some (rotate_to c t q (set_need_reschedule (cur c s) False s))"
proof -
  let ?s = "set_need_reschedule (cur c s) False s"
  have d: "distinct (cur c s # t # q)" "t_state (thr s t) = READY"
    using cpu_invD(1) [OF inv c] cpu_invD(4) [OF inv c, of t] rq by auto
  have off: "t \<notin> set (run_queue (cpus s i))" if "i < ncpu s" "i \<noteq> c" for i
    using cpu_invD(6) [OF inv c that(1)] that(2) rq by auto
  show ?thesis
    using fetch_switch [of ?s c t q "cur c s"] rq d off cpu_inv_thread_list [OF inv c] st
    unfolding schedule_def by (simp add: Let_def split_def)
qed

text \<open>
  \<open>schedule\<close> never fails when the current thread is ready, or is leaving and is not the idle
  thread; it restores the invariant and touches neither wait queues nor semaphores.
\<close>

lemma schedule_ok:
  assumes inv: "cpu_inv {c} s" and c: "c < ncpu s"
    and st: "t_state (thr s (cur c s)) = READY \<or> t_state (thr s (cur c s)) \<noteq> RUNNING \<and> cur c s \<noteq> idle_thread (cpus s c)"
    and w: "wait_inv s"
  obtains s' where "schedule c s = Some s'" "cpu_inv {} s'" "wait_inv s'" "ncpu s' = ncpu s"
    "wait_queues s' = wait_queues s" "counts s' = counts s"
    "\<And>t. t_state (thr s t) \<noteq> READY \<Longrightarrow> t_state (thr s' t) = t_state (thr s t)"
    "\<And>t. conf (thr s' t) = conf (thr s t)"
    "\<And>i. idle_thread (cpus s' i) = idle_thread (cpus s i)"
proof -
  let ?s = "set_need_reschedule (cur c s) False s"
  have inv': "cpu_inv {c} ?s" and w': "wait_inv ?s"
    using inv w by (simp_all add: cpu_inv_upd_same wait_inv_upd_same)
  have rot: "wait_inv (rotate_to c t q ?s)" if "t_state (thr s t) = READY" for t q
    unfolding rotate_to_def wait_inv_upd_cpu
    by (rule wait_inv_set_state) (use w' that in \<open>auto simp: blocked_def\<close>)
  have keep: "t_state (thr s u) \<noteq> READY \<Longrightarrow> t_state (thr (rotate_to c t q ?s) u) = t_state (thr s u)"
    "conf (thr (rotate_to c t q ?s) u) = conf (thr s u)" if "t_state (thr s t) = READY" for t q u
    using that by (cases "u = t"; cases "u = cur c s"; auto)+
  show ?thesis
  proof (cases "run_queue (cpus s c)")
    case Nil
    then have "t_state (thr s (cur c s)) = READY"
      using st cpu_invD(2) [OF inv c] by auto
    moreover from this have "cpu_inv {} ?s"
      using cpu_inv_close [OF inv'] cpu_invD(2) [OF inv c] Nil by simp
    ultimately show ?thesis
      using that [of ?s] schedule_ready(1) [OF inv c _ Nil] w' by auto
  next
    case (Cons t q)
    have ready: "t_state (thr s t) = READY"
      using cpu_invD(4) [OF inv c] Cons by simp
    show ?thesis
    proof (cases "t_state (thr s (cur c s)) = READY")
      case True
      have "cpu_inv {} (rotate_to c t (q @ [cur c s]) ?s)"
        using rotate_inv [OF inv', of t q "q @ [cur c s]"] c Cons True by simp
      then show ?thesis
        by (intro that [OF schedule_ready(2) [OF inv c True Cons]] rot [OF ready] keep [OF ready]) simp_all
    next
      case False
      then have "cpu_inv {} (rotate_to c t q ?s)"
        using rotate_inv [OF inv', of t q q] c Cons st by simp
      then show ?thesis
        by (intro that [OF schedule_gone [OF inv c False Cons]] rot [OF ready] keep [OF ready]) simp_all
    qed
  qed
qed

lemma cpu_inv_set_cur:
  assumes inv: "cpu_inv X s" and c: "c < ncpu s" and st: "st \<noteq> RUNNING"
  shows "cpu_inv (insert c X) (set_state (cur c s) st s)"
proof -
  let ?s = "set_state (cur c s) st s"
  have other: "thr ?s u = thr s u" if "i < ncpu s" "u \<in> set (run_queue (cpus s i)) \<or> i \<noteq> c \<and> u = cur i s" for i u
    using cpu_invD(1) [OF inv c] cpu_invD(6) [OF inv c that(1)] that(2) by (cases "i = c") auto
  show ?thesis
  proof (rule cpu_invI)
    fix i
    assume "i < ncpu ?s"
    then have i: "i < ncpu s"
      by simp
    show "distinct (hosts ?s i)" "idle_thread (cpus ?s i) \<in> set (hosts ?s i)"
      using cpu_invD(1,2) [OF inv i] by auto
    show "t_state (thr ?s u) = READY" if "u \<in> set (run_queue (cpus ?s i))" for u
      using cpu_invD(4) [OF inv i] other [OF i, of u] that by auto
    show "t_state (thr ?s (cur i ?s)) = RUNNING \<or> t_state (thr ?s (cur i ?s)) = READY \<and> cur i ?s = idle_thread (cpus ?s i)"
      if "i \<notin> insert c X"
      using cpu_invD(5) [OF inv i] that other [OF i, of "cur i s"] by (cases "i = c") (auto split: if_splits)
    show "set (hosts ?s i) \<inter> set (hosts ?s j) = {}" if "j < ncpu ?s" "i \<noteq> j" for j
      using cpu_invD(6) [OF inv i _ that(2)] that(1) by simp
  next
    fix u
    assume "t_state (thr ?s u) = RUNNING"
    then have "t_state (thr s u) = RUNNING"
      using st by (simp split: if_splits)
    then show "\<exists>i<ncpu ?s. u = cur i ?s"
      using cpu_inv_running [OF inv] by simp
  qed (use cpu_invD(3,7,8) [OF inv] in simp_all)
qed

lemma not_hosted:
  assumes "cpu_inv {} s" "t_state (thr s t) \<noteq> READY" "t_state (thr s t) \<noteq> RUNNING" "i < ncpu s"
  shows "t \<notin> set (hosts s i)"
  using cpu_invD(4,5) [OF assms(1,4)] assms(2,3) by auto

lemma enqueue_ok:
  assumes inv: "cpu_inv X s" and c: "c < ncpu s" and t: "t_state (thr s t) = READY"
    and out: "\<And>i. i < ncpu s \<Longrightarrow> t \<notin> set (hosts s i)"
  shows "enqueue c c t s = Some (upd_cpu c (run_queue_update (\<lambda>q. q @ [t])) s)"
    and "cpu_inv X (upd_cpu c (run_queue_update (\<lambda>q. q @ [t])) s)"
proof -
  let ?s = "upd_cpu c (run_queue_update (\<lambda>q. q @ [t])) s"
  have "\<not> run_linked t s"
    using out by (auto simp: run_linked_iff)
  then show "enqueue c c t s = Some ?s"
    using t by (simp add: enqueue_def fcfs_enqueue_def)
  have h: "hosts ?s i = (if i = c then hosts s i @ [t] else hosts s i)" for i
    by simp
  show "cpu_inv X ?s"
  proof (rule cpu_invI)
    fix i
    assume "i < ncpu ?s"
    then have i: "i < ncpu s"
      by simp
    show "distinct (hosts ?s i)"
      using cpu_invD(1) [OF inv i] out [OF i] unfolding h by auto
    show "idle_thread (cpus ?s i) \<in> set (hosts ?s i)" "zombie_queue (cpus ?s i) = []"
      using cpu_invD(2,3) [OF inv i] by auto
    show "t_state (thr ?s u) = READY" if "u \<in> set (run_queue (cpus ?s i))" for u
      using cpu_invD(4) [OF inv i] that t by (auto split: if_splits)
    show "t_state (thr ?s (cur i ?s)) = RUNNING \<or> t_state (thr ?s (cur i ?s)) = READY \<and> cur i ?s = idle_thread (cpus ?s i)" if "i \<notin> X"
      using cpu_invD(5) [OF inv i that] by auto
    show "set (hosts ?s i) \<inter> set (hosts ?s j) = {}" if "j < ncpu ?s" "i \<noteq> j" for j
      using cpu_invD(6) [OF inv i _ that(2)] out [OF i] out [of j] that unfolding h by auto
  qed (use cpu_inv_running [OF inv] cpu_invD(7,8) [OF inv] in simp_all)
qed

lemma cpu_inv_set_free:
  assumes inv: "cpu_inv X s" and st: "st \<noteq> RUNNING" and out: "\<And>i. i < ncpu s \<Longrightarrow> t \<notin> set (hosts s i)"
  shows "cpu_inv X (set_state t st s)"
proof -
  let ?s = "set_state t st s"
  have other: "thr ?s u = thr s u" if "i < ncpu s" "u \<in> set (hosts s i)" for i u
    using out [OF that(1)] that(2) by auto
  show ?thesis
  proof (rule cpu_invI)
    fix i
    assume "i < ncpu ?s"
    then have i: "i < ncpu s"
      by simp
    show "distinct (hosts ?s i)" "idle_thread (cpus ?s i) \<in> set (hosts ?s i)" "zombie_queue (cpus ?s i) = []"
      using cpu_invD(1,2,3) [OF inv i] by auto
    show "t_state (thr ?s u) = READY" if "u \<in> set (run_queue (cpus ?s i))" for u
      using cpu_invD(4) [OF inv i] other [OF i, of u] that by auto
    show "t_state (thr ?s (cur i ?s)) = RUNNING \<or> t_state (thr ?s (cur i ?s)) = READY \<and> cur i ?s = idle_thread (cpus ?s i)" if "i \<notin> X"
      using cpu_invD(5) [OF inv i that] other [OF i, of "cur i s"] by auto
    show "set (hosts ?s i) \<inter> set (hosts ?s j) = {}" if "j < ncpu ?s" "i \<noteq> j" for j
      using cpu_invD(6) [OF inv i _ that(2)] that by auto
  next
    fix u
    assume "t_state (thr ?s u) = RUNNING"
    then have "t_state (thr s u) = RUNNING"
      using st by (simp split: if_splits)
    then show "\<exists>i<ncpu ?s. u = cur i ?s"
      using cpu_inv_running [OF inv] by simp
  qed (use cpu_invD(7,8) [OF inv] in simp_all)
qed

lemma reschedule_locked_ok:
  assumes inv: "cpu_inv {} s" and c: "c < ncpu s" and w: "wait_inv s"
  obtains s' where "reschedule_locked c s = Some s'" "cpu_inv {} s'" "wait_inv s'" "ncpu s' = ncpu s"
    "wait_queues s' = wait_queues s" "counts s' = counts s"
    "\<And>t. t_state (thr s t) \<noteq> READY \<Longrightarrow> t_state (thr s t) \<noteq> RUNNING \<Longrightarrow> t_state (thr s' t) = t_state (thr s t)"
    "\<And>t. conf (thr s' t) = conf (thr s t)"
    "\<And>i. idle_thread (cpus s' i) = idle_thread (cpus s i)"
proof -
  let ?s = "set_state (cur c s) READY s"
  have st: "t_state (thr s (cur c s)) = RUNNING \<or> t_state (thr s (cur c s)) = READY"
    using cpu_invD(5) [OF inv c] by auto
  then have eq: "reschedule_locked c s = schedule c ?s"
    by (auto simp: reschedule_locked_def upd_thr_def fun_upd_idem Let_def)
  have "cpu_inv {c} ?s" "wait_inv ?s"
    using cpu_inv_set_cur [OF inv c, of READY] wait_inv_set_state [OF w, of "cur c s" READY] st by (auto simp: blocked_def)
  then obtain s' where s': "schedule c ?s = Some s'" "cpu_inv {} s'" "wait_inv s'" "ncpu s' = ncpu ?s"
    "wait_queues s' = wait_queues ?s" "counts s' = counts ?s"
    "\<And>t. t_state (thr ?s t) \<noteq> READY \<Longrightarrow> t_state (thr s' t) = t_state (thr ?s t)"
    "\<And>t. conf (thr s' t) = conf (thr ?s t)"
    "\<And>i. idle_thread (cpus s' i) = idle_thread (cpus ?s i)"
    using schedule_ok [of c ?s] c by auto
  show ?thesis
  proof (rule that [OF _ s'(2,3)])
    fix t
    assume t: "t_state (thr s t) \<noteq> READY" "t_state (thr s t) \<noteq> RUNNING"
    then have "t \<noteq> cur c s"
      using st by auto
    then show "t_state (thr s' t) = t_state (thr s t)"
      using s'(7) [of t] t by simp
  qed (use s' eq in \<open>auto\<close>)
qed

lemma unblock_ok:
  assumes inv: "cpu_inv X s" and c: "c < ncpu s"
    and out: "\<And>i. i < ncpu s \<Longrightarrow> t \<notin> set (hosts s i)"
    and aff: "affinity_cpu (thr s t) = None \<or> affinity_cpu (thr s t) = Some c"
  shows "unblock c t s = Some (affinity_cpu (thr s t) = Some c,
      upd_cpu c (run_queue_update (\<lambda>q. q @ [t])) (set_state t READY s))"
    and "cpu_inv X (upd_cpu c (run_queue_update (\<lambda>q. q @ [t])) (set_state t READY s))"
proof -
  let ?s = "set_state t READY s"
  have free: "cpu_inv X ?s"
    by (rule cpu_inv_set_free [OF inv _ out]) simp_all
  have out': "\<And>i. i < ncpu ?s \<Longrightarrow> t \<notin> set (hosts ?s i)"
    using out by simp
  have enq: "enqueue c c t ?s = Some (upd_cpu c (run_queue_update (\<lambda>q. q @ [t])) ?s)"
    by (rule enqueue_ok(1) [OF free _ _ out']) (use c in simp_all)
  show "cpu_inv X (upd_cpu c (run_queue_update (\<lambda>q. q @ [t])) ?s)"
    by (rule enqueue_ok(2) [OF free _ _ out']) (use c in simp_all)
  show "unblock c t s = Some (affinity_cpu (thr s t) = Some c, upd_cpu c (run_queue_update (\<lambda>q. q @ [t])) ?s)"
    using aff c enq by (auto simp: unblock_def unblock_on_def simp del: thr_updates)
qed

lemma unblock_Some:
  assumes "unblock c t s = Some (b, s')" and inv: "cpu_inv X s" and c: "c < ncpu s"
    and out: "\<And>i. i < ncpu s \<Longrightarrow> t \<notin> set (hosts s i)"
  shows "s' = upd_cpu c (run_queue_update (\<lambda>q. q @ [t])) (set_state t READY s)" "cpu_inv X s'"
proof -
  have aff: "affinity_cpu (thr s t) = None \<or> affinity_cpu (thr s t) = Some c"
    using assms(1) by (auto simp: unblock_def unblock_on_def split: option.splits)
  show "s' = upd_cpu c (run_queue_update (\<lambda>q. q @ [t])) (set_state t READY s)" "cpu_inv X s'"
    using assms(1) unblock_ok [OF inv c out aff] by auto
qed

lemma reschedule_locked_Some:
  assumes "reschedule_locked c s = Some s'" "cpu_inv {} s" "c < ncpu s" "wait_inv s"
  shows "cpu_inv {} s'" "wait_inv s'" "ncpu s' = ncpu s" "wait_queues s' = wait_queues s" "counts s' = counts s"
    "t_state (thr s t) \<noteq> READY \<Longrightarrow> t_state (thr s t) \<noteq> RUNNING \<Longrightarrow> t_state (thr s' t) = t_state (thr s t)"
    "conf (thr s' t) = conf (thr s t)" "idle_thread (cpus s' i) = idle_thread (cpus s i)"
proof -
  obtain s1 where "reschedule_locked c s = Some s1" "cpu_inv {} s1" "wait_inv s1" "ncpu s1 = ncpu s"
    "wait_queues s1 = wait_queues s" "counts s1 = counts s"
    "\<And>t. t_state (thr s t) \<noteq> READY \<Longrightarrow> t_state (thr s t) \<noteq> RUNNING \<Longrightarrow> t_state (thr s1 t) = t_state (thr s t)"
    "\<And>t. conf (thr s1 t) = conf (thr s t)" "\<And>i. idle_thread (cpus s1 i) = idle_thread (cpus s i)"
    by (rule reschedule_locked_ok [OF assms(2-4)]) (rule that; assumption)
  then show "cpu_inv {} s'" "wait_inv s'" "ncpu s' = ncpu s" "wait_queues s' = wait_queues s" "counts s' = counts s"
    "t_state (thr s t) \<noteq> READY \<Longrightarrow> t_state (thr s t) \<noteq> RUNNING \<Longrightarrow> t_state (thr s' t) = t_state (thr s t)"
    "conf (thr s' t) = conf (thr s t)" "idle_thread (cpus s' i) = idle_thread (cpus s i)"
    using assms(1) by auto
qed

section \<open>Rotation\<close>

lemma reschedule_rotates:
  assumes inv: "cpu_inv {} s" and c: "c < ncpu s" and rq: "run_queue (cpus s c) = t # q"
  obtains s' where "reschedule_locked c s = Some s'" "cpu_inv {} s'" "ncpu s' = ncpu s" "cur c s' = t"
    "t_state (thr s' t) = RUNNING" "run_queue (cpus s' c) = q @ [cur c s]"
proof -
  let ?s = "set_state (cur c s) READY s"
  let ?r = "rotate_to c t (q @ [cur c s]) (set_need_reschedule (cur c s) False ?s)"
  have st: "t_state (thr s (cur c s)) = RUNNING \<or> t_state (thr s (cur c s)) = READY"
    using cpu_invD(5) [OF inv c] by auto
  then have eq: "reschedule_locked c s = schedule c ?s"
    by (auto simp: reschedule_locked_def upd_thr_def fun_upd_idem Let_def)
  have i: "cpu_inv {c} ?s"
    using cpu_inv_set_cur [OF inv c, of READY] by simp
  have "schedule c ?s = Some ?r"
    using schedule_ready(2) [OF i, of c t q] c rq by simp
  moreover have "cpu_inv {c} (set_need_reschedule (cur c s) False ?s)"
    using i by (simp add: cpu_inv_upd_same)
  then have "cpu_inv {} ?r"
    using rotate_inv [of c "set_need_reschedule (cur c s) False ?s" t q "q @ [cur c s]"] c rq by simp
  ultimately show ?thesis
    using that [of ?r] eq by simp
qed

fun reschedules :: "cpu_num \<Rightarrow> nat \<Rightarrow> kstate \<Rightarrow> kstate option" where
  "reschedules c 0 s = Some s"
| "reschedules c (Suc n) s = do { s \<leftarrow> reschedule_locked c s; reschedules c n s }"

section \<open>The due times of a delta list\<close>

fun due :: "int \<Rightarrow> (nat \<Rightarrow> scheduler_timer) \<Rightarrow> nat list \<Rightarrow> (nat \<times> int) list" where
  "due b f [] = []"
| "due b f (x # xs) = (x, b + expires (f x)) # due (b + expires (f x)) f xs"

lemma due_cong: "(\<And>x. x \<in> set xs \<Longrightarrow> f x = g x) \<Longrightarrow> due b f xs = due b g xs"
  by (induction xs arbitrary: b) auto

lemma length_due [simp]: "length (due b f xs) = length xs"
  by (induction xs arbitrary: b) auto

text \<open>
  Where the search loop stops, the delta list with the timer linked in at that point has the
  due times of the old list with the due time of the new timer in between.
\<close>

lemma add_loop_due:
  assumes "tm \<notin> set xs" "distinct xs"
  obtains pre post s' A B where "add_loop tm xs k s = (k + length pre, s')" "xs = pre @ post"
    "cpus s' = cpus s" "due b (timers s) xs = A @ B" "length A = length pre"
    "due b (timers s') (pre @ tm # post) = A @ (tm, b + expires (timers s tm)) # B"
    "\<forall>x\<in>set A. snd x \<le> b + expires (timers s tm)"
    "B \<noteq> [] \<longrightarrow> b + expires (timers s tm) < snd (hd B)"
    "\<And>y. y \<notin> set xs \<Longrightarrow> y \<noteq> tm \<Longrightarrow> timers s' y = timers s y"
  using assms
proof (induction xs arbitrary: b k s thesis)
  case Nil
  show ?case
    by (rule Nil.prems(1) [of "[]" s "[]" "[]" "[]"]) simp_all
next
  case (Cons x xs)
  show ?case
  proof (cases "expires (timers s tm) < expires (timers s x)")
    case True
    let ?s = "upd_timer x (\<lambda>e. e - expires (timers s tm)) s"
    have "due b' (timers ?s) xs = due b' (timers s) xs" for b'
      using Cons.prems(2,3) by (intro due_cong) auto
    then show ?thesis
      using True Cons.prems(2,3)
      by (intro Cons.prems(1) [of "[]" ?s "x # xs" "[]" "due b (timers s) (x # xs)"])
        (auto intro!: due_cong)
  next
    case False
    let ?s = "upd_timer tm (\<lambda>e. e - expires (timers s x)) s"
    let ?b = "b + expires (timers s x)"
    have tx: "tm \<noteq> x" "tm \<notin> set xs" "distinct xs" "x \<notin> set xs"
      using Cons.prems(2,3) by auto
    obtain pre post s' A B where r: "add_loop tm xs (k + 1) ?s = (k + 1 + length pre, s')" "xs = pre @ post"
      "cpus s' = cpus ?s" "due ?b (timers ?s) xs = A @ B" "length A = length pre"
      "due ?b (timers s') (pre @ tm # post) = A @ (tm, ?b + expires (timers ?s tm)) # B"
      "\<forall>x\<in>set A. snd x \<le> ?b + expires (timers ?s tm)"
      "B \<noteq> [] \<longrightarrow> ?b + expires (timers ?s tm) < snd (hd B)"
      "\<And>y. y \<notin> set xs \<Longrightarrow> y \<noteq> tm \<Longrightarrow> timers s' y = timers ?s y"
      by (rule Cons.IH [OF _ tx(2,3)]) (rule that; assumption)
    have "due ?b (timers ?s) xs = due ?b (timers s) xs"
      using tx by (intro due_cong) auto
    moreover have "timers s' x = timers s x"
      using r(9) [of x] tx by auto
    moreover have "add_loop tm (x # xs) k s = (k + length (x # pre), s')"
      using False r(1) by simp
    ultimately show ?thesis
      using r False tx
      by (intro Cons.prems(1) [of "x # pre" s' post "(x, ?b) # A" B]) auto
  qed
qed

section \<open>Properties\<close>

text \<open>
  C4. First come, first served: while nothing else happens, the thread at position \<open>k\<close> of the run
  queue is running after \<open>k + 1\<close> reschedules, so every ready thread gets its turn.
\<close>

theorem reschedule_fair:
  assumes "cpu_inv {} s" "c < ncpu s" "k < length (run_queue (cpus s c))"
  shows "\<exists>s'. reschedules c (Suc k) s = Some s' \<and> cur c s' = run_queue (cpus s c) ! k
      \<and> t_state (thr s' (cur c s')) = RUNNING"
  using assms
proof (induction k arbitrary: s)
  case 0
  then obtain t q where rq: "run_queue (cpus s c) = t # q"
    by (cases "run_queue (cpus s c)") auto
  show ?case
    by (rule reschedule_rotates [OF 0(1,2) rq]) (simp add: rq)
next
  case (Suc k)
  then obtain t q where rq: "run_queue (cpus s c) = t # q"
    by (cases "run_queue (cpus s c)") auto
  obtain s1 where s1: "reschedule_locked c s = Some s1" "cpu_inv {} s1" "ncpu s1 = ncpu s"
    "run_queue (cpus s1 c) = q @ [cur c s]"
    by (rule reschedule_rotates [OF Suc.prems(1,2) rq])
  have "\<exists>s'. reschedules c (Suc k) s1 = Some s' \<and> cur c s' = run_queue (cpus s1 c) ! k
      \<and> t_state (thr s' (cur c s')) = RUNNING"
    using Suc.prems(2,3) by (intro Suc.IH) (simp_all add: s1 rq)
  then show ?case
    using Suc.prems(3) by (subst reschedules.simps) (simp add: s1 rq nth_append)
qed

text \<open>A processor with an idle thread and two ready threads.\<close>

definition demo_thread :: "thread_states \<Rightarrow> u64 \<Rightarrow> thread" where
  "demo_thread st fl = \<lparr>t_state = st, flags = fl, signals = 0, is_user = True, critical = False,
     affinity_cpu = None, affinity_type = SOFT, need_reschedule = False, wait_link = None,
     blocking_on = None, block_code = 0, interruptible = False, exit_code = 0\<rparr>"

definition demo_cpu :: "tid list \<Rightarrow> nat list \<Rightarrow> cpu_struct" where
  "demo_cpu q ts = \<lparr>run_queue = q, zombie_queue = [], idle_thread = 0, cur_thread = 0,
     timer_list = ts, timer_lock = False\<rparr>"

definition demo_kstate :: "tid list \<Rightarrow> nat list \<Rightarrow> kstate" where
  "demo_kstate q ts = \<lparr>thr = (\<lambda>t. demo_thread (if t = 0 then RUNNING else if t \<in> set q then READY else INITIAL)
         (if t = 0 then FLAG_IDLE else 0)),
     thread_list = [0], wait_queues = (\<lambda>_. []), counts = (\<lambda>_. 0), ncpu = 1, cpus = (\<lambda>_. demo_cpu q ts),
     timers = (\<lambda>n. \<lparr>expires = int n, arg = 0\<rparr>)\<rparr>"

lemmas demo_defs = demo_kstate_def demo_cpu_def demo_thread_def cur_def is_idle_def FLAG_IDLE_def FLAG_INIT_def

lemma demo_kstate_inv: "distinct q \<Longrightarrow> 0 \<notin> set q \<Longrightarrow> cpu_inv {} (demo_kstate q ts) \<and> wait_inv (demo_kstate q ts)"
  by (auto simp: cpu_inv_def wait_inv_def demo_defs blocked_def split: if_splits) (metis gr0I)

theorem reschedule_fair_witness:
  "\<exists>s'. reschedules 0 2 (demo_kstate [1, 2] []) = Some s' \<and> cur 0 s' = 2"
  using reschedule_fair [of "demo_kstate [1, 2] []" 0 1] demo_kstate_inv [of "[1, 2]" "[]"]
  by (auto simp: demo_defs numeral_2_eq_2)

lemma add_timer_due_parts:
  assumes "tm \<notin> set ts" "distinct ts" "timer_list (cpus s c) = ts" "\<not> timer_lock (cpus s c)"
  shows "ts = [] \<or> expires (timers s (hd ts)) \<le> expires (timers s tm) \<Longrightarrow>
      \<exists>s' A B. add_timer c tm s = Some s' \<and> due 0 (timers s) ts = A @ B
        \<and> due 0 (timers s') (timer_list (cpus s' c)) = A @ (tm, expires (timers s tm)) # B
        \<and> (\<forall>x\<in>set A. snd x \<le> expires (timers s tm)) \<and> (B \<noteq> [] \<longrightarrow> expires (timers s tm) < snd (hd B))"
    and "ts = x # xs \<Longrightarrow> expires (timers s tm) < expires (timers s x) \<Longrightarrow>
      \<exists>s'. add_timer c tm s = Some s' \<and> due 0 (timers s') (timer_list (cpus s' c))
        = (x, expires (timers s x) - expires (timers s tm)) # (tm, expires (timers s x))
          # due (expires (timers s x)) (timers s) xs"
proof -
  assume first: "ts = [] \<or> expires (timers s (hd ts)) \<le> expires (timers s tm)"
  obtain pre post s' A B where r: "add_loop tm ts 0 s = (0 + length pre, s')" "ts = pre @ post"
    "cpus s' = cpus s" "due 0 (timers s) ts = A @ B" "length A = length pre"
    "due 0 (timers s') (pre @ tm # post) = A @ (tm, 0 + expires (timers s tm)) # B"
    "\<forall>x\<in>set A. snd x \<le> 0 + expires (timers s tm)"
    "B \<noteq> [] \<longrightarrow> 0 + expires (timers s tm) < snd (hd B)"
    by (rule add_loop_due [OF assms(1,2)]) (rule that; assumption)
  have "pre = [] \<Longrightarrow> ts = []"
    using first r(4,5,8) by (cases ts) auto
  then have "(if length pre \<noteq> 0 then insert_after (length pre - 1) tm ts else insert_after (length pre) tm ts)
      = pre @ tm # post"
    using r(2) by (auto simp: insert_after_def)
  then have "add_timer c tm s = Some (set_timer_list c (pre @ tm # post) s')"
    using assms(3,4) r(1) by (simp add: add_timer_def)
  then show "\<exists>s' A B. add_timer c tm s = Some s' \<and> due 0 (timers s) ts = A @ B
        \<and> due 0 (timers s') (timer_list (cpus s' c)) = A @ (tm, expires (timers s tm)) # B
        \<and> (\<forall>x\<in>set A. snd x \<le> expires (timers s tm)) \<and> (B \<noteq> [] \<longrightarrow> expires (timers s tm) < snd (hd B))"
    using r by (intro exI [of _ "set_timer_list c (pre @ tm # post) s'"] exI [of _ A] exI [of _ B])
      (simp add: set_timer_list_def)
next
  assume ts: "ts = x # xs" and lt: "expires (timers s tm) < expires (timers s x)"
  then have "add_timer c tm s
      = Some (set_timer_list c (x # tm # xs) (upd_timer x (\<lambda>e. e - expires (timers s tm)) s))"
    using assms(3,4) by (simp add: add_timer_def insert_after_def)
  moreover have "x \<noteq> tm" "x \<notin> set xs" "tm \<notin> set xs"
    using assms(1,2) ts by auto
  ultimately show "\<exists>s'. add_timer c tm s = Some s' \<and> due 0 (timers s') (timer_list (cpus s' c))
        = (x, expires (timers s x) - expires (timers s tm)) # (tm, expires (timers s x))
          # due (expires (timers s x)) (timers s) xs"
    by (auto simp: set_timer_list_def intro!: due_cong)
qed

text \<open>
  C19. A new timer that is not due before the first one is linked in at its place: the due times of
  the others stay, those before it are not later and the one behind it is later. A timer that is
  due before the first one is linked in behind it instead: it fires when the first one should,
  and the first one fires too early.
\<close>

theorem add_timer_due:
  assumes "tm \<notin> set ts" "distinct ts" "timer_list (cpus s c) = ts" "\<not> timer_lock (cpus s c)"
  shows "(ts = [] \<or> expires (timers s (hd ts)) \<le> expires (timers s tm) \<longrightarrow>
      (\<exists>s' A B. add_timer c tm s = Some s' \<and> due 0 (timers s) ts = A @ B
        \<and> due 0 (timers s') (timer_list (cpus s' c)) = A @ (tm, expires (timers s tm)) # B
        \<and> (\<forall>x\<in>set A. snd x \<le> expires (timers s tm)) \<and> (B \<noteq> [] \<longrightarrow> expires (timers s tm) < snd (hd B))))
   \<and> (ts = x # xs \<longrightarrow> expires (timers s tm) < expires (timers s x) \<longrightarrow>
      (\<exists>s'. add_timer c tm s = Some s' \<and> due 0 (timers s') (timer_list (cpus s' c))
        = (x, expires (timers s x) - expires (timers s tm)) # (tm, expires (timers s x))
          # due (expires (timers s x)) (timers s) xs))"
  by (intro conjI impI; rule add_timer_due_parts [OF assms]; assumption)

theorem add_timer_due_witness:
  "(\<exists>s' A B. add_timer 0 7 (demo_kstate [] [5]) = Some s'
      \<and> due 0 (timers s') (timer_list (cpus s' 0)) = A @ (7, 7) # B)
   \<and> (\<exists>s'. add_timer 0 3 (demo_kstate [] [10]) = Some s'
      \<and> due 0 (timers s') (timer_list (cpus s' 0)) = [(10, 7), (3, 10)])"
  using add_timer_due [of 7 "[5]" "demo_kstate [] [5]" 0]
    add_timer_due [of 3 "[10]" "demo_kstate [] [10]" 0 10 "[]"]
  by (simp add: demo_defs) blast

lemma remote_enqueue_panics_parts:
  "affinity_cpu (thr s t) = Some a \<Longrightarrow> a \<noteq> c \<Longrightarrow> unblock c t s = None"
  "max_load s \<noteq> min_load s \<Longrightarrow> workload_size (max_load s) s > workload_size (min_load s) s + 1 \<Longrightarrow>
     min_load s \<noteq> c \<Longrightarrow> fcfs_steal c (max_load s) s = (Some v, s') \<Longrightarrow> balance c s = None"
  by (simp_all add: unblock_def unblock_on_def balance_def enqueue_def fcfs_enqueue_def kassert_def Let_def)

text \<open>
  C38. Readying a thread bound to another processor panics, and so does the push migration of the
  timer tick whenever the least loaded processor is not the one that ticks: both enqueue through
  the other processor's scheduler, which insists on being called on its own processor.
\<close>

theorem remote_enqueue_panics:
  shows "(affinity_cpu (thr s t) = Some a \<longrightarrow> a \<noteq> c \<longrightarrow> unblock c t s = None)
   \<and> (max_load s \<noteq> min_load s \<longrightarrow> workload_size (max_load s) s > workload_size (min_load s) s + 1 \<longrightarrow>
     min_load s \<noteq> c \<longrightarrow> fcfs_steal c (max_load s) s = (Some v, s') \<longrightarrow> balance c s = None)"
  by (intro conjI impI; rule remote_enqueue_panics_parts; assumption)

definition demo_two :: kstate where
  "demo_two = (demo_kstate [1, 2] [])\<lparr>ncpu := 2,
     cpus := (\<lambda>i. (demo_cpu (if i = 0 then [1, 2] else []) [])\<lparr>cur_thread := 3 * i, idle_thread := 3 * i\<rparr>)\<rparr>"

theorem remote_enqueue_panics_witness:
  "unblock 0 9 (upd_thr 9 (affinity_cpu_update (\<lambda>_. Some 1)) demo_two) = None \<and> balance 0 demo_two = None"
proof -
  have "max_load demo_two = 0" "min_load demo_two = 1" "workload_size 0 demo_two = 2"
    "workload_size 1 demo_two = 0"
    by (simp_all add: max_load_def min_load_def workload_size_def demo_two_def demo_defs upt_rec)
  moreover have "fst (fcfs_steal 0 0 demo_two) = Some 2"
    by (simp add: fcfs_steal_def stealable_def demo_two_def demo_defs Let_def)
  ultimately show ?thesis
    using remote_enqueue_panics [of "upd_thr 9 (affinity_cpu_update (\<lambda>_. Some 1)) demo_two" 9 1 0]
      remote_enqueue_panics [of demo_two 0 0 0 2 "snd (fcfs_steal 0 0 demo_two)"]
    by (auto simp: prod_eq_iff)
qed

end
