(* ===== verification/Wait_Queue.thy ===== *)
theory Wait_Queue
  imports Scheduler
begin

text \<open>
  Wait queues (\<^verbatim>\<open>kern/task/thread/wait_queue.cc\<close>), semaphores
  (\<^verbatim>\<open>kern/libs/kbl/lock/semaphore.cc\<close>) and the life cycle of a thread
  (\<^verbatim>\<open>kern/task/thread/thread.cc\<close>) over the scheduler's state. All of it runs under
  \<^verbatim>\<open>global_thread_lock\<close> with interrupts off, so an operation is one step. A call that blocks
  is two: the part up to the switch to another thread, and the part after the thread has been
  switched back to.
\<close>

unbundle bit_operations_syntax

section \<open>Wait queues\<close>

definition TIME_INFINITE :: int where
  "TIME_INFINITE = 2 ^ 63 - 1"

datatype resource_ownership = Normal | Reader

definition holding :: "tid \<Rightarrow> kstate \<Rightarrow> bool" where
  "holding t s \<longleftrightarrow> wait_link (thr s t) \<noteq> None"

definition peek :: "wq_id \<Rightarrow> kstate \<Rightarrow> tid option" where
  "peek q s = (case wait_queues s q of [] \<Rightarrow> None | t # _ \<Rightarrow> Some t)"

definition set_wq :: "wq_id \<Rightarrow> tid list \<Rightarrow> kstate \<Rightarrow> kstate" where
  "set_wq q ts s = s\<lparr>wait_queues := (wait_queues s)(q := ts)\<rparr>"

definition wq_dequeue :: "wq_id \<Rightarrow> tid \<Rightarrow> error_code \<Rightarrow> kstate \<Rightarrow> kstate option" where
  "wq_dequeue q t err s = do {
     kassert (holding t s);
     kassert (t_state (thr s t) = BLOCKED \<or> t_state (thr s t) = BLOCKED_READ_LOCK);
     kassert (blocking_on (thr s t) = Some q);
     kassert (t \<in> set (wait_queues s q));
     let s = set_wq q (remove1 t (wait_queues s q)) s;
     Some (upd_thr t (\<lambda>th. th\<lparr>wait_link := None, block_code := err, blocking_on := None\<rparr>) s)
   }"

definition unblock_thread :: "cpu_num \<Rightarrow> tid \<Rightarrow> error_code \<Rightarrow> kstate \<Rightarrow> (error_code \<times> kstate) option" where
  "unblock_thread c t code s =
     (if t_state (thr s t) \<noteq> BLOCKED \<and> t_state (thr s t) = BLOCKED_READ_LOCK
      then Some (code_of ERROR_INVALID, s)
      else do {
        q \<leftarrow> blocking_on (thr s t);
        kassert (holding t s);
        s \<leftarrow> wq_dequeue q t code s;
        (local_resched, s) \<leftarrow> unblock c t s;
        s \<leftarrow> (if local_resched then reschedule_locked c s else Some s);
        Some (code_of ERROR_SUCCESS, s)
      })"

text \<open>
  \<open>block_etc\<close> yields \<open>Some code\<close> when it returns at once and \<open>None\<close> when the processor has
  gone to another thread. \<open>tm\<close> names the timer on the caller's stack, \<open>now\<close> is the clock.
\<close>

definition block_etc :: "cpu_num \<Rightarrow> int \<Rightarrow> u32 \<Rightarrow> resource_ownership \<Rightarrow> bool \<Rightarrow> wq_id \<Rightarrow> nat \<Rightarrow> int \<Rightarrow>
    kstate \<Rightarrow> (error_code option \<times> kstate) option" where
  "block_etc c ddl signal_mask reason intr q tm now s = (
     let cu = cur c s; sig = signals (thr s cu) in do {
     kassert (t_state (thr s cu) = RUNNING);
     if ddl \<noteq> TIME_INFINITE \<and> ddl < now then Some (Some (code_of ERROR_TIMEOUT), s)
     else if intr \<and> (sig AND ucast (NOT signal_mask)) \<noteq> 0 \<and> (sig AND SIGNAL_KILLED) \<noteq> 0
     then Some (Some (code_of ERROR_INTERNAL_INTR_KILLED), s)
     else if intr \<and> (sig AND ucast (NOT signal_mask)) \<noteq> 0 \<and> (sig AND SIGNAL_SUSPEND) \<noteq> 0
     then Some (Some (code_of ERROR_INTERNAL_INTR_RETRY), s)
     else do {
       kassert (\<not> holding cu s);
       let s = set_wq q (wait_queues s q @ [cu]) s;
       let s = upd_thr cu (\<lambda>th. th\<lparr>interruptible := intr, wait_link := Some q,
           t_state := (case reason of Normal \<Rightarrow> BLOCKED | Reader \<Rightarrow> BLOCKED_READ_LOCK),
           blocking_on := Some q, block_code := code_of ERROR_SUCCESS\<rparr>) s;
       s \<leftarrow> (if ddl \<noteq> TIME_INFINITE
             then add_timer c tm (s\<lparr>timers := (timers s)(tm := \<lparr>expires = ddl - now, arg = cu\<rparr>)\<rparr>)
             else Some s);
       s \<leftarrow> reschedule_locked c s;
       Some (None, s)
     }
   })"

definition block_return :: "tid \<Rightarrow> kstate \<Rightarrow> error_code \<times> kstate" where
  "block_return t s = (block_code (thr s t), upd_thr t (\<lambda>th. th\<lparr>interruptible := False\<rparr>) s)"

definition wake_one :: "cpu_num \<Rightarrow> bool \<Rightarrow> error_code \<Rightarrow> wq_id \<Rightarrow> kstate \<Rightarrow> (bool \<times> kstate) option" where
  "wake_one c reschedule code q s = (case peek q s of
       None \<Rightarrow> Some (False, s)
     | Some t \<Rightarrow> do {
         s \<leftarrow> wq_dequeue q t code s;
         (local_resched, s) \<leftarrow> unblock c t s;
         if reschedule \<and> local_resched then do { s \<leftarrow> reschedule_locked c s; Some (True, s) }
         else Some (False, s)
       })"

fun dequeue_all :: "wq_id \<Rightarrow> error_code \<Rightarrow> tid list \<Rightarrow> kstate \<Rightarrow> kstate option" where
  "dequeue_all q code [] s = Some s"
| "dequeue_all q code (t # ts) s = do { s \<leftarrow> wq_dequeue q t code s; dequeue_all q code ts s }"

definition wake_all :: "cpu_num \<Rightarrow> bool \<Rightarrow> error_code \<Rightarrow> wq_id \<Rightarrow> kstate \<Rightarrow> kstate option" where
  "wake_all c reschedule code q s =
     (if wait_queues s q = [] then Some s
      else do {
        let ts = wait_queues s q;
        s \<leftarrow> dequeue_all q code ts s;
        s \<leftarrow> unblock_list c ts s;
        if reschedule then reschedule_locked c s else Some s
      })"

definition timeout_handle :: "cpu_num \<Rightarrow> nat \<Rightarrow> kstate \<Rightarrow> kstate option" where
  "timeout_handle c tm s = do {
     let t = arg (timers s tm);
     s \<leftarrow> remove_timer c tm s;
     (_, s) \<leftarrow> unblock_thread c t (code_of ERROR_TIMEOUT) s;
     Some s
   }"

definition unblock_if_interruptible :: "cpu_num \<Rightarrow> tid \<Rightarrow> error_code \<Rightarrow> kstate \<Rightarrow> kstate option" where
  "unblock_if_interruptible c t status s =
     (if interruptible (thr s t) then do { (_, s) \<leftarrow> unblock_thread c t status s; Some s } else Some s)"

definition unsleep :: "cpu_num \<Rightarrow> tid \<Rightarrow> error_code \<Rightarrow> kstate \<Rightarrow> (bool \<times> kstate) option" where
  "unsleep c t status s = unblock c t (upd_thr t (\<lambda>th. th\<lparr>block_code := status\<rparr>) s)"

definition unsleep_if_interruptible :: "cpu_num \<Rightarrow> tid \<Rightarrow> error_code \<Rightarrow> kstate \<Rightarrow> (bool \<times> kstate) option" where
  "unsleep_if_interruptible c t status s =
     (if interruptible (thr s t) then unsleep c t status s else Some (False, s))"

section \<open>Semaphores\<close>

definition set_count :: "nat \<Rightarrow> u64 \<Rightarrow> kstate \<Rightarrow> kstate" where
  "set_count n v s = s\<lparr>counts := (counts s)(n := v)\<rparr>"

definition sem_wait :: "cpu_num \<Rightarrow> nat \<Rightarrow> int \<Rightarrow> nat \<Rightarrow> int \<Rightarrow> kstate \<Rightarrow> (error_code option \<times> kstate) option" where
  "sem_wait c n ddl tm now s = do {
     kassert (counts s n = 0 \<or> wait_queues s (Sem n) = []);
     if counts s n > 0 then Some (Some (code_of ERROR_SUCCESS), set_count n (counts s n - 1) s)
     else block_etc c ddl 0 Normal True (Sem n) tm now s
   }"

definition sem_signal :: "cpu_num \<Rightarrow> nat \<Rightarrow> kstate \<Rightarrow> kstate option" where
  "sem_signal c n s = do {
     kassert (counts s n = 0 \<or> wait_queues s (Sem n) = []);
     if wait_queues s (Sem n) = [] then Some (set_count n (counts s n + 1) s)
     else do { (_, s) \<leftarrow> wake_one c True (code_of ERROR_SUCCESS) (Sem n) s; Some s }
   }"

definition sem_try_wait :: "nat \<Rightarrow> kstate \<Rightarrow> bool \<times> kstate" where
  "sem_try_wait n s =
     (if counts s n > 0 then (True, set_count n (counts s n - 1) s) else (False, s))"

definition waiter_count :: "nat \<Rightarrow> kstate \<Rightarrow> nat" where
  "waiter_count n s = length (wait_queues s (Sem n))"

section \<open>The life of a thread\<close>

text \<open>
  Creation: \<open>stack\<close> tells whether the kernel stack could be allocated, \<open>ustack\<close> the outcome of
  the allocation of a user stack. Names, handles and register frames are not part of this state.
\<close>

definition thread_create :: "tid \<Rightarrow> bool \<Rightarrow> bool \<Rightarrow> error_code \<Rightarrow> cpu_num option \<Rightarrow> cpu_affinity_type \<Rightarrow>
    kstate \<Rightarrow> tid error_code_with_result \<times> kstate" where
  "thread_create t user stack ustack aff ty s =
     (if \<not> stack then (Inl (- code_of ERROR_MEMORY_ALLOC), s)
      else if user \<and> ustack \<noteq> code_of ERROR_SUCCESS then (Inl ustack, s)
      else (Inr t, (upd_thr t (\<lambda>_. \<lparr>t_state = READY, flags = 0, signals = 0, is_user = user, critical = False,
          affinity_cpu = aff, affinity_type = ty, need_reschedule = False, wait_link = None,
          blocking_on = None, block_code = code_of ERROR_SUCCESS, interruptible = False,
          exit_code = code_of ERROR_SUCCESS\<rparr>) s)
          \<lparr>thread_list := thread_list s @ [t]\<rparr>))"

definition create_idle :: "cpu_num \<Rightarrow> tid \<Rightarrow> bool \<Rightarrow> kstate \<Rightarrow> error_code \<times> kstate" where
  "create_idle c t stack s = (case thread_create t False stack 0 (Some c) HARD s of
       (Inl e, s) \<Rightarrow> (e, s)
     | (Inr t, s) \<Rightarrow>
         (let s = upd_thr t (\<lambda>th. th\<lparr>flags := flags th OR FLAG_IDLE, need_reschedule := True\<rparr>) s
          in (code_of ERROR_SUCCESS, upd_cpu c (\<lambda>p. p\<lparr>idle_thread := t, cur_thread := t\<rparr>) s)))"

definition remove_from_lists :: "tid \<Rightarrow> kstate \<Rightarrow> kstate option" where
  "remove_from_lists t s = do {
     kassert (t \<in> set (thread_list s));
     Some (s\<lparr>thread_list := remove1 t (thread_list s)\<rparr>)
   }"

definition kill_locked :: "cpu_num \<Rightarrow> tid \<Rightarrow> kstate \<Rightarrow> kstate option" where
  "kill_locked c t s = (
     let s = upd_thr t (\<lambda>th. th\<lparr>signals := signals th OR SIGNAL_KILLED\<rparr>) s in
     if t = cur c s then Some s
     else case t_state (thr s t) of
         SUSPENDED \<Rightarrow> do {
           (r, s) \<leftarrow> unblock c t s;
           if r then reschedule_locked c s else Some s
         }
       | BLOCKED \<Rightarrow> unblock_if_interruptible c t (code_of ERROR_INTERNAL_INTR_KILLED) s
       | BLOCKED_READ_LOCK \<Rightarrow> unblock_if_interruptible c t (code_of ERROR_INTERNAL_INTR_KILLED) s
       | SLEEPING \<Rightarrow> do {
           (r, s) \<leftarrow> unsleep_if_interruptible c t (code_of ERROR_INTERNAL_INTR_KILLED) s;
           if r then reschedule_locked c s else Some s
         }
       | _ \<Rightarrow> Some s)"

text \<open>\<open>ints_off\<close> is \<^verbatim>\<open>arch_ints_disabled()\<close> at the call.\<close>

definition resume :: "cpu_num \<Rightarrow> bool \<Rightarrow> tid \<Rightarrow> kstate \<Rightarrow> kstate option" where
  "resume c ints_off t s =
     (if t_state (thr s t) = DEAD \<or> t_state (thr s t) = DYING then Some s
      else do {
        let s = upd_thr t (\<lambda>th. th\<lparr>signals := signals th AND NOT SIGNAL_SUSPEND\<rparr>) s;
        if t_state (thr s t) = INITIAL \<or> t_state (thr s t) = SUSPENDED then do {
          (local_resched, s) \<leftarrow> unblock c t s;
          if ints_off \<and> local_resched then reschedule_locked c s else Some s
        } else Some s
      })"

definition suspend_wake :: "cpu_num \<Rightarrow> tid \<Rightarrow> kstate \<Rightarrow> (bool \<times> kstate) option" where
  "suspend_wake c t s = (case t_state (thr s t) of
        INITIAL \<Rightarrow> unblock c t s
      | READY \<Rightarrow> Some (False, s)
      | RUNNING \<Rightarrow> Some (False, s)
      | SUSPENDED \<Rightarrow> Some (False, s)
      | BLOCKED \<Rightarrow> do {
          s \<leftarrow> unblock_if_interruptible c t (code_of ERROR_INTERNAL_INTR_RETRY) s; Some (False, s) }
      | BLOCKED_READ_LOCK \<Rightarrow> do {
          s \<leftarrow> unblock_if_interruptible c t (code_of ERROR_INTERNAL_INTR_RETRY) s; Some (False, s) }
      | SLEEPING \<Rightarrow> unsleep_if_interruptible c t (code_of ERROR_INTERNAL_INTR_RETRY) s
      | _ \<Rightarrow> None)"

definition suspend :: "cpu_num \<Rightarrow> tid \<Rightarrow> kstate \<Rightarrow> (error_code \<times> kstate) option" where
  "suspend c t s = do {
     kassert (\<not> is_idle t s);
     if t_state (thr s t) = DEAD then Some (- code_of ERROR_INVALID, s)
     else do {
       let s = upd_thr t (\<lambda>th. th\<lparr>signals := signals th OR SIGNAL_KILLED\<rparr>) s;
       (local_resched, s) \<leftarrow> suspend_wake c t s;
       s \<leftarrow> (if need_reschedule (thr s t) \<and> local_resched then reschedule_locked c s else Some s);
       Some (code_of ERROR_SUCCESS, s)
     }
   }"

definition exit_thread :: "cpu_num \<Rightarrow> error_code \<Rightarrow> kstate \<Rightarrow> kstate option" where
  "exit_thread c code s = (
     let cu = cur c s;
         s = upd_thr cu (\<lambda>th. th\<lparr>t_state := DYING, exit_code := code\<rparr>) s
     in do {
       s \<leftarrow> (if (flags (thr s cu) AND FLAG_DETACHED) \<noteq> 0 then remove_from_lists cu s
             else wake_all c False code (Join cu) s);
       reschedule_locked c s
     })"

text \<open>\<open>join\<close> up to the switch, and its part after the wake-up with code \<open>ret\<close>.\<close>

definition join_finish :: "tid \<Rightarrow> kstate \<Rightarrow> (error_code \<times> error_code option \<times> kstate) option" where
  "join_finish t s = do {
     kassert (t_state (thr s t) = DYING \<or> t_state (thr s t) = DEAD);
     kassert (\<not> holding t s);
     let out = exit_code (thr s t);
     s \<leftarrow> remove_from_lists t s;
     Some (code_of ERROR_SUCCESS, Some out, s)
   }"

definition join_enter :: "cpu_num \<Rightarrow> tid \<Rightarrow> int \<Rightarrow> nat \<Rightarrow> int \<Rightarrow> kstate \<Rightarrow>
    ((error_code \<times> error_code option) option \<times> kstate) option" where
  "join_enter c t ddl tm now s =
     (if (flags (thr s t) AND FLAG_DETACHED) \<noteq> 0 then Some (Some (code_of ERROR_INVALID, None), s)
      else if t_state (thr s t) \<noteq> DEAD then do {
        (r, s) \<leftarrow> block_etc c ddl 0 Normal False (Join t) tm now s;
        case r of None \<Rightarrow> Some (None, s) | Some e \<Rightarrow> Some (Some (e, None), s)
      } else do {
        (e, out, s) \<leftarrow> join_finish t s;
        Some (Some (e, out), s)
      })"

definition join_return :: "cpu_num \<Rightarrow> tid \<Rightarrow> kstate \<Rightarrow> (error_code \<times> error_code option \<times> kstate) option" where
  "join_return c t s = (
     let (ret, s) = block_return (cur c s) s
     in if ret \<noteq> code_of ERROR_SUCCESS then Some (ret, None, s) else join_finish t s)"

definition detach :: "cpu_num \<Rightarrow> tid \<Rightarrow> kstate \<Rightarrow> (error_code \<times> kstate) option" where
  "detach c t s = do {
     s \<leftarrow> wake_all c False (code_of ERROR_INVALID) (Join t) s;
     if t_state (thr s t) = DEAD then do {
       let s = upd_thr t (\<lambda>th. th\<lparr>flags := flags th AND NOT FLAG_DETACHED\<rparr>) s;
       (e, _, s) \<leftarrow> join_finish t s;
       Some (e, s)
     } else Some (code_of ERROR_SUCCESS, upd_thr t (\<lambda>th. th\<lparr>flags := flags th OR FLAG_DETACHED\<rparr>) s)
   }"

definition detach_and_resume :: "cpu_num \<Rightarrow> bool \<Rightarrow> tid \<Rightarrow> kstate \<Rightarrow> (error_code \<times> kstate) option" where
  "detach_and_resume c ints_off t s = do {
     (e, s) \<leftarrow> detach c t s;
     if e \<noteq> code_of ERROR_SUCCESS then Some (e, s)
     else do { s \<leftarrow> resume c ints_off t s; Some (code_of ERROR_SUCCESS, s) }
   }"

definition forget :: "cpu_num \<Rightarrow> tid \<Rightarrow> kstate \<Rightarrow> kstate option" where
  "forget c t s = do {
     kassert (t \<noteq> cur c s);
     s \<leftarrow> remove_from_lists t s;
     kassert (\<not> holding t s);
     Some s
   }"

section \<open>The invariant of the whole state\<close>

definition sem_inv :: "kstate \<Rightarrow> bool" where
  "sem_inv s \<longleftrightarrow> (\<forall>n. counts s n = 0 \<or> wait_queues s (Sem n) = [])"

definition sys_inv :: "kstate \<Rightarrow> bool" where
  "sys_inv s \<longleftrightarrow> cpu_inv {} s \<and> wait_inv s \<and> sem_inv s"

text \<open>
  The wait-queue part while the threads of \<open>L\<close> have been taken off their queue and not yet been
  made ready.
\<close>

definition wait_inv_but :: "tid set \<Rightarrow> kstate \<Rightarrow> bool" where
  "wait_inv_but L s \<longleftrightarrow>
     (\<forall>q. distinct (wait_queues s q) \<and> (\<forall>t. t \<in> set (wait_queues s q) \<longleftrightarrow> blocking_on (thr s t) = Some q))
     \<and> (\<forall>t. wait_link (thr s t) = blocking_on (thr s t)
          \<and> (blocked (t_state (thr s t)) \<longleftrightarrow> blocking_on (thr s t) \<noteq> None \<or> t \<in> L)
          \<and> (t \<in> L \<longrightarrow> blocking_on (thr s t) = None)
          \<and> (blocked (t_state (thr s t)) \<longrightarrow> \<not> is_idle t s))"

lemma wait_inv_but_empty: "wait_inv_but {} s \<longleftrightarrow> wait_inv s"
  unfolding wait_inv_but_def wait_inv_def by auto

lemma set_wq_simps [simp]:
  "thr (set_wq q ts s) = thr s" "cpus (set_wq q ts s) = cpus s" "ncpu (set_wq q ts s) = ncpu s"
  "thread_list (set_wq q ts s) = thread_list s" "counts (set_wq q ts s) = counts s"
  "wait_queues (set_wq q ts s) = (wait_queues s)(q := ts)" "timers (set_wq q ts s) = timers s"
  "cur i (set_wq q ts s) = cur i s" "is_idle t (set_wq q ts s) = is_idle t s"
  by (simp_all add: set_wq_def cur_def is_idle_def)

lemma set_count_simps [simp]:
  "thr (set_count n v s) = thr s" "cpus (set_count n v s) = cpus s" "ncpu (set_count n v s) = ncpu s"
  "thread_list (set_count n v s) = thread_list s" "counts (set_count n v s) = (counts s)(n := v)"
  "wait_queues (set_count n v s) = wait_queues s"
  "cur i (set_count n v s) = cur i s" "is_idle t (set_count n v s) = is_idle t s"
  by (simp_all add: set_count_def cur_def is_idle_def)

lemma cpu_inv_frame:
  assumes "thr s' = thr s" "ncpu s' = ncpu s" "thread_list s' = thread_list s"
    "\<And>i. run_queue (cpus s' i) = run_queue (cpus s i)" "\<And>i. zombie_queue (cpus s' i) = zombie_queue (cpus s i)"
    "\<And>i. idle_thread (cpus s' i) = idle_thread (cpus s i)" "\<And>i. cur i s' = cur i s"
  shows "cpu_inv X s' \<longleftrightarrow> cpu_inv X s"
  using assms unfolding cpu_inv_def is_idle_def by simp

lemma cpu_inv_set_wq [simp]: "cpu_inv X (set_wq q ts s) \<longleftrightarrow> cpu_inv X s"
  by (rule cpu_inv_frame) simp_all

lemma cpu_inv_set_count [simp]: "cpu_inv X (set_count n v s) \<longleftrightarrow> cpu_inv X s"
  by (rule cpu_inv_frame) simp_all

lemma wait_inv_set_count [simp]: "wait_inv (set_count n v s) \<longleftrightarrow> wait_inv s"
  unfolding wait_inv_def by simp

lemma sem_inv_frame: "counts s' = counts s \<Longrightarrow> wait_queues s' = wait_queues s \<Longrightarrow> sem_inv s' \<longleftrightarrow> sem_inv s"
  unfolding sem_inv_def by simp

lemma sys_inv_upd_same:
  assumes "\<And>th. t_state (f th) = t_state th" "\<And>th. wait_link (f th) = wait_link th"
    "\<And>th. blocking_on (f th) = blocking_on th" "\<And>th. flags (f th) = flags th"
  shows "sys_inv (upd_thr t f s) \<longleftrightarrow> sys_inv s"
  unfolding sys_inv_def using cpu_inv_upd_same [of f, OF assms(1,4)] wait_inv_upd_same [of f, OF assms]
    sem_inv_frame [of "upd_thr t f s" s] by simp

lemma reschedule_sys_inv:
  assumes "reschedule_locked c s = Some s'" "sys_inv s" "c < ncpu s"
  shows "sys_inv s'"
  using reschedule_locked_Some [OF assms(1) _ assms(3)] assms(2) sem_inv_frame [of s' s]
  unfolding sys_inv_def by blast

text \<open>A blocked thread is on no processor.\<close>

lemma blocked_not_hosted:
  assumes "cpu_inv X s" "blocked (t_state (thr s t))" "\<And>i. i \<in> X \<Longrightarrow> t \<noteq> cur i s" "i < ncpu s"
  shows "t \<notin> set (hosts s i)"
  using cpu_invD(4,5) [OF assms(1,4)] assms(2) assms(3) [of i] by (cases "i \<in> X") (auto simp: blocked_def)

section \<open>Leaving a wait queue\<close>

definition dequeued :: "wq_id \<Rightarrow> tid \<Rightarrow> error_code \<Rightarrow> kstate \<Rightarrow> kstate" where
  "dequeued q t err s = upd_thr t (\<lambda>th. th\<lparr>wait_link := None, block_code := err, blocking_on := None\<rparr>)
     (set_wq q (remove1 t (wait_queues s q)) s)"

lemma wq_dequeue_Some: "wq_dequeue q t err s = Some s' \<Longrightarrow> s' = dequeued q t err s \<and> t \<in> set (wait_queues s q)"
  by (auto simp: wq_dequeue_def dequeued_def Let_def)

lemma wq_dequeue_ok: "wait_inv_but L s \<Longrightarrow> t \<in> set (wait_queues s q) \<Longrightarrow> wq_dequeue q t err s = Some (dequeued q t err s)"
  by (auto simp: wq_dequeue_def dequeued_def holding_def wait_inv_but_def blocked_def Let_def)

lemma dequeued_simps [simp]:
  "cpu_inv X (dequeued q t err s) \<longleftrightarrow> cpu_inv X s" "ncpu (dequeued q t err s) = ncpu s"
  "cur i (dequeued q t err s) = cur i s" "cpus (dequeued q t err s) = cpus s"
  "wait_queues (dequeued q t err s) = (wait_queues s)(q := remove1 t (wait_queues s q))"
  "counts (dequeued q t err s) = counts s"
  "t_state (thr (dequeued q t err s) u) = t_state (thr s u)"
  "affinity_cpu (thr (dequeued q t err s) u) = affinity_cpu (thr s u)"
  "is_idle u (dequeued q t err s) = is_idle u s"
  by (simp_all add: dequeued_def cpu_inv_upd_same)

lemma dequeued_wait_inv:
  assumes "wait_inv_but L s" "t \<in> set (wait_queues s q)"
  shows "wait_inv_but (insert t L) (dequeued q t err s)"
proof -
  have b: "blocking_on (thr s t) = Some q"
    using assms unfolding wait_inv_but_def by blast
  then have "t \<notin> set (wait_queues s q')" if "q' \<noteq> q" for q'
    using assms(1) that unfolding wait_inv_but_def by simp
  then show ?thesis
    using assms(1) b unfolding wait_inv_but_def dequeued_def by (auto simp: blocked_def)
qed

lemma dequeued_sem_inv: "sem_inv s \<Longrightarrow> sem_inv (dequeued q t err s)"
  by (auto simp: sem_inv_def)

lemma ready_limbo:
  assumes "wait_inv_but L s" "t \<in> L"
  shows "wait_inv_but (L - {t}) (upd_cpu c g (set_state t READY s))"
  using assms unfolding wait_inv_but_def by (auto simp: blocked_def)

lemma unblock_limbo:
  assumes r: "unblock c t s = Some (b, s')" and inv: "cpu_inv X s" and w: "wait_inv_but L s" and c: "c < ncpu s"
    and t: "t \<in> L" and cu: "\<And>i. i \<in> X \<Longrightarrow> t \<noteq> cur i s"
  shows "cpu_inv X s'" "wait_inv_but (L - {t}) s'" "ncpu s' = ncpu s" "wait_queues s' = wait_queues s"
    "counts s' = counts s" "\<And>i. cur i s' = cur i s" "\<And>u. u \<noteq> t \<Longrightarrow> thr s' u = thr s u"
    "\<And>i. idle_thread (cpus s' i) = idle_thread (cpus s i)" "thread_list s' = thread_list s"
proof -
  have "blocked (t_state (thr s t))"
    using w t unfolding wait_inv_but_def by blast
  then have out: "\<And>i. i < ncpu s \<Longrightarrow> t \<notin> set (hosts s i)"
    using blocked_not_hosted [OF inv] cu by blast
  have eq: "s' = upd_cpu c (run_queue_update (\<lambda>q. q @ [t])) (set_state t READY s)" and "cpu_inv X s'"
    using unblock_Some [OF r inv c out] by auto
  show "cpu_inv X s'" by fact
  show "wait_inv_but (L - {t}) s'"
    unfolding eq by (rule ready_limbo [OF w t])
  show "ncpu s' = ncpu s" "wait_queues s' = wait_queues s" "counts s' = counts s" "\<And>i. cur i s' = cur i s"
    "\<And>u. u \<noteq> t \<Longrightarrow> thr s' u = thr s u" "\<And>i. idle_thread (cpus s' i) = idle_thread (cpus s i)"
    "thread_list s' = thread_list s"
    unfolding eq by simp_all
qed

lemma release_sys_inv:
  assumes "wq_dequeue q t err s = Some s1" "unblock c t s1 = Some (b, s2)" "sys_inv s" "c < ncpu s"
  shows "sys_inv s2" "ncpu s2 = ncpu s"
proof -
  have s1: "s1 = dequeued q t err s" "t \<in> set (wait_queues s q)"
    using wq_dequeue_Some [OF assms(1)] by auto
  have inv: "cpu_inv {} s" "wait_inv_but {} s" "sem_inv s"
    using assms(3) unfolding sys_inv_def wait_inv_but_empty by auto
  have 1: "cpu_inv {} s1" "wait_inv_but {t} s1" "sem_inv s1" "ncpu s1 = ncpu s"
    using inv dequeued_wait_inv [OF inv(2) s1(2)] dequeued_sem_inv [OF inv(3)] unfolding s1(1) by auto
  have 2: "cpu_inv {} s2" "wait_inv_but ({t} - {t}) s2" "ncpu s2 = ncpu s1" "wait_queues s2 = wait_queues s1"
    "counts s2 = counts s1"
    using unblock_limbo [OF assms(2) 1(1,2)] assms(4) 1(4) by auto
  then show "sys_inv s2" "ncpu s2 = ncpu s"
    using 1 sem_inv_frame [of s2 s1] unfolding sys_inv_def by (auto simp: wait_inv_but_empty)
qed

text \<open>The continuation of every wake-up: reschedule when asked to.\<close>

lemma maybe_reschedule_sys_inv:
  assumes "(if b then reschedule_locked c s else Some s) = Some s'" "sys_inv s" "c < ncpu s"
  shows "sys_inv s'"
  using assms reschedule_sys_inv by (auto split: if_splits)

lemma wake_one_sys_inv:
  assumes "wake_one c r code q s = Some (b, s')" "sys_inv s" "c < ncpu s"
  shows "sys_inv s'"
proof (cases "peek q s")
  case None
  then show ?thesis
    using assms by (simp add: wake_one_def)
next
  case (Some t)
  then obtain s1 l s2 where 1: "wq_dequeue q t code s = Some s1" "unblock c t s1 = Some (l, s2)"
    and 2: "(if r \<and> l then reschedule_locked c s2 else Some s2) = Some s'"
    using assms(1) by (auto simp: wake_one_def split: bind_splits if_splits)
  show ?thesis
    using maybe_reschedule_sys_inv [OF 2] release_sys_inv [OF 1 assms(2,3)] assms(3) by simp
qed

lemma unblock_thread_sys_inv:
  assumes "unblock_thread c t code s = Some (e, s')" "sys_inv s" "c < ncpu s"
  shows "sys_inv s'"
proof (cases "t_state (thr s t) = BLOCKED_READ_LOCK")
  case True
  then show ?thesis
    using assms by (simp add: unblock_thread_def)
next
  case False
  then obtain q s1 l s2 where 1: "wq_dequeue q t code s = Some s1" "unblock c t s1 = Some (l, s2)"
    and 2: "(if l then reschedule_locked c s2 else Some s2) = Some s'"
    using assms(1) by (auto simp: unblock_thread_def split: bind_splits if_splits)
  show ?thesis
    using maybe_reschedule_sys_inv [OF 2] release_sys_inv [OF 1 assms(2,3)] assms(3) by simp
qed

lemma unblock_if_interruptible_sys_inv:
  "unblock_if_interruptible c t code s = Some s' \<Longrightarrow> sys_inv s \<Longrightarrow> c < ncpu s \<Longrightarrow> sys_inv s'"
  using unblock_thread_sys_inv by (auto simp: unblock_if_interruptible_def split: bind_splits if_splits)

text \<open>Making a thread ready that waits nowhere and is on no processor.\<close>

lemma unblock_free_sys_inv:
  assumes "unblock c t s = Some (b, s')" "sys_inv s" "c < ncpu s"
    "t_state (thr s t) \<in> {INITIAL, SUSPENDED, SLEEPING}"
  shows "sys_inv s'" "ncpu s' = ncpu s"
proof -
  have inv: "cpu_inv {} s" "wait_inv s" "sem_inv s"
    using assms(2) unfolding sys_inv_def by auto
  have out: "\<And>i. i < ncpu s \<Longrightarrow> t \<notin> set (hosts s i)"
    by (rule not_hosted [OF inv(1)]) (use assms(4) in auto)
  have eq: "s' = upd_cpu c (run_queue_update (\<lambda>q. q @ [t])) (set_state t READY s)" and "cpu_inv {} s'"
    using unblock_Some [OF assms(1) inv(1) assms(3) out] by auto
  moreover have "wait_inv (set_state t READY s)"
    by (rule wait_inv_set_state [OF inv(2)]) (use assms(4) in \<open>auto simp: blocked_def\<close>)
  ultimately show "sys_inv s'"
    using inv(3) sem_inv_frame [of s' s] unfolding sys_inv_def by simp
  show "ncpu s' = ncpu s"
    unfolding eq by simp
qed

section \<open>Waking everybody\<close>

text \<open>What waking threads leaves alone.\<close>

definition keeps :: "kstate \<Rightarrow> kstate \<Rightarrow> bool" where
  "keeps s s' \<longleftrightarrow> ncpu s' = ncpu s \<and> thread_list s' = thread_list s
     \<and> (\<forall>i. cur i s' = cur i s \<and> idle_thread (cpus s' i) = idle_thread (cpus s i))
     \<and> (\<forall>t. is_idle t s' = is_idle t s)
     \<and> (\<forall>t. \<not> blocked (t_state (thr s t)) \<longrightarrow> t_state (thr s' t) = t_state (thr s t))"

lemma keeps_refl [simp]: "keeps s s"
  by (simp add: keeps_def)

lemma keeps_trans: "keeps s s1 \<Longrightarrow> keeps s1 s2 \<Longrightarrow> keeps s s2"
  by (simp add: keeps_def)

lemma keeps_dequeued: "keeps s (dequeued q t err s)"
  by (simp add: keeps_def) (simp add: dequeued_def)

lemma dequeue_all_inv:
  "dequeue_all q code ts s = Some s' \<Longrightarrow> cpu_inv X s \<Longrightarrow> wait_inv_but L s \<Longrightarrow> sem_inv s \<Longrightarrow>
   cpu_inv X s' \<and> wait_inv_but (L \<union> set ts) s' \<and> sem_inv s' \<and> keeps s s'"
proof (induction ts arbitrary: s L)
  case (Cons u ts)
  then obtain s1 where s1: "wq_dequeue q u code s = Some s1" "dequeue_all q code ts s1 = Some s'"
    by (auto split: bind_splits)
  have d: "s1 = dequeued q u code s" "u \<in> set (wait_queues s q)"
    using wq_dequeue_Some [OF s1(1)] by auto
  have "cpu_inv X s1" "wait_inv_but (insert u L) s1" "sem_inv s1" "keeps s s1"
    unfolding d(1) using Cons.prems(2-4) dequeued_wait_inv [OF Cons.prems(3) d(2)]
    by (simp_all add: dequeued_sem_inv keeps_dequeued)
  then show ?case
    using Cons.IH [OF s1(2)] keeps_trans by (metis Un_insert_left Un_insert_right list.simps(15))
qed simp

lemma unblock_ready_limbo:
  assumes r: "unblock c t (set_state t READY s) = Some (b, s')" and inv: "cpu_inv X s" and w: "wait_inv_but L s"
    and c: "c < ncpu s" and t: "t \<in> L" and cu: "\<And>i. i \<in> X \<Longrightarrow> t \<noteq> cur i s"
  shows "cpu_inv X s'" "wait_inv_but (L - {t}) s'" "keeps s s'" "wait_queues s' = wait_queues s" "counts s' = counts s"
proof -
  have b: "blocked (t_state (thr s t))"
    using w t unfolding wait_inv_but_def by blast
  then have out: "\<And>i. i < ncpu s \<Longrightarrow> t \<notin> set (hosts s i)"
    using blocked_not_hosted [OF inv] cu by blast
  have "cpu_inv X (set_state t READY s)"
    by (rule cpu_inv_set_free [OF inv _ out]) simp_all
  then have 1: "s' = upd_cpu c (run_queue_update (\<lambda>q. q @ [t])) (set_state t READY (set_state t READY s))" "cpu_inv X s'"
    using unblock_Some [OF r, of X] c out by auto
  have eq: "s' = upd_cpu c (run_queue_update (\<lambda>q. q @ [t])) (set_state t READY s)"
    unfolding 1(1) by (simp add: upd_thr_def)
  show "cpu_inv X s'" by fact
  show "wait_inv_but (L - {t}) s'"
    unfolding eq by (rule ready_limbo [OF w t])
  show "keeps s s'" "wait_queues s' = wait_queues s" "counts s' = counts s"
    unfolding eq keeps_def using b by auto
qed

lemma unblock_list_inv:
  "unblock_list c ts s = Some s' \<Longrightarrow> cpu_inv X s \<Longrightarrow> wait_inv_but (set ts) s \<Longrightarrow> distinct ts \<Longrightarrow> c < ncpu s \<Longrightarrow>
   (\<And>t i. t \<in> set ts \<Longrightarrow> i \<in> X \<Longrightarrow> t \<noteq> cur i s) \<Longrightarrow>
   cpu_inv X s' \<and> wait_inv s' \<and> keeps s s' \<and> wait_queues s' = wait_queues s \<and> counts s' = counts s"
proof (induction ts arbitrary: s)
  case Nil
  then show ?case
    by (simp add: wait_inv_but_empty)
next
  case (Cons t ts)
  then obtain b s1 where r: "unblock c t (set_state t READY s) = Some (b, s1)" "unblock_list c ts s1 = Some s'"
    by (auto split: bind_splits simp del: thr_updates)
  have "set (t # ts) - {t} = set ts"
    using Cons.prems(4) by auto
  then have 1: "cpu_inv X s1" "wait_inv_but (set ts) s1" "keeps s s1" "wait_queues s1 = wait_queues s" "counts s1 = counts s"
    using unblock_ready_limbo [OF r(1) Cons.prems(2,3,5)] Cons.prems(6) by auto
  then have cu: "c < ncpu s1" "\<And>u i. u \<in> set ts \<Longrightarrow> i \<in> X \<Longrightarrow> u \<noteq> cur i s1"
    using Cons.prems(5,6) by (auto simp: keeps_def)
  show ?case
    using Cons.IH [OF r(2) 1(1,2) _ cu] Cons.prems(4) 1(3-5) keeps_trans [of s s1 s'] by auto
qed

lemma wake_all_inv:
  assumes r: "wake_all c False code q s = Some s'" and inv: "cpu_inv X s" "wait_inv s" "sem_inv s" and c: "c < ncpu s"
    and cu: "\<And>i. i \<in> X \<Longrightarrow> \<not> blocked (t_state (thr s (cur i s)))"
  shows "cpu_inv X s' \<and> wait_inv s' \<and> sem_inv s' \<and> keeps s s'"
proof (cases "wait_queues s q = []")
  case True
  then show ?thesis
    using r inv by (simp add: wake_all_def)
next
  case False
  then obtain s1 where 1: "dequeue_all q code (wait_queues s q) s = Some s1"
    "unblock_list c (wait_queues s q) s1 = Some s'"
    using r by (auto simp: wake_all_def Let_def split: bind_splits)
  have w: "wait_inv_but {} s" "distinct (wait_queues s q)"
    using inv(2) by (auto simp: wait_inv_but_empty wait_inv_def)
  have 2: "cpu_inv X s1" "wait_inv_but (set (wait_queues s q)) s1" "sem_inv s1" "keeps s s1"
    using dequeue_all_inv [OF 1(1) inv(1) w(1) inv(3)] by auto
  have "t \<noteq> cur i s1" if "t \<in> set (wait_queues s q)" "i \<in> X" for t i
  proof -
    have "blocked (t_state (thr s t))"
      using inv(2) that(1) unfolding wait_inv_def by blast
    then show ?thesis
      using cu [OF that(2)] 2(4) by (auto simp: keeps_def)
  qed
  then have "cpu_inv X s' \<and> wait_inv s' \<and> keeps s1 s' \<and> wait_queues s' = wait_queues s1 \<and> counts s' = counts s1"
    using 2(4) c by (intro unblock_list_inv [OF 1(2) 2(1,2) w(2)]) (auto simp: keeps_def)
  then show ?thesis
    using 2(3,4) keeps_trans sem_inv_frame [of s' s1] by blast
qed

section \<open>Leaving the processor\<close>

lemma leave_sys_inv:
  assumes "reschedule_locked c s = Some s'" "cpu_inv {c} s" "wait_inv s" "sem_inv s" "c < ncpu s"
    "t_state (thr s (cur c s)) \<noteq> RUNNING" "cur c s \<noteq> idle_thread (cpus s c)"
  shows "sys_inv s'"
proof -
  have "schedule c s = Some s'"
    using assms(1,6) by (simp add: reschedule_locked_def Let_def)
  moreover obtain s1 where "schedule c s = Some s1" "cpu_inv {} s1" "wait_inv s1" "ncpu s1 = ncpu s"
    "wait_queues s1 = wait_queues s" "counts s1 = counts s"
    by (rule schedule_ok [OF assms(2,5) _ assms(3)]) (use assms(6,7) in auto)
  ultimately show ?thesis
    using assms(4) sem_inv_frame [of s1 s] unfolding sys_inv_def by simp
qed

lemma add_loop_frame:
  "add_loop tm xs k s = (k', s') \<Longrightarrow> thr s' = thr s \<and> wait_queues s' = wait_queues s \<and> counts s' = counts s
     \<and> ncpu s' = ncpu s \<and> thread_list s' = thread_list s \<and> cpus s' = cpus s"
  by (induction xs arbitrary: k s) (auto simp: upd_timer_def split: if_splits)

lemma add_timer_frame:
  assumes "add_timer c tm s = Some s'"
  shows "thr s' = thr s" "wait_queues s' = wait_queues s" "counts s' = counts s" "ncpu s' = ncpu s"
    "thread_list s' = thread_list s" "run_queue (cpus s' i) = run_queue (cpus s i)"
    "zombie_queue (cpus s' i) = zombie_queue (cpus s i)" "idle_thread (cpus s' i) = idle_thread (cpus s i)"
    "cur i s' = cur i s"
proof -
  obtain k s1 where 1: "add_loop tm (timer_list (cpus s c)) 0 s = (k, s1)"
    by fastforce
  obtain ts where "s' = set_timer_list c ts s1"
    using assms 1 by (auto simp: add_timer_def Let_def)
  then show "thr s' = thr s" "wait_queues s' = wait_queues s" "counts s' = counts s" "ncpu s' = ncpu s"
    "thread_list s' = thread_list s" "run_queue (cpus s' i) = run_queue (cpus s i)"
    "zombie_queue (cpus s' i) = zombie_queue (cpus s i)" "idle_thread (cpus s' i) = idle_thread (cpus s i)"
    "cur i s' = cur i s"
    using add_loop_frame [OF 1] by (auto simp: set_timer_list_def cur_def)
qed

lemma wait_inv_frame: "thr s' = thr s \<Longrightarrow> wait_queues s' = wait_queues s \<Longrightarrow> wait_inv s' \<longleftrightarrow> wait_inv s"
  unfolding wait_inv_def is_idle_def by simp

text \<open>The state in which \<open>block_etc\<close> calls the scheduler.\<close>

definition parked :: "tid \<Rightarrow> wq_id \<Rightarrow> thread_states \<Rightarrow> bool \<Rightarrow> kstate \<Rightarrow> kstate" where
  "parked t q st intr s = upd_thr t (\<lambda>th. th\<lparr>interruptible := intr, wait_link := Some q, t_state := st,
     blocking_on := Some q, block_code := code_of ERROR_SUCCESS\<rparr>) (set_wq q (wait_queues s q @ [t]) s)"

lemma parked_inv:
  assumes inv: "cpu_inv {} s" "wait_inv s" "sem_inv s" and c: "c < ncpu s" and st: "blocked st"
    and idle: "\<not> is_idle (cur c s) s" and q: "\<And>n. q = Sem n \<Longrightarrow> counts s n = 0"
  shows "cpu_inv {c} (parked (cur c s) q st intr s)" "wait_inv (parked (cur c s) q st intr s)"
    "sem_inv (parked (cur c s) q st intr s)"
proof -
  let ?t = "cur c s"
  let ?g = "\<lambda>th. th\<lparr>interruptible := intr, wait_link := Some q, blocking_on := Some q,
     block_code := code_of ERROR_SUCCESS\<rparr>"
  have eq: "parked ?t q st intr s = upd_thr ?t ?g (set_wq q (wait_queues s q @ [?t]) (set_state ?t st s))"
    by (cases "thr s ?t") (simp add: parked_def upd_thr_def set_wq_def)
  have "cpu_inv {c} (set_state ?t st s)"
    using cpu_inv_set_cur [OF inv(1) c, of st] st by (auto simp: blocked_def split: if_splits)
  then show "cpu_inv {c} (parked ?t q st intr s)"
    unfolding eq by (simp add: cpu_inv_upd_same)
  have "\<not> blocked (t_state (thr s ?t))"
    using cpu_invD(5) [OF inv(1) c] by (auto simp: blocked_def)
  then have "blocking_on (thr s ?t) = None" "\<And>q. ?t \<notin> set (wait_queues s q)"
    using inv(2) unfolding wait_inv_def by auto
  then show "wait_inv (parked ?t q st intr s)"
    using inv(2) st idle unfolding wait_inv_def parked_def by auto
  show "sem_inv (parked ?t q st intr s)"
    using inv(3) q by (auto simp: sem_inv_def parked_def)
qed

lemma block_etc_sys_inv:
  assumes r: "block_etc c ddl mk reason intr q tm now s = Some (e, s')" and inv: "sys_inv s" and c: "c < ncpu s"
    and idle: "\<not> is_idle (cur c s) s" and q: "\<And>n. q = Sem n \<Longrightarrow> counts s n = 0"
  shows "sys_inv s'"
proof (cases e)
  case (Some code)
  then have "s' = s"
    using r by (auto simp: block_etc_def Let_def split: if_splits bind_splits)
  then show ?thesis
    using inv by simp
next
  case None
  let ?st = "case reason of Normal \<Rightarrow> BLOCKED | Reader \<Rightarrow> BLOCKED_READ_LOCK"
  let ?p = "parked (cur c s) q ?st intr s"
  let ?a = "?p\<lparr>timers := (timers s)(tm := \<lparr>expires = ddl - now, arg = cur c s\<rparr>)\<rparr>"
  obtain s1 where 1: "(if ddl \<noteq> TIME_INFINITE then add_timer c tm ?a else Some ?p) = Some s1"
    "reschedule_locked c s1 = Some s'"
    using r None
    by (auto simp: block_etc_def parked_def Let_def split: if_splits bind_splits)
  have st: "blocked ?st"
    by (cases reason) (auto simp: blocked_def)
  have p: "cpu_inv {c} ?p" "wait_inv ?p" "sem_inv ?p"
    using parked_inv [OF _ _ _ c st idle q] inv unfolding sys_inv_def by auto
  have f: "thr s1 = thr ?p" "wait_queues s1 = wait_queues ?p" "counts s1 = counts ?p" "ncpu s1 = ncpu ?p"
    "thread_list s1 = thread_list ?p" "\<And>i. run_queue (cpus s1 i) = run_queue (cpus ?p i)"
    "\<And>i. zombie_queue (cpus s1 i) = zombie_queue (cpus ?p i)"
    "\<And>i. idle_thread (cpus s1 i) = idle_thread (cpus ?p i)" "\<And>i. cur i s1 = cur i ?p"
    using 1(1) add_timer_frame [of c tm ?a s1] by (auto simp: cur_def split: if_splits)
  have "cpu_inv {c} s1" "wait_inv s1" "sem_inv s1"
    using p cpu_inv_frame [of s1 ?p "{c}", OF f(1,4-9)] wait_inv_frame [OF f(1,2)] sem_inv_frame [OF f(3,2)] by auto
  moreover have "c < ncpu s1" "t_state (thr s1 (cur c s1)) \<noteq> RUNNING"
    using c st by (auto simp: f parked_def blocked_def)
  moreover have "cur c s1 \<noteq> idle_thread (cpus s1 c)"
    using idle cpu_invD(8) [of "{}" s c] inv c by (auto simp: f parked_def sys_inv_def)
  ultimately show ?thesis
    by (rule leave_sys_inv [OF 1(2)])
qed

section \<open>Every operation keeps the invariant\<close>

lemma sys_inv_signals [simp]: "sys_inv (upd_thr t (\<lambda>th. th\<lparr>signals := f th\<rparr>) s) \<longleftrightarrow> sys_inv s"
  by (rule sys_inv_upd_same) simp_all

lemma sys_inv_block_code [simp]: "sys_inv (upd_thr t (\<lambda>th. th\<lparr>block_code := e\<rparr>) s) \<longleftrightarrow> sys_inv s"
  by (rule sys_inv_upd_same) simp_all

lemma block_return_sys_inv: "sys_inv s \<Longrightarrow> sys_inv (snd (block_return t s))"
  unfolding block_return_def by (simp add: sys_inv_upd_same)

lemma sem_wait_sys_inv:
  assumes "sem_wait c n ddl tm now s = Some (e, s')" "sys_inv s" "c < ncpu s" "\<not> is_idle (cur c s) s"
  shows "sys_inv s'"
proof (cases "counts s n > 0")
  case True
  then show ?thesis
    using assms(1,2) by (auto simp: sem_wait_def sys_inv_def sem_inv_def word_gt_0)
next
  case False
  then show ?thesis
    using assms by (auto simp: sem_wait_def word_gt_0 intro!: block_etc_sys_inv [of c ddl 0 Normal True "Sem n" tm now s e s'])
qed

lemma sem_signal_sys_inv:
  assumes "sem_signal c n s = Some s'" "sys_inv s" "c < ncpu s"
  shows "sys_inv s'"
proof (cases "wait_queues s (Sem n) = []")
  case True
  then show ?thesis
    using assms(1,2) by (auto simp: sem_signal_def sys_inv_def sem_inv_def)
next
  case False
  then show ?thesis
    using assms wake_one_sys_inv by (auto simp: sem_signal_def split: bind_splits if_splits)
qed

lemma sem_try_wait_sys_inv: "sys_inv s \<Longrightarrow> sys_inv (snd (sem_try_wait n s))"
  by (auto simp: sem_try_wait_def sys_inv_def sem_inv_def word_gt_0)

lemma unsleep_sys_inv:
  assumes "unsleep_if_interruptible c t code s = Some (b, s')" "sys_inv s" "c < ncpu s" "t_state (thr s t) = SLEEPING"
  shows "sys_inv s'" "ncpu s' = ncpu s"
proof -
  let ?s = "upd_thr t (\<lambda>th. th\<lparr>block_code := code\<rparr>) s"
  have "sys_inv s' \<and> ncpu s' = ncpu s" if "unblock c t ?s = Some (b, s')"
    using unblock_free_sys_inv [OF that] assms(2-4) by simp
  then show "sys_inv s'" "ncpu s' = ncpu s"
    using assms(1,2) by (auto simp: unsleep_if_interruptible_def unsleep_def split: if_splits)
qed

lemma kill_sys_inv:
  assumes r: "kill_locked c t s = Some s'" and inv: "sys_inv s" and c: "c < ncpu s"
  shows "sys_inv s'"
proof -
  let ?s = "upd_thr t (\<lambda>th. th\<lparr>signals := signals th OR SIGNAL_KILLED\<rparr>) s"
  have s: "sys_inv ?s" "c < ncpu ?s" "t_state (thr ?s t) = t_state (thr s t)"
    using inv c by simp_all
  have free: "sys_inv s'" if "unblock c t ?s = Some (b, s1)" "(if b then reschedule_locked c s1 else Some s1) = Some s'"
    "t_state (thr s t) \<in> {INITIAL, SUSPENDED, SLEEPING}" for b s1
    using maybe_reschedule_sys_inv [OF that(2)] unblock_free_sys_inv [OF that(1) s(1,2)] that(3) s(2,3) by simp
  have sleep: "sys_inv s'" if "unsleep_if_interruptible c t code ?s = Some (b, s1)"
    "(if b then reschedule_locked c s1 else Some s1) = Some s'" "t_state (thr s t) = SLEEPING" for b s1 code
    using maybe_reschedule_sys_inv [OF that(2)] unsleep_sys_inv [OF that(1) s(1,2)] that(3) s(2,3) by simp
  show ?thesis
    using r s unblock_if_interruptible_sys_inv [of c t _ ?s s'] free sleep
    by (auto simp: kill_locked_def Let_def split: if_splits thread_states.splits bind_splits)
qed

lemma resume_sys_inv:
  assumes r: "resume c io t s = Some s'" and inv: "sys_inv s" and c: "c < ncpu s"
  shows "sys_inv s'"
proof -
  let ?s = "upd_thr t (\<lambda>th. th\<lparr>signals := signals th AND NOT SIGNAL_SUSPEND\<rparr>) s"
  have s: "sys_inv ?s" "c < ncpu ?s"
    using inv c by simp_all
  have free: "sys_inv s'" if "unblock c t ?s = Some (b, s1)" "(if io \<and> b then reschedule_locked c s1 else Some s1) = Some s'"
    "t_state (thr s t) \<in> {INITIAL, SUSPENDED, SLEEPING}" for b s1
    using maybe_reschedule_sys_inv [OF that(2)] unblock_free_sys_inv [OF that(1) s] that(3) s(2) by simp
  show ?thesis
    using r s(1) inv free by (auto simp: resume_def Let_def split: if_splits bind_splits)
qed

lemma suspend_sys_inv:
  assumes r: "suspend c t s = Some (e, s')" and inv: "sys_inv s" and c: "c < ncpu s"
  shows "sys_inv s'"
proof (cases "t_state (thr s t) = DEAD")
  case True
  then show ?thesis
    using r inv by (auto simp: suspend_def)
next
  case False
  let ?s = "upd_thr t (\<lambda>th. th\<lparr>signals := signals th OR SIGNAL_KILLED\<rparr>) s"
  have s: "sys_inv ?s" "c < ncpu ?s"
    using inv c by simp_all
  obtain b s1 where 1: "suspend_wake c t ?s = Some (b, s1)"
    and 2: "(if need_reschedule (thr s1 t) \<and> b then reschedule_locked c s1 else Some s1) = Some s'"
    using r False by (auto simp: suspend_def Let_def split: bind_splits prod.splits if_splits)
  show ?thesis
  proof (cases b)
    case True
    then have "sys_inv s1 \<and> c < ncpu s1"
      using 1 unblock_free_sys_inv [of c t ?s b s1] unsleep_sys_inv [of c t _ ?s b s1] s
      by (auto simp: suspend_wake_def split: thread_states.splits bind_splits)
    then show ?thesis
      using maybe_reschedule_sys_inv [OF 2] by simp
  next
    case False
    then have "s1 = s'"
      using 2 by simp
    then show ?thesis
      using 1 s False unblock_free_sys_inv [of c t ?s b s1] unsleep_sys_inv [of c t _ ?s b s1]
        unblock_if_interruptible_sys_inv [of c t _ ?s s1]
      by (auto simp: suspend_wake_def split: thread_states.splits bind_splits)
  qed
qed

lemma idle_flag_or [simp]: "((w OR FLAG_DETACHED) AND FLAG_IDLE) = (w AND FLAG_IDLE)"
  by (simp add: FLAG_DETACHED_def FLAG_IDLE_def bit.conj_disj_distrib2)

lemma idle_flag_and [simp]: "((w AND NOT FLAG_DETACHED) AND FLAG_IDLE) = (w AND FLAG_IDLE)"
  by (simp add: FLAG_DETACHED_def FLAG_IDLE_def and.assoc)

lemma sys_inv_flags:
  assumes "\<And>th. (f th AND FLAG_IDLE) = (flags th AND FLAG_IDLE)"
  shows "sys_inv (upd_thr t (\<lambda>th. th\<lparr>flags := f th\<rparr>) s) \<longleftrightarrow> sys_inv s"
proof -
  let ?s = "upd_thr t (\<lambda>th. th\<lparr>flags := f th\<rparr>) s"
  have fr: "t_state (thr ?s u) = t_state (thr s u)" "blocking_on (thr ?s u) = blocking_on (thr s u)"
    "wait_link (thr ?s u) = wait_link (thr s u)" "is_idle u ?s = is_idle u s" for u
    using assms by (simp_all add: is_idle_def)
  have "cpu_inv {} ?s \<longleftrightarrow> cpu_inv {} s"
    unfolding cpu_inv_def by (simp only: fr upd_thr_simps(2-7) cur_upd)
  moreover have "wait_inv ?s \<longleftrightarrow> wait_inv s"
    unfolding wait_inv_def by (simp only: fr upd_thr_simps(2-7))
  ultimately show ?thesis
    using sem_inv_frame [of ?s s] unfolding sys_inv_def by simp
qed

lemma cpu_inv_remove_thread:
  assumes inv: "cpu_inv X s" and t: "\<And>i. i < ncpu s \<Longrightarrow> idle_thread (cpus s i) \<noteq> t"
  shows "cpu_inv X (s\<lparr>thread_list := remove1 t (thread_list s)\<rparr>)"
  using cpu_invD(7) [OF inv] t inv unfolding cpu_inv_def
  by (simp add: cur_def is_idle_def)

lemma remove_thread_sys_inv:
  assumes r: "remove_from_lists t s = Some s'" and inv: "sys_inv s"
    and t: "t_state (thr s t) = DYING \<or> t_state (thr s t) = DEAD"
  shows "sys_inv s'"
proof -
  have s': "s' = s\<lparr>thread_list := remove1 t (thread_list s)\<rparr>"
    using r by (auto simp: remove_from_lists_def)
  have c: "cpu_inv {} s" "wait_inv s" "sem_inv s"
    using inv unfolding sys_inv_def by auto
  have "idle_thread (cpus s i) \<noteq> t" if "i < ncpu s" for i
    using not_hosted [OF c(1) _ _ that, of t] cpu_invD(2) [OF c(1) that] t by auto
  then have "cpu_inv {} s'"
    unfolding s' by (rule cpu_inv_remove_thread [OF c(1)])
  then show ?thesis
    using c(2,3) wait_inv_frame [of s' s] sem_inv_frame [of s' s] unfolding sys_inv_def s' by simp
qed

lemma exit_sys_inv:
  assumes r: "exit_thread c code s = Some s'" and inv: "sys_inv s" and c: "c < ncpu s"
    and idle: "\<not> is_idle (cur c s) s"
  shows "sys_inv s'"
proof -
  let ?t = "cur c s"
  let ?f = "\<lambda>th. th\<lparr>t_state := DYING, exit_code := code\<rparr>"
  let ?s = "upd_thr ?t ?f s"
  have i: "cpu_inv {} s" "wait_inv s" "sem_inv s"
    using inv unfolding sys_inv_def by auto
  have nb: "\<not> blocked (t_state (thr s ?t))"
    using cpu_invD(5) [OF i(1) c] by (auto simp: blocked_def)
  have eq: "?s = upd_thr ?t (\<lambda>th. th\<lparr>exit_code := code\<rparr>) (set_state ?t DYING s)"
    by (simp add: upd_thr_def)
  have 1: "cpu_inv {c} ?s" "wait_inv ?s" "sem_inv ?s"
    unfolding eq using cpu_inv_set_cur [OF i(1) c, of DYING] wait_inv_set_state [OF i(2) nb, of DYING]
      sem_inv_frame [of "upd_thr ?t (\<lambda>th. th\<lparr>exit_code := code\<rparr>) (set_state ?t DYING s)" s] i(3)
    by (simp_all add: cpu_inv_upd_same wait_inv_upd_same blocked_def)
  have ni: "idle_thread (cpus s i) \<noteq> ?t" if "i < ncpu s" for i
    using cpu_invD(8) [OF i(1) that] idle by auto
  obtain s1 where s1: "(if (flags (thr ?s ?t) AND FLAG_DETACHED) \<noteq> 0 then remove_from_lists ?t ?s
      else wake_all c False code (Join ?t) ?s) = Some s1" "reschedule_locked c s1 = Some s'"
    using r unfolding exit_thread_def Let_def by (auto split: bind_splits)
  have "cpu_inv {c} s1 \<and> wait_inv s1 \<and> sem_inv s1 \<and> ncpu s1 = ncpu s \<and> cur c s1 = ?t
    \<and> idle_thread (cpus s1 c) = idle_thread (cpus s c) \<and> t_state (thr s1 ?t) = DYING"
  proof (cases "(flags (thr ?s ?t) AND FLAG_DETACHED) \<noteq> 0")
    case True
    then have s1': "s1 = ?s\<lparr>thread_list := remove1 ?t (thread_list ?s)\<rparr>"
      using s1(1) by (auto simp: remove_from_lists_def)
    have "cpu_inv {c} s1"
      unfolding s1' by (rule cpu_inv_remove_thread [OF 1(1)]) (use ni in simp)
    then show ?thesis
      using 1 wait_inv_frame [of s1 ?s] sem_inv_frame [of s1 ?s] unfolding s1' by (simp add: cur_def)
  next
    case False
    then have "wake_all c False code (Join ?t) ?s = Some s1"
      using s1(1) by simp
    then have "cpu_inv {c} s1 \<and> wait_inv s1 \<and> sem_inv s1 \<and> keeps ?s s1"
      by (rule wake_all_inv [OF _ 1]) (use c in \<open>auto simp: blocked_def\<close>)
    then show ?thesis
      by (auto simp: keeps_def blocked_def)
  qed
  then show ?thesis
    using leave_sys_inv [OF s1(2)] ni [OF c] c by auto
qed

lemma join_finish_sys_inv: "join_finish t s = Some (e, out, s') \<Longrightarrow> sys_inv s \<Longrightarrow> sys_inv s'"
  using remove_thread_sys_inv by (auto simp: join_finish_def Let_def split: bind_splits)

lemma join_enter_sys_inv:
  assumes "join_enter c t ddl tm now s = Some (r, s')" "sys_inv s" "c < ncpu s" "\<not> is_idle (cur c s) s"
  shows "sys_inv s'"
  using assms block_etc_sys_inv [of c ddl 0 Normal False "Join t" tm now s _ s'] join_finish_sys_inv [of t s _ _ s']
  by (auto simp: join_enter_def split: if_splits bind_splits option.splits)

lemma join_return_sys_inv:
  assumes "join_return c t s = Some (e, out, s')" "sys_inv s"
  shows "sys_inv s'"
  using assms join_finish_sys_inv [of t "snd (block_return (cur c s) s)" e out s'] block_return_sys_inv [of s "cur c s"]
  by (auto simp: join_return_def split_def Let_def split: if_splits)

lemma detach_sys_inv:
  assumes r: "detach c t s = Some (e, s')" and inv: "sys_inv s" and c: "c < ncpu s"
  shows "sys_inv s'"
proof -
  obtain s1 where 1: "wake_all c False (code_of ERROR_INVALID) (Join t) s = Some s1"
    using r by (auto simp: detach_def split: bind_splits)
  have s1: "sys_inv s1"
    using wake_all_inv [OF 1, of "{}"] inv c unfolding sys_inv_def by auto
  let ?d = "upd_thr t (\<lambda>th. th\<lparr>flags := flags th AND NOT FLAG_DETACHED\<rparr>) s1"
  have "sys_inv ?d"
    using s1 sys_inv_flags [of "\<lambda>th. flags th AND NOT FLAG_DETACHED"] by simp
  moreover have "sys_inv (upd_thr t (\<lambda>th. th\<lparr>flags := flags th OR FLAG_DETACHED\<rparr>) s1)"
    using s1 sys_inv_flags [of "\<lambda>th. flags th OR FLAG_DETACHED"] by simp
  ultimately show ?thesis
    using r 1 join_finish_sys_inv [of t ?d _ _ s']
    by (auto simp: detach_def Let_def split: if_splits bind_splits)
qed

lemma thread_list_upd [simp]:
  "cur i (s\<lparr>thread_list := l\<rparr>) = cur i s" "is_idle t (s\<lparr>thread_list := l\<rparr>) = is_idle t s"
  by (simp_all add: cur_def is_idle_def)

lemma create_sys_inv:
  assumes inv: "sys_inv s" and t: "t_state (thr s t) = INITIAL"
  shows "sys_inv (snd (thread_create t user stk ustack aff ty s))"
proof -
  have i: "cpu_inv {} s" "wait_inv s" "sem_inv s"
    using inv unfolding sys_inv_def by auto
  have out: "t \<notin> set (hosts s i)" if "i < ncpu s" for i
    by (rule not_hosted [OF i(1) _ _ that]) (use t in auto)
  have b: "blocking_on (thr s t) = None"
    using i(2) t unfolding wait_inv_def blocked_def by auto
  let ?th = "\<lparr>t_state = READY, flags = 0, signals = 0, is_user = user, critical = False,
          affinity_cpu = aff, affinity_type = ty, need_reschedule = False, wait_link = None,
          blocking_on = None, block_code = code_of ERROR_SUCCESS, interruptible = False,
          exit_code = code_of ERROR_SUCCESS\<rparr>"
  let ?s = "(upd_thr t (\<lambda>_. ?th) s)\<lparr>thread_list := thread_list s @ [t]\<rparr>"
  have same: "thr ?s u = thr s u" "is_idle u ?s = is_idle u s" if "i < ncpu s" "u \<in> set (hosts s i)" for u i
    using out [OF that(1)] that(2) by (auto simp: is_idle_def)
  have cur: "cur i ?s = cur i s" for i
    by (simp add: cur_def)
  have "cpu_inv {} ?s"
  proof (rule cpu_invI)
    fix i
    assume "i < ncpu ?s"
    then have j: "i < ncpu s"
      by simp
    show "distinct (hosts ?s i)" "idle_thread (cpus ?s i) \<in> set (hosts ?s i)" "zombie_queue (cpus ?s i) = []"
      "idle_thread (cpus ?s i) \<in> set (thread_list ?s)"
      using cpu_invD(1,2,3,7) [OF i(1) j] by (auto simp: cur)
    show "is_idle (idle_thread (cpus ?s i)) ?s"
      using cpu_invD(2,8) [OF i(1) j] same(2) [OF j] by simp
    show "t_state (thr ?s u) = READY" if "u \<in> set (run_queue (cpus ?s i))" for u
      using cpu_invD(4) [OF i(1) j] same(1) [OF j, of u] that by auto
    show "t_state (thr ?s (cur i ?s)) = RUNNING \<or> t_state (thr ?s (cur i ?s)) = READY \<and> cur i ?s = idle_thread (cpus ?s i)"
      using cpu_invD(5) [OF i(1) j] same(1) [OF j, of "cur i s"] by (auto simp: cur)
    show "set (hosts ?s i) \<inter> set (hosts ?s k) = {}" if "k < ncpu ?s" "i \<noteq> k" for k
      using cpu_invD(6) [OF i(1) j _ that(2)] that(1) by (simp add: cur)
  next
    show "\<exists>i<ncpu ?s. u = cur i ?s" if "t_state (thr ?s u) = RUNNING" for u
      using cpu_inv_running [OF i(1), of u] that by (auto simp: cur split: if_splits)
  qed
  moreover have "wait_inv ?s"
    using i(2) b t unfolding wait_inv_def by (auto simp: blocked_def is_idle_def)
  ultimately have "sys_inv ?s"
    using i(3) sem_inv_frame [of ?s s] unfolding sys_inv_def by simp
  then show ?thesis
    using inv by (auto simp: thread_create_def)
qed

section \<open>Load balancing\<close>

lemma fold_choice: "fold (\<lambda>i m. if P i m then i else m) xs a \<in> insert a (set xs)"
proof (induction xs arbitrary: a)
  case (Cons x xs)
  show ?case
    using Cons.IH [of "if P x a then x else a"] by (auto split: if_splits)
qed simp

lemma find_SomeD: "find P xs = Some x \<Longrightarrow> x \<in> set xs \<and> P x"
  by (auto simp: find_Some_iff)

lemma load_bounds:
  assumes "0 < ncpu s"
  shows "max_load s < ncpu s" "min_load s < ncpu s" "pull_load c s < ncpu s"
  using fold_choice [of "\<lambda>i m. workload_size i s > workload_size m s" "[0..<ncpu s]" 0]
    fold_choice [of "\<lambda>i m. workload_size i s < workload_size m s" "[0..<ncpu s]" 0]
    fold_choice [of "\<lambda>i m. workload_size i s > workload_size m s \<and> i \<noteq> c" "[0..<ncpu s]" 0] assms
  unfolding max_load_def min_load_def pull_load_def by (auto simp del: fold_simps)

lemma steal_Some:
  assumes "fcfs_steal c own s = (Some t, s')"
  shows "t \<in> set (run_queue (cpus s own))" "stealable c s t" "s' = upd_cpu own (run_queue_update (remove1 t)) s"
  using assms unfolding fcfs_steal_def Let_def
  by (auto split: option.splits dest!: find_SomeD)

lemma steal_None: "fcfs_steal c own s = (None, s') \<Longrightarrow> s' = s"
  unfolding fcfs_steal_def Let_def by (auto split: option.splits)

lemma steal_inv:
  assumes r: "fcfs_steal c own s = (Some t, s')" and inv: "sys_inv s" and own: "own < ncpu s"
  shows "sys_inv s'" "\<And>i. i < ncpu s' \<Longrightarrow> t \<notin> set (hosts s' i)" "t_state (thr s' t) = READY"
proof -
  have t: "t \<in> set (run_queue (cpus s own))" "\<not> is_idle t s" "t_state (thr s t) = READY"
    and s': "s' = upd_cpu own (run_queue_update (remove1 t)) s"
    using steal_Some [OF r] by (auto simp: stealable_def is_idle_def)
  have i: "cpu_inv {} s" "wait_inv s" "sem_inv s"
    using inv unfolding sys_inv_def by auto
  have sub: "set (hosts s' i) \<subseteq> set (hosts s i)" for i
    unfolding s' by (auto dest: notin_set_remove1)
  have "cpu_inv {} s'"
  proof (rule cpu_invI)
    fix i
    assume "i < ncpu s'"
    then have j: "i < ncpu s"
      unfolding s' by simp
    show "distinct (hosts s' i)"
      using cpu_invD(1) [OF i(1) j] unfolding s' by auto
    show "idle_thread (cpus s' i) \<in> set (hosts s' i)"
      using cpu_invD(2,8) [OF i(1) j] t(2) unfolding s' by (auto intro: in_set_remove1 [THEN iffD2])
    show "zombie_queue (cpus s' i) = []" "idle_thread (cpus s' i) \<in> set (thread_list s')"
      "is_idle (idle_thread (cpus s' i)) s'"
      using cpu_invD(3,7,8) [OF i(1) j] unfolding s' by auto
    show "t_state (thr s' u) = READY" if "u \<in> set (run_queue (cpus s' i))" for u
      using cpu_invD(4) [OF i(1) j, of u] that unfolding s' by (auto split: if_splits dest: notin_set_remove1)
    show "t_state (thr s' (cur i s')) = RUNNING \<or> t_state (thr s' (cur i s')) = READY \<and> cur i s' = idle_thread (cpus s' i)"
      using cpu_invD(5) [OF i(1) j] unfolding s' by auto
    show "set (hosts s' i) \<inter> set (hosts s' k) = {}" if "k < ncpu s'" "i \<noteq> k" for k
      using cpu_invD(6) [OF i(1) j _ that(2)] that(1) sub [of i] sub [of k] unfolding s' upd_cpu_simps(5) by blast
  qed (use cpu_inv_running [OF i(1)] s' in auto)
  then show "sys_inv s'"
    using i sem_inv_frame [of s' s] unfolding sys_inv_def s' by simp
  show "t \<notin> set (hosts s' i)" if "i < ncpu s'" for i
    using cpu_invD(1) [OF i(1) own] cpu_invD(6) [OF i(1) own, of i] t(1) that unfolding s' by (cases "i = own") auto
  show "t_state (thr s' t) = READY"
    using t(3) unfolding s' by simp
qed

lemma steal_enqueue_sys_inv:
  assumes "fcfs_steal c own s = (Some t, s1)" "enqueue c dst t s1 = Some s'" "sys_inv s" "own < ncpu s" "c < ncpu s"
  shows "sys_inv s'" "ncpu s' = ncpu s"
proof -
  have n: "ncpu s1 = ncpu s" "t_state (thr s1 t) \<noteq> DYING"
    using steal_Some [OF assms(1)] steal_inv(3) [OF assms(1,3,4)] by auto
  have d: "dst = c"
    using assms(2) n(2) by (auto simp: enqueue_def fcfs_enqueue_def split: if_splits)
  have i: "cpu_inv {} s1" "wait_inv s1" "sem_inv s1"
    using steal_inv(1) [OF assms(1,3,4)] unfolding sys_inv_def by auto
  have "s' = upd_cpu c (run_queue_update (\<lambda>q. q @ [t])) s1" "cpu_inv {} s'"
    using enqueue_ok [OF i(1) _ steal_inv(3,2) [OF assms(1,3,4)], of c] assms(2,5) n(1) unfolding d by auto
  then show "sys_inv s'" "ncpu s' = ncpu s"
    using i(2,3) n(1) sem_inv_frame [of s' s1] unfolding sys_inv_def by auto
qed

lemma balance_sys_inv:
  assumes "balance c s = Some s'" "sys_inv s" "c < ncpu s"
  shows "sys_inv s'"
proof (cases "max_load s \<noteq> min_load s \<and> workload_size (max_load s) s > workload_size (min_load s) s + 1")
  case True
  obtain v s1 where st: "fcfs_steal c (max_load s) s = (v, s1)"
    by fastforce
  show ?thesis
  proof (cases v)
    case None
    then show ?thesis
      using assms(1,2) True st steal_None [of c "max_load s" s s1] by (simp add: balance_def Let_def)
  next
    case (Some t)
    then have "enqueue c (min_load s) t s1 = Some s'"
      using assms(1) True st by (simp add: balance_def Let_def)
    then show ?thesis
      using steal_enqueue_sys_inv(1) [of c "max_load s" s t s1] st Some assms(2,3) load_bounds(1) [of s] by simp
  qed
qed (use assms in \<open>auto simp: balance_def Let_def split: if_splits\<close>)

lemma tick_sys_inv:
  assumes r: "tick c t s = Some s'" and inv: "sys_inv s" and c: "c < ncpu s"
  shows "sys_inv s'"
proof -
  have z: "upd_cpu c (zombie_queue_update (\<lambda>_. [])) s = s" "zombie_queue (cpus s c) = []"
    using cpu_invD(3) [of "{}" s c] inv c by (auto simp: sys_inv_def upd_cpu_def fun_upd_idem)
  have "fcfs_tick c c s = Some (set_need_reschedule (cur c s) True s)"
    using z by (simp add: fcfs_tick_def)
  then obtain u where "balance c (set_need_reschedule u True s) = Some s'"
    using r by (auto simp: tick_def split: if_splits)
  then show ?thesis
    by (rule balance_sys_inv) (use inv c in \<open>simp_all add: sys_inv_upd_same\<close>)
qed

lemma idle_round_sys_inv:
  assumes r: "idle_round c s = Some s'" and inv: "sys_inv s" and c: "c < ncpu s"
  shows "sys_inv s'"
proof -
  obtain s1 where 1: "(case fcfs_steal c (pull_load c s) s of (Some t, s) \<Rightarrow> enqueue c c t s | (None, s) \<Rightarrow> Some s) = Some s1"
    "reschedule_locked c s1 = Some s'"
    using r by (auto simp: idle_round_def split: bind_splits)
  have "sys_inv s1 \<and> ncpu s1 = ncpu s"
    using 1(1) steal_enqueue_sys_inv [of c "pull_load c s" s _ _ c s1] steal_None [of c "pull_load c s" s]
      load_bounds(3) [of s c] inv c by (auto split: prod.splits option.splits)
  then show ?thesis
    using reschedule_sys_inv [OF 1(2)] c by simp
qed

section \<open>The timer tick\<close>

text \<open>
  \<^verbatim>\<open>timer_tick_handle\<close> holds \<^verbatim>\<open>timer_lock\<close> while it looks at the timers, and both the
  callback and the loop itself end in \<^verbatim>\<open>remove_timer\<close>, which takes the lock again.
\<close>

lemma fire_loop_locked:
  assumes "timer_lock (cpus s c)"
  shows "fire_loop (timeout_handle c) c tm s = (if expires (timers s tm) \<noteq> 0 then Some s else None)"
  using assms by (subst fire_loop.simps) (simp add: timeout_handle_def remove_timer_def Let_def)

lemma timer_tick_sys_inv:
  assumes r: "timer_tick_handle (timeout_handle c) c s = Some s'" and inv: "sys_inv s" and c: "c < ncpu s"
  shows "sys_inv s'"
proof -
  let ?l = "upd_cpu c (timer_lock_update (\<lambda>_. True)) s"
  obtain s1 where s1: "check_timers_locked (timeout_handle c) c ?l = Some s1"
    and t: "tick c (cur c s1) (upd_cpu c (timer_lock_update (\<lambda>_. False)) s1) = Some s'"
    using r by (auto simp: timer_tick_handle_def split: bind_splits)
  have "s1 = ?l \<or> (\<exists>tm g. s1 = upd_timer tm g ?l)"
    using s1 by (auto simp: check_timers_locked_def fire_loop_locked split: list.splits if_splits)
  then obtain f where f: "thr s1 = thr s" "wait_queues s1 = wait_queues s" "counts s1 = counts s" "ncpu s1 = ncpu s"
    "thread_list s1 = thread_list s" "cpus s1 = cpus ?l"
    by (auto simp: upd_timer_def)
  let ?u = "upd_cpu c (timer_lock_update (\<lambda>_. False)) s1"
  have "cpu_inv {} ?u \<longleftrightarrow> cpu_inv {} s"
    by (rule cpu_inv_frame) (auto simp: f cur_def)
  moreover have "wait_inv ?u \<longleftrightarrow> wait_inv s" "sem_inv ?u \<longleftrightarrow> sem_inv s"
    by (rule wait_inv_frame sem_inv_frame; simp add: f)+
  ultimately show ?thesis
    using tick_sys_inv [OF t] inv c f(4) unfolding sys_inv_def by simp
qed

section \<open>The system\<close>

text \<open>
  A step is one operation carried out under \<^verbatim>\<open>global_thread_lock\<close> on some processor. Waiting,
  joining and exiting are not done by an idle thread, whose body is the balancing loop. A thread
  is created in unused memory and readied once by its creator.
\<close>

inductive kstep :: "kstate \<Rightarrow> kstate \<Rightarrow> bool" where
  k_reschedule: "c < ncpu s \<Longrightarrow> reschedule_locked c s = Some s' \<Longrightarrow> kstep s s'"
| k_yield: "kstep s (yield c s)"
| k_idle: "c < ncpu s \<Longrightarrow> idle_round c s = Some s' \<Longrightarrow> kstep s s'"
| k_tick: "c < ncpu s \<Longrightarrow> timer_tick_handle (timeout_handle c) c s = Some s' \<Longrightarrow> kstep s s'"
| k_wait: "c < ncpu s \<Longrightarrow> \<not> is_idle (cur c s) s \<Longrightarrow> sem_wait c n ddl tm now s = Some (e, s') \<Longrightarrow> kstep s s'"
| k_try_wait: "kstep s (snd (sem_try_wait n s))"
| k_signal: "c < ncpu s \<Longrightarrow> sem_signal c n s = Some s' \<Longrightarrow> kstep s s'"
| k_join: "c < ncpu s \<Longrightarrow> \<not> is_idle (cur c s) s \<Longrightarrow> join_enter c t ddl tm now s = Some (r, s') \<Longrightarrow> kstep s s'"
| k_joined: "c < ncpu s \<Longrightarrow> join_return c t s = Some (e, out, s') \<Longrightarrow> kstep s s'"
| k_return: "kstep s (snd (block_return t s))"
| k_kill: "c < ncpu s \<Longrightarrow> kill_locked c t s = Some s' \<Longrightarrow> kstep s s'"
| k_resume: "c < ncpu s \<Longrightarrow> resume c io t s = Some s' \<Longrightarrow> kstep s s'"
| k_suspend: "c < ncpu s \<Longrightarrow> suspend c t s = Some (e, s') \<Longrightarrow> kstep s s'"
| k_detach: "c < ncpu s \<Longrightarrow> detach c t s = Some (e, s') \<Longrightarrow> kstep s s'"
| k_exit: "c < ncpu s \<Longrightarrow> \<not> is_idle (cur c s) s \<Longrightarrow> exit_thread c code s = Some s' \<Longrightarrow> kstep s s'"
| k_create: "t_state (thr s t) = INITIAL \<Longrightarrow> kstep s (snd (thread_create t user stk ustack aff ty s))"
| k_start: "c < ncpu s \<Longrightarrow> t_state (thr s t) = READY \<Longrightarrow> \<forall>i<ncpu s. t \<notin> set (hosts s i) \<Longrightarrow>
    unblock c t s = Some (b, s') \<Longrightarrow> kstep s s'"

lemma start_sys_inv:
  assumes "unblock c t s = Some (b, s')" "sys_inv s" "c < ncpu s" "t_state (thr s t) = READY"
    "\<forall>i<ncpu s. t \<notin> set (hosts s i)"
  shows "sys_inv s'"
proof -
  have inv: "cpu_inv {} s" "wait_inv s" "sem_inv s"
    using assms(2) unfolding sys_inv_def by auto
  have eq: "s' = upd_cpu c (run_queue_update (\<lambda>q. q @ [t])) (set_state t READY s)" and "cpu_inv {} s'"
    using unblock_Some [OF assms(1) inv(1) assms(3)] assms(5) by blast+
  moreover have "wait_inv (set_state t READY s)"
    by (rule wait_inv_set_state [OF inv(2)]) (use assms(4) in \<open>auto simp: blocked_def\<close>)
  ultimately show ?thesis
    using inv(3) sem_inv_frame [of s' s] unfolding sys_inv_def by simp
qed

lemma kstep_sys_inv: "kstep s s' \<Longrightarrow> sys_inv s \<Longrightarrow> sys_inv s'"
proof (induction rule: kstep.induct)
  case (k_yield s c)
  then show ?case
    by (simp add: yield_def sys_inv_upd_same)
qed (blast intro: reschedule_sys_inv idle_round_sys_inv timer_tick_sys_inv sem_wait_sys_inv sem_try_wait_sys_inv
    sem_signal_sys_inv join_enter_sys_inv join_return_sys_inv block_return_sys_inv kill_sys_inv resume_sys_inv
    suspend_sys_inv detach_sys_inv exit_sys_inv create_sys_inv start_sys_inv)+

lemma kreach_sys_inv: "kstep\<^sup>*\<^sup>* s s' \<Longrightarrow> sys_inv s \<Longrightarrow> sys_inv s'"
  by (induction rule: rtranclp_induct) (auto intro: kstep_sys_inv)

lemma sys_inv_demo: "distinct q \<Longrightarrow> 0 \<notin> set q \<Longrightarrow> sys_inv (demo_kstate q ts)"
  using demo_kstate_inv [of q ts] by (simp add: sys_inv_def sem_inv_def demo_kstate_def)

lemma scheduling_safe_parts:
  assumes "sys_inv s0" "kstep\<^sup>*\<^sup>* s0 s"
  shows "t_state (thr s t) = RUNNING \<Longrightarrow> \<exists>!i. i < ncpu s \<and> cur i s = t"
    and "i < ncpu s \<Longrightarrow> t \<in> set (run_queue (cpus s i)) \<Longrightarrow> t_state (thr s t) = READY
      \<and> distinct (run_queue (cpus s i)) \<and> (\<forall>j<ncpu s. j \<noteq> i \<longrightarrow> t \<notin> set (run_queue (cpus s j)) \<and> t \<noteq> cur j s)"
    and "blocked (t_state (thr s t)) \<longleftrightarrow> (\<exists>!q. t \<in> set (wait_queues s q))"
    and "counts s n = 0 \<or> wait_queues s (Sem n) = []"
    and "i < ncpu s \<Longrightarrow> zombie_queue (cpus s i) = []"
proof -
  have inv: "cpu_inv {} s" "wait_inv s" "sem_inv s"
    using kreach_sys_inv [OF assms(2,1)] unfolding sys_inv_def by auto
  show "\<exists>!i. i < ncpu s \<and> cur i s = t" if run: "t_state (thr s t) = RUNNING"
  proof -
    obtain i where "i < ncpu s" "t = cur i s"
      using cpu_inv_running [OF inv(1) run] by blast
    moreover have "j = i" if "j < ncpu s" "cur j s = cur i s" for j
      using cpu_invD(6) [OF inv(1) \<open>i < ncpu s\<close> that(1)] that(2) by auto
    ultimately show ?thesis
      by auto
  qed
  show "t_state (thr s t) = READY \<and> distinct (run_queue (cpus s i))
      \<and> (\<forall>j<ncpu s. j \<noteq> i \<longrightarrow> t \<notin> set (run_queue (cpus s j)) \<and> t \<noteq> cur j s)"
    if i: "i < ncpu s" and t: "t \<in> set (run_queue (cpus s i))"
    using cpu_invD(1,4) [OF inv(1) i] cpu_invD(6) [OF inv(1) i] t by fastforce
  have "(t \<in> set (wait_queues s q)) = (blocking_on (thr s t) = Some q)" for q
    using inv(2) unfolding wait_inv_def by blast
  moreover have "blocked (t_state (thr s t)) \<longleftrightarrow> blocking_on (thr s t) \<noteq> None"
    using inv(2) unfolding wait_inv_def by blast
  ultimately show "blocked (t_state (thr s t)) \<longleftrightarrow> (\<exists>!q. t \<in> set (wait_queues s q))"
    by auto
  show "counts s n = 0 \<or> wait_queues s (Sem n) = []"
    using inv(3) unfolding sem_inv_def by blast
  show "i < ncpu s \<Longrightarrow> zombie_queue (cpus s i) = []"
    by (rule cpu_invD(3) [OF inv(1)])
qed

text \<open>
  C3. In every state the system reaches, whatever threads wait, signal, tick, join, die or migrate:
  a running thread is the current one of exactly one processor, the threads in run queues are
  ready and in one queue only, a thread is blocked if and only if it is in exactly the wait queue
  it blocks on, and a semaphore with a positive count has no waiters. The queue of zombies stays
  empty: an exiting thread is never handed to the reaper.
\<close>

theorem scheduling_safe:
  assumes "sys_inv s0" "kstep\<^sup>*\<^sup>* s0 s"
  shows "(t_state (thr s t) = RUNNING \<longrightarrow> (\<exists>!i. i < ncpu s \<and> cur i s = t))
   \<and> (i < ncpu s \<longrightarrow> t \<in> set (run_queue (cpus s i)) \<longrightarrow> t_state (thr s t) = READY
      \<and> distinct (run_queue (cpus s i)) \<and> (\<forall>j<ncpu s. j \<noteq> i \<longrightarrow> t \<notin> set (run_queue (cpus s j)) \<and> t \<noteq> cur j s))
   \<and> (blocked (t_state (thr s t)) \<longleftrightarrow> (\<exists>!q. t \<in> set (wait_queues s q)))
   \<and> (counts s n = 0 \<or> wait_queues s (Sem n) = [])
   \<and> (i < ncpu s \<longrightarrow> zombie_queue (cpus s i) = [])"
  apply (rule conjI, rule impI, erule scheduling_safe_parts(1) [OF assms])
  apply (rule conjI, intro impI, erule (1) scheduling_safe_parts(2) [OF assms])
  apply (rule conjI, rule scheduling_safe_parts(3) [OF assms])
  apply (rule conjI, rule scheduling_safe_parts(4) [OF assms])
  apply (rule impI, erule scheduling_safe_parts(5) [OF assms])
  done

theorem scheduling_safe_witness:
  "\<exists>s. kstep\<^sup>*\<^sup>* (demo_kstate [1] []) s \<and> cur 0 s = 1 \<and> (\<exists>!i. i < ncpu s \<and> cur i s = 1)
     \<and> (counts s 0 = 0 \<or> wait_queues s (Sem 0) = []) \<and> zombie_queue (cpus s 0) = []"
proof -
  have inv: "sys_inv (demo_kstate [1] [])"
    by (rule sys_inv_demo) simp_all
  then have c: "cpu_inv {} (demo_kstate [1] [])"
    unfolding sys_inv_def by simp
  obtain s where s: "reschedule_locked 0 (demo_kstate [1] []) = Some s" "cur 0 s = 1" "t_state (thr s 1) = RUNNING"
    "ncpu s = ncpu (demo_kstate [1] [])"
    by (rule reschedule_rotates [OF c, of 0 1 "[]"]) (auto simp: demo_defs)
  have "kstep\<^sup>*\<^sup>* (demo_kstate [1] []) s"
    by (rule r_into_rtranclp, rule k_reschedule [OF _ s(1)]) (simp add: demo_defs)
  moreover have "ncpu s = 1"
    using s(4) by (simp add: demo_kstate_def)
  ultimately show ?thesis
    using scheduling_safe [OF inv, of s 1 0 0] s(2,3) by (intro exI [of _ s]) simp
qed

lemma semaphore_fifo_parts:
  assumes "sys_inv s" "c < ncpu s"
  shows "counts s n > 0 \<Longrightarrow> sem_wait c n TIME_INFINITE tm now s = Some (Some 0, set_count n (counts s n - 1) s)"
    and "counts s n = 0 \<Longrightarrow> \<not> is_idle (cur c s) s \<Longrightarrow> signals (thr s (cur c s)) = 0 \<Longrightarrow>
      \<exists>s'. sem_wait c n TIME_INFINITE tm now s = Some (None, s')
        \<and> wait_queues s' (Sem n) = wait_queues s (Sem n) @ [cur c s] \<and> t_state (thr s' (cur c s)) = BLOCKED"
    and "wait_queues s (Sem n) = t # ts \<Longrightarrow> affinity_cpu (thr s t) = None \<Longrightarrow>
      \<exists>s'. sem_signal c n s = Some s' \<and> wait_queues s' (Sem n) = ts \<and> counts s' n = 0
        \<and> t_state (thr s' t) = READY \<and> block_code (thr s' t) = code_of ERROR_SUCCESS
        \<and> run_queue (cpus s' c) = run_queue (cpus s c) @ [t]"
    and "wait_queues s (Sem n) = [] \<Longrightarrow> sem_signal c n s = Some (set_count n (counts s n + 1) s)"
proof -
  have inv: "cpu_inv {} s" "wait_inv s" "sem_inv s" and w: "wait_inv_but {} s"
    using assms(1) unfolding sys_inv_def wait_inv_but_empty by auto
  show "sem_wait c n TIME_INFINITE tm now s = Some (Some 0, set_count n (counts s n - 1) s)" if "counts s n > 0"
    using that inv(3) by (auto simp: sem_wait_def sem_inv_def word_gt_0)
  show "sem_signal c n s = Some (set_count n (counts s n + 1) s)" if "wait_queues s (Sem n) = []"
    using that by (simp add: sem_signal_def)
  show "\<exists>s'. sem_signal c n s = Some s' \<and> wait_queues s' (Sem n) = ts \<and> counts s' n = 0
        \<and> t_state (thr s' t) = READY \<and> block_code (thr s' t) = code_of ERROR_SUCCESS
        \<and> run_queue (cpus s' c) = run_queue (cpus s c) @ [t]"
    if q: "wait_queues s (Sem n) = t # ts" and aff: "affinity_cpu (thr s t) = None"
  proof -
    let ?d = "dequeued (Sem n) t (code_of ERROR_SUCCESS) s"
    have "blocked (t_state (thr s t))"
      using inv(2) q unfolding wait_inv_def by (metis list.set_intros(1) option.discI)
    then have "\<And>i. i < ncpu ?d \<Longrightarrow> t \<notin> set (hosts ?d i)"
      using blocked_not_hosted [OF inv(1), of t] by simp
    then have "unblock c t ?d = Some (False, upd_cpu c (run_queue_update (\<lambda>q. q @ [t])) (set_state t READY ?d))"
      using unblock_ok(1) [of "{}" ?d c t] inv(1) assms(2) aff by simp
    moreover have "wq_dequeue (Sem n) t (code_of ERROR_SUCCESS) s = Some ?d"
      by (rule wq_dequeue_ok [OF w]) (simp add: q)
    moreover have "counts s n = 0"
      using inv(3) q unfolding sem_inv_def by (metis list.discI)
    ultimately show ?thesis
      using q by (simp add: sem_signal_def wake_one_def peek_def) (simp add: dequeued_def)
  qed
  show "\<exists>s'. sem_wait c n TIME_INFINITE tm now s = Some (None, s')
        \<and> wait_queues s' (Sem n) = wait_queues s (Sem n) @ [cur c s] \<and> t_state (thr s' (cur c s)) = BLOCKED"
    if n: "counts s n = 0" and ni: "\<not> is_idle (cur c s) s" and sg: "signals (thr s (cur c s)) = 0"
  proof -
    let ?p = "parked (cur c s) (Sem n) BLOCKED True s"
    have run: "t_state (thr s (cur c s)) = RUNNING"
      using cpu_invD(5,8) [OF inv(1) assms(2)] ni by auto
    then have "\<not> holding (cur c s) s"
      using inv(2) unfolding wait_inv_def holding_def by (simp add: blocked_def)
    then have eq: "sem_wait c n TIME_INFINITE tm now s = Option.bind (reschedule_locked c ?p) (\<lambda>s. Some (None, s))"
      using n run sg by (simp add: sem_wait_def block_etc_def parked_def Let_def)
    have p: "cpu_inv {c} ?p" "wait_inv ?p"
      using parked_inv [OF inv assms(2) _ ni, of BLOCKED "Sem n" True] n by (auto simp: blocked_def)
    have pc: "cur c ?p = cur c s" "t_state (thr ?p (cur c s)) = BLOCKED" "c < ncpu ?p"
      "idle_thread (cpus ?p c) = idle_thread (cpus s c)" "wait_queues ?p (Sem n) = wait_queues s (Sem n) @ [cur c s]"
      using assms(2) by (simp_all add: parked_def)
    have "cur c s \<noteq> idle_thread (cpus s c)"
      using cpu_invD(8) [OF inv(1) assms(2)] ni by auto
    then have st: "t_state (thr ?p (cur c ?p)) = READY
        \<or> t_state (thr ?p (cur c ?p)) \<noteq> RUNNING \<and> cur c ?p \<noteq> idle_thread (cpus ?p c)"
      using pc by simp
    obtain s' where "schedule c ?p = Some s'" "wait_queues s' = wait_queues ?p"
      "\<And>t. t_state (thr ?p t) \<noteq> READY \<Longrightarrow> t_state (thr s' t) = t_state (thr ?p t)"
      by (rule schedule_ok [OF p(1) pc(3) st p(2)]) (rule that; assumption)
    then show ?thesis
      using eq pc by (simp add: reschedule_locked_def Let_def)
  qed
qed

text \<open>
  C9. Semaphores hand out wake-ups in the order of arrival. A wait on a positive count takes one
  unit; on a count of zero it always parks the caller behind the other waiters, with no assertion
  failing. A signal with waiters makes the longest waiting one ready with \<open>ERROR_SUCCESS\<close>, at
  the end of the run queue, and leaves the count at zero; without waiters it adds a unit.
\<close>

theorem semaphore_fifo:
  assumes "sys_inv s" "c < ncpu s"
  shows "(counts s n > 0 \<longrightarrow> sem_wait c n TIME_INFINITE tm now s = Some (Some 0, set_count n (counts s n - 1) s))
   \<and> (counts s n = 0 \<longrightarrow> \<not> is_idle (cur c s) s \<longrightarrow> signals (thr s (cur c s)) = 0 \<longrightarrow>
      (\<exists>s'. sem_wait c n TIME_INFINITE tm now s = Some (None, s')
        \<and> wait_queues s' (Sem n) = wait_queues s (Sem n) @ [cur c s] \<and> t_state (thr s' (cur c s)) = BLOCKED))
   \<and> (wait_queues s (Sem n) = t # ts \<longrightarrow> affinity_cpu (thr s t) = None \<longrightarrow>
      (\<exists>s'. sem_signal c n s = Some s' \<and> wait_queues s' (Sem n) = ts \<and> counts s' n = 0
        \<and> t_state (thr s' t) = READY \<and> block_code (thr s' t) = code_of ERROR_SUCCESS
        \<and> run_queue (cpus s' c) = run_queue (cpus s c) @ [t]))
   \<and> (wait_queues s (Sem n) = [] \<longrightarrow> sem_signal c n s = Some (set_count n (counts s n + 1) s))"
  by (intro conjI impI; rule semaphore_fifo_parts [OF assms]; assumption)

text \<open>Thread 1 runs, the idle thread 0 is ready, thread 2 waits for semaphore 5.\<close>

definition demo_waiting :: kstate where
  "demo_waiting = (demo_kstate [] [])\<lparr>
     thr := (\<lambda>t. if t = 0 then demo_thread READY FLAG_IDLE else if t = 1 then demo_thread RUNNING 0
       else if t = 2 then (demo_thread BLOCKED 0)\<lparr>wait_link := Some (Sem 5), blocking_on := Some (Sem 5)\<rparr>
       else demo_thread INITIAL 0),
     wait_queues := (\<lambda>q. if q = Sem 5 then [2] else []),
     cpus := (\<lambda>_. (demo_cpu [0] [])\<lparr>cur_thread := 1\<rparr>)\<rparr>"

lemma sys_inv_waiting: "sys_inv demo_waiting"
proof -
  have "cpu_inv {} demo_waiting"
    unfolding cpu_inv_def by (simp add: demo_waiting_def demo_defs)
  moreover have "wait_inv demo_waiting"
    unfolding wait_inv_def by (simp add: demo_waiting_def demo_defs blocked_def)
  moreover have "sem_inv demo_waiting"
    unfolding sem_inv_def by (simp add: demo_waiting_def demo_defs)
  ultimately show ?thesis
    unfolding sys_inv_def by simp
qed

theorem semaphore_fifo_witness:
  "(\<exists>s. sem_wait 0 5 TIME_INFINITE 0 0 demo_waiting = Some (None, s) \<and> wait_queues s (Sem 5) = [2, 1])
   \<and> (\<exists>s. sem_signal 0 5 demo_waiting = Some s \<and> wait_queues s (Sem 5) = [] \<and> run_queue (cpus s 0) = [0, 2])
   \<and> sem_signal 0 6 demo_waiting = Some (set_count 6 1 demo_waiting)
   \<and> sem_wait 0 6 TIME_INFINITE 0 0 (set_count 6 1 demo_waiting)
      = Some (Some 0, set_count 6 0 (set_count 6 1 demo_waiting))"
proof -
  have f: "counts demo_waiting n = 0" "wait_queues demo_waiting (Sem 5) = [2]" "wait_queues demo_waiting (Sem 6) = []"
    "cur 0 demo_waiting = 1" "\<not> is_idle 1 demo_waiting" "signals (thr demo_waiting 1) = 0"
    "affinity_cpu (thr demo_waiting 2) = None" "run_queue (cpus demo_waiting 0) = [0]" for n
    by (simp_all add: demo_waiting_def demo_defs)
  have inv: "sys_inv (set_count 6 1 demo_waiting)"
    using sys_inv_waiting f(3) by (simp add: sys_inv_def sem_inv_def)
  have c: "0 < ncpu demo_waiting"
    by (simp add: demo_waiting_def demo_kstate_def)
  show ?thesis
    using semaphore_fifo [OF sys_inv_waiting c, of 5 0 0 2 "[]"] semaphore_fifo [OF sys_inv_waiting c, of 6]
      semaphore_fifo [OF inv, of 0 6 0 0] c
    by (auto simp: f f [simplified])
qed

text \<open>
  C39. The first timer that runs out stops the processor: the tick that brings a timer to zero
  never returns, because \<^verbatim>\<open>remove_timer\<close> asks for the lock the tick handler holds. A wait
  with a deadline that is not met in time therefore ends in a lock panic, not in
  \<open>ERROR_TIMEOUT\<close>.
\<close>

theorem timer_expiry_panics:
  assumes "timer_list (cpus s c) = tm # tms" "expires (timers s tm) = 1"
  shows "timer_tick_handle (timeout_handle c) c s = None"
  using assms by (simp add: timer_tick_handle_def check_timers_locked_def fire_loop_locked)

theorem timer_expiry_panics_witness:
  "timer_tick_handle (timeout_handle 0) 0 (demo_kstate [] [1]) = None"
  by (rule timer_expiry_panics [of _ _ 1 "[]"]) (simp_all add: demo_defs)

end
