(* ===== verification/Kernel_Time.thy ===== *)
theory Kernel_Time
  imports Wait_Queue
begin

text \<open>
  Time arithmetic (\<^verbatim>\<open>include/system/time.hpp\<close>) and deadlines
  (\<^verbatim>\<open>include/system/deadline.hpp\<close>, \<^verbatim>\<open>kern/task/thread/deadline.cc\<close>). Times and
  durations are \<^verbatim>\<open>int64_t\<close>: integers here, with the wrap-around of the overflow builtins
  written out.
\<close>

section \<open>Overflow builtins\<close>

definition TIME_INFINITE_PAST :: int where
  "TIME_INFINITE_PAST = - (2 ^ 63)"

definition in_int64 :: "int \<Rightarrow> bool" where
  "in_int64 x \<longleftrightarrow> TIME_INFINITE_PAST \<le> x \<and> x \<le> TIME_INFINITE"

definition wrap_int64 :: "int \<Rightarrow> int" where
  "wrap_int64 x = (x + 2 ^ 63) mod 2 ^ 64 - 2 ^ 63"

text \<open>A builtin reports whether the exact result was lost and stores the wrapped one.\<close>

definition overflow_result :: "int \<Rightarrow> bool \<times> int" where
  "overflow_result exact = (\<not> in_int64 exact, wrap_int64 exact)"

lemmas time_bounds = TIME_INFINITE_PAST_def TIME_INFINITE_def in_int64_def

section \<open>Saturating operations\<close>

definition time_add_duration :: "int \<Rightarrow> int \<Rightarrow> int" where
  "time_add_duration time duration = (
     let (ov, x) = overflow_result (time + duration)
     in if ov then (if x \<ge> 0 then TIME_INFINITE_PAST else TIME_INFINITE) else x)"

definition time_sub_duration :: "int \<Rightarrow> int \<Rightarrow> int" where
  "time_sub_duration time duration = (
     let (ov, x) = overflow_result (time - duration)
     in if ov then (if x \<ge> 0 then TIME_INFINITE_PAST else TIME_INFINITE) else x)"

definition time_sub_time :: "int \<Rightarrow> int \<Rightarrow> int" where
  "time_sub_time time1 time2 = (
     let (ov, x) = overflow_result (time1 - time2)
     in if ov then (if x \<ge> 0 then TIME_INFINITE_PAST else TIME_INFINITE) else x)"

definition duration_add_duration :: "int \<Rightarrow> int \<Rightarrow> int" where
  "duration_add_duration dur1 dur2 = (
     let (ov, x) = overflow_result (dur1 + dur2)
     in if ov then (if x \<ge> 0 then TIME_INFINITE_PAST else TIME_INFINITE) else x)"

definition duration_sub_duration :: "int \<Rightarrow> int \<Rightarrow> int" where
  "duration_sub_duration dur1 dur2 = (
     let (ov, x) = overflow_result (dur1 - dur2)
     in if ov then (if x \<ge> 0 then TIME_INFINITE_PAST else TIME_INFINITE) else x)"

definition duration_mul_int64 :: "int \<Rightarrow> int \<Rightarrow> int" where
  "duration_mul_int64 duration multiplier = (
     let (ov, x) = overflow_result (duration * multiplier)
     in if ov then
          (if duration > 0 \<and> multiplier > 0 \<or> duration < 0 \<and> multiplier < 0
           then TIME_INFINITE else TIME_INFINITE_PAST)
        else x)"

section \<open>Deadlines\<close>

datatype slack_mode = TIMER_SLACK_CENTER | TIMER_SLACK_EARLY | TIMER_SLACK_LATE

record timer_slack =
  amount :: int
  mode :: slack_mode

record deadline =
  when_time :: int
  slack :: timer_slack


definition slack_none :: timer_slack where
  "slack_none = \<lparr>amount = 0, mode = TIMER_SLACK_CENTER\<rparr>"

definition no_slack :: "int \<Rightarrow> deadline" where
  "no_slack w = \<lparr>when_time = w, slack = slack_none\<rparr>"

definition infinite :: deadline where
  "infinite = \<lparr>when_time = TIME_INFINITE, slack = slack_none\<rparr>"

definition after :: "int \<Rightarrow> int \<Rightarrow> timer_slack \<Rightarrow> deadline" where
  "after now delay sl = \<lparr>when_time = time_add_duration now delay, slack = sl\<rparr>"



section \<open>Saturation\<close>

definition clamp :: "int \<Rightarrow> int" where
  "clamp x = max TIME_INFINITE_PAST (min TIME_INFINITE x)"

lemma wrap_id: "in_int64 x \<Longrightarrow> wrap_int64 x = x"
  by (simp add: wrap_int64_def time_bounds)

text \<open>An exact sum or difference leaves the range by less than one turn.\<close>

lemma wrap_high: "TIME_INFINITE < x \<Longrightarrow> x < 2 ^ 64 \<Longrightarrow> wrap_int64 x < 0"
proof -
  assume "TIME_INFINITE < x" "x < 2 ^ 64"
  then have "(x + 2 ^ 63) mod 2 ^ 64 = x + 2 ^ 63 - 2 ^ 64"
    by (subst mod_pos_geq) (auto simp: time_bounds)
  then show ?thesis
    using \<open>x < 2 ^ 64\<close> by (simp add: wrap_int64_def)
qed

lemma wrap_low: "x < TIME_INFINITE_PAST \<Longrightarrow> - (2 ^ 64) \<le> x \<Longrightarrow> 0 \<le> wrap_int64 x"
proof -
  assume a: "x < TIME_INFINITE_PAST" "- (2 ^ 64) \<le> x"
  have "(x + 2 ^ 63) mod 2 ^ 64 = (x + 2 ^ 63 + 2 ^ 64) mod 2 ^ 64"
    by (rule mod_add_self2 [symmetric])
  also have "\<dots> = x + 2 ^ 63 + 2 ^ 64"
    using a by (subst mod_pos_pos_trivial) (auto simp: time_bounds)
  finally show ?thesis
    using a by (simp add: wrap_int64_def)
qed

lemma saturate_exact:
  assumes "- (2 ^ 64) \<le> x" "x < 2 ^ 64"
  shows "(let (ov, y) = overflow_result x
      in if ov then (if y \<ge> 0 then TIME_INFINITE_PAST else TIME_INFINITE) else y) = clamp x"
proof -
  consider "in_int64 x" | "TIME_INFINITE < x" | "x < TIME_INFINITE_PAST"
    unfolding in_int64_def by linarith
  then show ?thesis
  proof cases
    case 1
    then show ?thesis
      by (simp add: overflow_result_def wrap_id) (simp add: clamp_def time_bounds)
  next
    case 2
    then show ?thesis
      using wrap_high [OF 2 assms(2)] by (simp add: overflow_result_def) (simp add: clamp_def time_bounds)
  next
    case 3
    then show ?thesis
      using wrap_low [OF 3 assms(1)] by (simp add: overflow_result_def) (simp add: clamp_def time_bounds)
  qed
qed

lemma saturate_product:
  assumes "in_int64 a" "in_int64 b"
  shows "duration_mul_int64 a b = clamp (a * b)"
proof (cases "in_int64 (a * b)")
  case True
  then show ?thesis
    by (simp add: duration_mul_int64_def overflow_result_def wrap_id) (simp add: clamp_def time_bounds)
next
  case False
  then have nz: "a * b \<noteq> 0"
    by (auto simp: time_bounds)
  have pos: "(0 < a \<and> 0 < b \<or> a < 0 \<and> b < 0) = (0 < a * b)"
    by (auto simp: zero_less_mult_iff)
  show ?thesis
    using False nz unfolding duration_mul_int64_def overflow_result_def pos
    by (auto simp: clamp_def time_bounds)
qed

text \<open>
  C23. Time arithmetic never wraps: on 64-bit arguments each operation is the exact result, clamped
  to the range between \<^verbatim>\<open>TIME_INFINITE_PAST\<close> and \<^verbatim>\<open>TIME_INFINITE\<close>. The operations
  read the direction of an overflow off the sign of the wrapped result.
\<close>

theorem time_saturates:
  assumes "in_int64 a" "in_int64 b"
  shows "time_add_duration a b = clamp (a + b) \<and> time_sub_duration a b = clamp (a - b)
    \<and> time_sub_time a b = clamp (a - b) \<and> duration_add_duration a b = clamp (a + b)
    \<and> duration_sub_duration a b = clamp (a - b) \<and> duration_mul_int64 a b = clamp (a * b)"
proof -
  have "- (2 ^ 64) \<le> a + b" "a + b < 2 ^ 64" "- (2 ^ 64) \<le> a - b" "a - b < 2 ^ 64"
    using assms by (auto simp: time_bounds)
  then show ?thesis
    unfolding time_add_duration_def time_sub_duration_def time_sub_time_def duration_add_duration_def
      duration_sub_duration_def using saturate_exact saturate_product [OF assms] by blast
qed

theorem time_saturates_witness:
  "time_add_duration TIME_INFINITE 5 = TIME_INFINITE \<and> time_sub_duration TIME_INFINITE_PAST 5 = TIME_INFINITE_PAST
   \<and> duration_mul_int64 TIME_INFINITE (- 2) = TIME_INFINITE_PAST"
  using time_saturates [of TIME_INFINITE 5] time_saturates [of TIME_INFINITE_PAST 5]
    time_saturates [of TIME_INFINITE "- 2"]
  by (simp add: clamp_def time_bounds)



end
