(* ===== verification/Handle_Table.thy ===== *)
theory Handle_Table
  imports Bit_Field
begin

text \<open>
  Handles to kernel objects (\<^verbatim>\<open>kern/object/handle_table.cc\<close>,
  \<^verbatim>\<open>include/object/handle_table.hpp\<close>, \<^verbatim>\<open>handle_entry\<close> and
  \<^verbatim>\<open>ref_counted\<close>). A table is a tree of four levels of 512 pointers; the model keeps its
  leaves, by the path of the first three indices. Entries are named by their address. A null or
  missing table on a path is a fault, \<open>None\<close>.
\<close>

unbundle bit_operations_syntax

section \<open>Handles\<close>

definition HATTR_GLOBAL :: u64 where "HATTR_GLOBAL = 0b1"
definition HATTR_LOCAL_PROC :: u64 where "HATTR_LOCAL_PROC = 0b10"


definition HANDLE_ATTRIBUTE :: "u64 \<Rightarrow> u64" where
  "HANDLE_ATTRIBUTE handle = drop_bit 32 handle"

definition HANDLE_HAS_ATTRIBUTE :: "u64 \<Rightarrow> u64 \<Rightarrow> bool" where
  "HANDLE_HAS_ATTRIBUTE handle attributes \<longleftrightarrow> (HANDLE_ATTRIBUTE handle AND attributes) = attributes"

type_synonym path = "nat \<times> nat \<times> nat \<times> nat"

definition MAKE_HANDLE :: "u64 \<Rightarrow> path \<Rightarrow> u64" where
  "MAKE_HANDLE attr p = (case p of (l1, l2, l3, l4) \<Rightarrow>
     push_bit 32 attr OR push_bit 24 (of_nat l1) OR push_bit 16 (of_nat l2) OR push_bit 8 (of_nat l3) OR of_nat l4)"

definition DISASSEMBLE_HANDLE :: "u64 \<Rightarrow> u64 \<times> path" where
  "DISASSEMBLE_HANDLE h = (drop_bit 32 h, unat (drop_bit 24 h AND 0xFF), unat (drop_bit 16 h AND 0xFF),
     unat (drop_bit 8 h AND 0xFF), unat (h AND 0xFF))"

section \<open>Reference counts\<close>






section \<open>Entries\<close>

record handle_entry =
  e_ptr :: nat
  e_name :: string
  owner_process_id :: int
  in_table :: bool
  e_value :: u64




section \<open>Tables\<close>

definition MAX_HANDLE_PER_TABLE :: nat where
  "MAX_HANDLE_PER_TABLE = 512"

record handle_table =
  is_local :: bool
  parent_koid :: "int option"
  leaves :: "nat \<times> nat \<times> nat \<Rightarrow> nat option list option"
  next_pos :: path
  entries :: "nat \<Rightarrow> handle_entry"

definition initialize_table :: "handle_table \<Rightarrow> handle_table" where
  "initialize_table t = t\<lparr>leaves := (\<lambda>p. if p = (0, 0, 0) then Some (replicate MAX_HANDLE_PER_TABLE None) else None),
     next_pos := (0, 0, 0, 0)\<rparr>"

definition slot_at :: "handle_table \<Rightarrow> path \<Rightarrow> nat option option" where
  "slot_at t p = (case p of (l1, l2, l3, l4) \<Rightarrow> do {
     leaf \<leftarrow> leaves t (l1, l2, l3);
     if l4 < length leaf then Some (leaf ! l4) else None
   })"

definition set_slot :: "path \<Rightarrow> nat option \<Rightarrow> handle_table \<Rightarrow> handle_table option" where
  "set_slot p v t = (case p of (l1, l2, l3, l4) \<Rightarrow> do {
     leaf \<leftarrow> leaves t (l1, l2, l3);
     if l4 < length leaf then Some (t\<lparr>leaves := (leaves t)((l1, l2, l3) \<mapsto> leaf[l4 := v])\<rparr>) else None
   })"

text \<open>The four nested loops: the first three indices go up to the bound, the last one stays below it.\<close>

fun scan_paths :: "path \<Rightarrow> path list" where
  "scan_paths (n1, n2, n3, n4) =
     [(l1, l2, l3, l4). l1 \<leftarrow> [0..<Suc n1], l2 \<leftarrow> [0..<Suc n2], l3 \<leftarrow> [0..<Suc n3], l4 \<leftarrow> [0..<n4]]"

fun scan :: "(nat option \<Rightarrow> bool) \<Rightarrow> handle_table \<Rightarrow> path list \<Rightarrow> path option option" where
  "scan P t [] = Some None"
| "scan P t (p # ps) = do { slot \<leftarrow> slot_at t p; if P slot then Some (Some p) else scan P t ps }"

definition increase_next_cur :: "nat \<Rightarrow> bool \<times> nat" where
  "increase_next_cur value = (value + 1 \<ge> MAX_HANDLE_PER_TABLE, (value + 1) mod MAX_HANDLE_PER_TABLE)"

definition increase_next :: "handle_table \<Rightarrow> error_code \<times> handle_table" where
  "increase_next t = (case next_pos t of (l1, l2, l3, l4) \<Rightarrow>
     let (c4, v4) = increase_next_cur l4; (c3, v3) = increase_next_cur l3;
         (c2, v2) = increase_next_cur l2; (c1, v1) = increase_next_cur l1
     in if c4 then
          if c3 then
            if c2 then
              if c1 then (- code_of ERROR_TOO_MANY_HANDLES, t\<lparr>next_pos := (v1, l2, l3, l4)\<rparr>)
              else (code_of ERROR_SUCCESS, t\<lparr>next_pos := (v1, v2, v3, v4)\<rparr>)
            else (code_of ERROR_SUCCESS, t\<lparr>next_pos := (l1, v2, v3, v4)\<rparr>)
          else (code_of ERROR_SUCCESS, t\<lparr>next_pos := (l1, l2, v3, v4)\<rparr>)
        else (code_of ERROR_SUCCESS, t\<lparr>next_pos := (l1, l2, l3, v4)\<rparr>))"

definition first_free :: "handle_table \<Rightarrow> (path error_code_with_result \<times> handle_table) option" where
  "first_free t = do {
     found \<leftarrow> scan (\<lambda>slot. slot = None) t (scan_paths (next_pos t));
     case found of
       Some p \<Rightarrow> Some (Inr p, t)
     | None \<Rightarrow> (let p = next_pos t; (err, t) = increase_next t
         in Some (if err \<noteq> code_of ERROR_SUCCESS then (Inl err, t) else (Inr p, t)))
   }"

definition allocate_slot :: "handle_table \<Rightarrow> (path error_code_with_result \<times> handle_table) option" where
  "allocate_slot t = do {
     (free, t) \<leftarrow> first_free t;
     if has_error free then Some (free, t)
     else (let (err, t) = increase_next t
       in Some (if err \<noteq> code_of ERROR_SUCCESS then (Inl err, t) else (free, t)))
   }"

definition same_object :: "handle_table \<Rightarrow> nat \<Rightarrow> nat option \<Rightarrow> bool" where
  "same_object t e slot = (case slot of None \<Rightarrow> False | Some e' \<Rightarrow> e_ptr (entries t e') = e_ptr (entries t e))"

definition local_get :: "nat \<Rightarrow> handle_table \<Rightarrow> path option option" where
  "local_get e t = scan (same_object t e) t (scan_paths (next_pos t))"

definition local_exist :: "nat \<Rightarrow> handle_table \<Rightarrow> bool option" where
  "local_exist e t = do { r \<leftarrow> scan (same_object t e) t (scan_paths (next_pos t)); Some (r \<noteq> None) }"

definition upd_entry :: "nat \<Rightarrow> (handle_entry \<Rightarrow> handle_entry) \<Rightarrow> handle_table \<Rightarrow> handle_table" where
  "upd_entry e f t = t\<lparr>entries := (entries t)(e := f (entries t e))\<rparr>"

text \<open>\<open>cur_koid\<close> is the identifier of the current process, if there is one.\<close>

definition add_handle :: "int option \<Rightarrow> nat \<Rightarrow> handle_table \<Rightarrow> (u64 \<times> handle_table) option" where
  "add_handle cur_koid e t = (
     let pid = (if is_local t \<and> cur_koid \<noteq> None then the cur_koid
                else if is_local t \<and> parent_koid t \<noteq> None then the (parent_koid t)
                else owner_process_id (entries t e));
         t = upd_entry e (\<lambda>h. h\<lparr>owner_process_id := pid, in_table := True\<rparr>) t;
         attr = (if is_local t then HATTR_LOCAL_PROC else HATTR_GLOBAL)
     in do {
       found \<leftarrow> local_get e t;
       case found of
         None \<Rightarrow> do {
           (r, t) \<leftarrow> allocate_slot t;
           p \<leftarrow> get_result r;
           t \<leftarrow> set_slot p (Some e) t;
           Some (MAKE_HANDLE attr p, upd_entry e (\<lambda>h. h\<lparr>e_value := MAKE_HANDLE attr p\<rparr>) t)
         }
       | Some _ \<Rightarrow> Some (e_value (entries t e), t)
     })"

definition get_handle_entry :: "u64 \<Rightarrow> handle_table \<Rightarrow> nat option option" where
  "get_handle_entry h t = (case (DISASSEMBLE_HANDLE h, next_pos t) of
     ((attr, l1, l2, l3, l4), (n1, n2, n3, n4)) \<Rightarrow>
       if (attr AND HATTR_GLOBAL) \<noteq> 0 \<and> is_local t then Some None
       else do {
         kassert (l1 \<le> n1);
         kassert (l2 \<le> n2);
         kassert (l3 \<le> n3);
         kassert (l4 \<le> n4);
         slot_at t (l1, l2, l3, l4)
       })"

fun clear_object :: "nat \<Rightarrow> path list \<Rightarrow> handle_table \<Rightarrow> handle_table option" where
  "clear_object e [] t = Some t"
| "clear_object e (p # ps) t = do {
     slot \<leftarrow> slot_at t p;
     t \<leftarrow> (if same_object t e slot then set_slot p None t else Some t);
     clear_object e ps t
   }"

definition remove_handle_entry :: "nat \<Rightarrow> handle_table \<Rightarrow> handle_table option" where
  "remove_handle_entry e t = do {
     ex \<leftarrow> local_exist e t;
     if \<not> ex then Some t
     else do {
       t \<leftarrow> clear_object e (scan_paths (next_pos t)) t;
       Some (upd_entry e (\<lambda>h. h\<lparr>owner_process_id := - 1, in_table := False\<rparr>) t)
     }
   }"

definition remove_handle :: "u64 \<Rightarrow> handle_table \<Rightarrow> (nat option \<times> handle_table) option" where
  "remove_handle h t = do {
     e \<leftarrow> get_handle_entry h t;
     case e of None \<Rightarrow> Some (None, t)
     | Some e \<Rightarrow> do { t \<leftarrow> remove_handle_entry e t; Some (Some e, t) }
   }"

definition query_handle :: "(handle_entry \<Rightarrow> bool) \<Rightarrow> handle_table \<Rightarrow> nat option option" where
  "query_handle pred t = do {
     r \<leftarrow> scan (\<lambda>slot. case slot of None \<Rightarrow> False | Some e \<Rightarrow> pred (entries t e)) t (scan_paths (next_pos t));
     case r of None \<Rightarrow> Some None | Some p \<Rightarrow> slot_at t p
   }"

definition query_handle_by_name :: "string \<Rightarrow> handle_table \<Rightarrow> nat option option" where
  "query_handle_by_name nm t = do {
     r \<leftarrow> scan (\<lambda>slot. case slot of None \<Rightarrow> False | Some e \<Rightarrow> nm = e_name (entries t e)) t (scan_paths (next_pos t));
     case r of None \<Rightarrow> Some None | Some p \<Rightarrow> slot_at t p
   }"

text \<open>The object manager: the table a handle is looked up in.\<close>

definition om_get_handle_entry :: "u64 \<Rightarrow> handle_table \<Rightarrow> handle_table \<Rightarrow> nat option option" where
  "om_get_handle_entry h proc_table global_table =
     (if \<not> HANDLE_HAS_ATTRIBUTE h HATTR_LOCAL_PROC then get_handle_entry h proc_table
      else get_handle_entry h global_table)"

section \<open>The words of handles\<close>

lemma bound_bits: "l < 2 ^ k \<Longrightarrow> bit l i \<Longrightarrow> i < k" for l :: nat
proof (rule ccontr)
  assume l: "l < 2 ^ k" "bit l i" "\<not> i < k"
  then have "l < 2 ^ i"
    using order_less_le_trans [OF l(1) power_increasing [of k i "2::nat"]] by simp
  then show False
    using l(2) by (simp add: bit_iff_odd)
qed

lemma small_bits: "l < 256 \<Longrightarrow> bit (of_nat l :: u64) i \<Longrightarrow> i < 8"
  using bound_bits [of l 8 i] by (simp add: bit_of_nat_iff)

lemma attr_bits: "a < 2 ^ 16 \<Longrightarrow> bit (a :: u64) i \<Longrightarrow> i < 16"
  using bound_bits [of "unat a" 16 i] by (simp add: bit_unsigned_iff word_less_nat_alt)

lemma byte_field:
  assumes "k + 8 \<le> 64"
  shows "(drop_bit k h AND 0xFF :: u64) = get_field k 8 h"
proof -
  have "(0xFF :: u64) = mask 8"
    by (simp add: mask_eq_exp_minus_1)
  then show ?thesis
    by (simp add: get_field_def take_bit_eq_mask)
qed

lemma bit_MAKE_HANDLE:
  "bit (MAKE_HANDLE a (l1, l2, l3, l4)) i \<longleftrightarrow> i < 64 \<and> (32 \<le> i \<and> bit a (i - 32)
     \<or> 24 \<le> i \<and> bit (of_nat l1 :: u64) (i - 24) \<or> 16 \<le> i \<and> bit (of_nat l2 :: u64) (i - 16)
     \<or> 8 \<le> i \<and> bit (of_nat l3 :: u64) (i - 8) \<or> bit (of_nat l4 :: u64) i)"
  by (auto simp: MAKE_HANDLE_def bit_or_iff bit_push_bit_iff dest: bit_imp_le_length)

lemma handle_fields:
  assumes "a < 2 ^ 16" "l1 < 256" "l2 < 256" "l3 < 256" "l4 < 256"
  defines "h \<equiv> MAKE_HANDLE a (l1, l2, l3, l4)"
  shows "drop_bit 32 h = a" "get_field 24 8 h = of_nat l1" "get_field 16 8 h = of_nat l2"
    "get_field 8 8 h = of_nat l3" "get_field 0 8 h = of_nat l4"
  using small_bits [OF assms(2)] small_bits [OF assms(3)] small_bits [OF assms(4)] small_bits [OF assms(5)]
    attr_bits [OF assms(1)]
  unfolding h_def
  by (intro bit_word_eqI; fastforce simp: bit_drop_bit_eq bit_MAKE_HANDLE)+

lemma unat_small: "l < 256 \<Longrightarrow> unat (of_nat l :: u64) = l"
  by (simp add: unat_of_nat)

lemma disassemble_make:
  assumes "a < 2 ^ 16" "l1 < 256" "l2 < 256" "l3 < 256" "l4 < 256"
  shows "DISASSEMBLE_HANDLE (MAKE_HANDLE a (l1, l2, l3, l4)) = (a, l1, l2, l3, l4)"
proof -
  let ?h = "MAKE_HANDLE a (l1, l2, l3, l4)"
  have "(?h AND 0xFF) = get_field 0 8 ?h"
    using byte_field [of 0 ?h] by simp
  then show ?thesis
    unfolding DISASSEMBLE_HANDLE_def using handle_fields [OF assms] byte_field [of 8 ?h] byte_field [of 16 ?h]
      byte_field [of 24 ?h] assms(2-5) by (simp only: unat_small)
qed

lemma make_alias: "MAKE_HANDLE a (0, 0, 0, 256) = MAKE_HANDLE a (0, 0, 1, 0)"
  by (simp add: MAKE_HANDLE_def push_bit_eq_mult)

section \<open>Tables with one leaf\<close>

text \<open>
  The shape every table has until its first leaf is used up: only the leaf at path 0, 0, 0
  exists, and no slot from \<open>n\<close> on is taken.
\<close>

definition ht_inv :: "nat \<Rightarrow> nat option list \<Rightarrow> handle_table \<Rightarrow> bool" where
  "ht_inv n leaf t \<longleftrightarrow> next_pos t = (0, 0, 0, n) \<and> leaves t (0, 0, 0) = Some leaf
     \<and> length leaf = MAX_HANDLE_PER_TABLE \<and> n < MAX_HANDLE_PER_TABLE
     \<and> (\<forall>i<MAX_HANDLE_PER_TABLE. n \<le> i \<longrightarrow> leaf ! i = None)"

lemma initialize_inv: "ht_inv 0 (replicate MAX_HANDLE_PER_TABLE None) (initialize_table t)"
  by (simp add: ht_inv_def initialize_table_def MAX_HANDLE_PER_TABLE_def)

lemma scan_paths_flat: "scan_paths (0, 0, 0, n) = map (\<lambda>i. (0, 0, 0, i)) [0..<n]"
  by simp

lemma slot_at_inv: "ht_inv n leaf t \<Longrightarrow> i < MAX_HANDLE_PER_TABLE \<Longrightarrow> slot_at t (0, 0, 0, i) = Some (leaf ! i)"
  by (simp add: slot_at_def ht_inv_def)

lemma scan_inv:
  assumes "ht_inv n leaf t" "\<forall>i\<in>set is. i < MAX_HANDLE_PER_TABLE"
  shows "scan P t (map (\<lambda>i. (0, 0, 0, i)) is) = Some (map_option (\<lambda>i. (0, 0, 0, i)) (find (\<lambda>i. P (leaf ! i)) is))"
  using assms(2) by (induction "is") (simp_all add: slot_at_inv [OF assms(1)])

lemma scan_table:
  assumes "ht_inv n leaf t"
  shows "scan P t (scan_paths (next_pos t)) = Some (map_option (\<lambda>i. (0, 0, 0, i)) (find (\<lambda>i. P (leaf ! i)) [0..<n]))"
proof -
  have "next_pos t = (0, 0, 0, n)" "\<forall>i\<in>set [0..<n]. i < MAX_HANDLE_PER_TABLE"
    using assms by (auto simp: ht_inv_def)
  then show ?thesis
    using scan_inv [OF assms, of "[0..<n]" P] by (simp del: scan_paths.simps add: scan_paths_flat)
qed

lemma increase_inv:
  assumes "ht_inv n leaf t" "n + 1 < MAX_HANDLE_PER_TABLE"
  shows "increase_next t = (code_of ERROR_SUCCESS, t\<lparr>next_pos := (0, 0, 0, n + 1)\<rparr>)"
    "ht_inv (n + 1) leaf (t\<lparr>next_pos := (0, 0, 0, n + 1)\<rparr>)"
  using assms by (auto simp: ht_inv_def increase_next_def increase_next_cur_def Let_def)

text \<open>A free slot is the first hole, or the slot behind the last one used.\<close>

lemma allocate_inv:
  assumes inv: "ht_inv n leaf t" and n: "n + 2 < MAX_HANDLE_PER_TABLE"
  obtains i m where "allocate_slot t = Some (Inr (0, 0, 0, i), t\<lparr>next_pos := (0, 0, 0, m)\<rparr>)"
    "i \<le> n" "i < m" "n < m" "m \<le> n + 2" "leaf ! i = None" "ht_inv m leaf (t\<lparr>next_pos := (0, 0, 0, m)\<rparr>)"
proof (cases "find (\<lambda>i. leaf ! i = None) [0..<n]")
  case (Some i)
  then have i: "i < n" "leaf ! i = None"
    by (auto simp: find_Some_iff)
  have "first_free t = Some (Inr (0, 0, 0, i), t)"
    using Some scan_table [OF inv, of "\<lambda>s. s = None"] by (simp add: first_free_def)
  then have "allocate_slot t = Some (Inr (0, 0, 0, i), t\<lparr>next_pos := (0, 0, 0, n + 1)\<rparr>)"
    using increase_inv(1) [OF inv] n by (simp add: allocate_slot_def)
  then show ?thesis
    using that [of i "n + 1"] i n increase_inv(2) [OF inv] by simp
next
  case None
  let ?t = "t\<lparr>next_pos := (0, 0, 0, n + 1)\<rparr>"
  have inv': "ht_inv (n + 1) leaf ?t" "next_pos t = (0, 0, 0, n)"
    using increase_inv(2) [OF inv] n inv by (auto simp: ht_inv_def)
  have "first_free t = Some (Inr (0, 0, 0, n), ?t)"
    using None scan_table [OF inv, of "\<lambda>s. s = None"] increase_inv(1) [OF inv] n inv'(2)
    by (simp add: first_free_def del: scan_paths.simps)
  then have "allocate_slot t = Some (Inr (0, 0, 0, n), t\<lparr>next_pos := (0, 0, 0, n + 2)\<rparr>)"
    using increase_inv(1) [OF inv'(1)] n by (simp add: allocate_slot_def)
  moreover have "leaf ! n = None"
    using inv n by (simp add: ht_inv_def)
  moreover have "ht_inv (n + 2) leaf (t\<lparr>next_pos := (0, 0, 0, n + 2)\<rparr>)"
    using increase_inv(2) [OF inv'(1)] n by simp
  ultimately show ?thesis
    using that [of n "n + 2"] by simp
qed

lemma ht_inv_upd_entry [simp]: "ht_inv n leaf (upd_entry e f t) \<longleftrightarrow> ht_inv n leaf t"
  by (simp add: ht_inv_def upd_entry_def)

lemma set_slot_inv:
  assumes "ht_inv n leaf t" "i < n"
  shows "set_slot (0, 0, 0, i) v t = Some (t\<lparr>leaves := (leaves t)((0, 0, 0) \<mapsto> leaf[i := v])\<rparr>)"
    "ht_inv n (leaf[i := v]) (t\<lparr>leaves := (leaves t)((0, 0, 0) \<mapsto> leaf[i := v])\<rparr>)"
  using assms by (auto simp: ht_inv_def set_slot_def)

definition holds_object :: "nat option list \<Rightarrow> handle_table \<Rightarrow> nat \<Rightarrow> bool" where
  "holds_object leaf t e \<longleftrightarrow> (\<exists>i<length leaf. same_object t e (leaf ! i))"

lemma find_same_object:
  assumes "ht_inv n leaf t"
  shows "(find (\<lambda>i. same_object t e (leaf ! i)) [0..<n] \<noteq> None) = holds_object leaf t e"
proof -
  have "i < n" if "i < length leaf" "same_object t e (leaf ! i)" for i
    using assms that by (auto simp: ht_inv_def same_object_def not_less [symmetric] split: option.splits)
  moreover have "i < length leaf" if "i < n" for i
    using assms that by (auto simp: ht_inv_def)
  ultimately show ?thesis
    by (auto simp: holds_object_def find_None_iff)
qed

lemma get_handle_inv:
  assumes "ht_inv n leaf t" "i < 256" "i \<le> n"
  shows "get_handle_entry (MAKE_HANDLE (if is_local t then HATTR_LOCAL_PROC else HATTR_GLOBAL) (0, 0, 0, i)) t = Some (leaf ! i)"
proof -
  have "DISASSEMBLE_HANDLE (MAKE_HANDLE (if is_local t then HATTR_LOCAL_PROC else HATTR_GLOBAL) (0, 0, 0, i))
      = (if is_local t then HATTR_LOCAL_PROC else HATTR_GLOBAL, 0, 0, 0, i)"
    using disassemble_make [of HATTR_LOCAL_PROC 0 0 0 i] disassemble_make [of HATTR_GLOBAL 0 0 0 i] assms(2)
    by (simp add: HATTR_LOCAL_PROC_def HATTR_GLOBAL_def)
  then show ?thesis
    using assms slot_at_inv [OF assms(1), of i]
    by (auto simp: get_handle_entry_def ht_inv_def HATTR_LOCAL_PROC_def HATTR_GLOBAL_def)
qed

section \<open>Adding and removing\<close>

lemma same_object_upd: "(\<And>h. e_ptr (f h) = e_ptr h) \<Longrightarrow> same_object (upd_entry x f t) e slot = same_object t e slot"
  by (simp add: same_object_def upd_entry_def split: option.splits)

lemma same_object_frame: "entries t' = entries t \<Longrightarrow> same_object t' e slot = same_object t e slot"
  by (cases slot) (simp_all add: same_object_def)

lemma is_local_upd [simp]: "is_local (upd_entry e f t) = is_local t"
  by (simp add: upd_entry_def)

lemma add_handle_inv:
  assumes inv: "ht_inv n leaf t" and n: "n < 254" and new: "\<not> holds_object leaf t e"
  obtains i m t' where "i \<le> n" "i < m" "n < m" "m \<le> n + 2" "leaf ! i = None" "ht_inv m (leaf[i := Some e]) t'"
    "is_local t' = is_local t"
    "add_handle ck e t = Some (MAKE_HANDLE (if is_local t then HATTR_LOCAL_PROC else HATTR_GLOBAL) (0, 0, 0, i), t')"
proof -
  let ?pid = "if is_local t \<and> ck \<noteq> None then the ck
                else if is_local t \<and> parent_koid t \<noteq> None then the (parent_koid t)
                else owner_process_id (entries t e)"
  let ?t = "upd_entry e (\<lambda>h. h\<lparr>owner_process_id := ?pid, in_table := True\<rparr>) t"
  let ?v = "\<lambda>i. MAKE_HANDLE (if is_local t then HATTR_LOCAL_PROC else HATTR_GLOBAL) (0, 0, 0, i)"
  have inv': "ht_inv n leaf ?t"
    using inv by simp
  have "find (\<lambda>i. same_object ?t e (leaf ! i)) [0..<n] = None"
    using find_same_object [OF inv, of e] new by (simp add: same_object_upd)
  then have lg: "local_get e ?t = Some None"
    using scan_table [OF inv', of "same_object ?t e"] by (simp add: local_get_def)
  obtain i m where a: "allocate_slot ?t = Some (Inr (0, 0, 0, i), ?t\<lparr>next_pos := (0, 0, 0, m)\<rparr>)"
    "i \<le> n" "i < m" "n < m" "m \<le> n + 2" "leaf ! i = None" "ht_inv m leaf (?t\<lparr>next_pos := (0, 0, 0, m)\<rparr>)"
    by (rule allocate_inv [OF inv']) (use n in \<open>auto simp: MAX_HANDLE_PER_TABLE_def\<close>)
  let ?s = "?t\<lparr>next_pos := (0, 0, 0, m), leaves := (leaves (?t\<lparr>next_pos := (0, 0, 0, m)\<rparr>))((0, 0, 0) \<mapsto> leaf[i := Some e])\<rparr>"
  have s: "set_slot (0, 0, 0, i) (Some e) (?t\<lparr>next_pos := (0, 0, 0, m)\<rparr>) = Some ?s" "ht_inv m (leaf[i := Some e]) ?s"
    using set_slot_inv [OF a(7,3), of "Some e"] by simp_all
  have "add_handle ck e t = Some (?v i, upd_entry e (\<lambda>h. h\<lparr>e_value := ?v i\<rparr>) ?s)"
    using lg a(1) s(1) by (simp add: add_handle_def Let_def)
  moreover have "is_local ?s = is_local t"
    by (simp add: upd_entry_def)
  ultimately show ?thesis
    using that [of i m "upd_entry e (\<lambda>h. h\<lparr>e_value := ?v i\<rparr>) ?s"] a(2-6) s(2) by simp
qed

lemma get_handle_Some:
  assumes "ht_inv n leaf t" "get_handle_entry h t = Some (Some e)"
  obtains a i where "DISASSEMBLE_HANDLE h = (a, 0, 0, 0, i)" "i \<le> n" "leaf ! i = Some e"
    "\<not> ((a AND HATTR_GLOBAL) \<noteq> 0 \<and> is_local t)"
  using assms
  by (auto simp: get_handle_entry_def ht_inv_def slot_at_def split: prod.splits if_splits)

lemma get_handle_keeps:
  assumes "ht_inv n leaf t" "get_handle_entry h t = Some (Some e)" "ht_inv m leaf' t'" "n \<le> m"
    "is_local t' = is_local t" "\<And>i. leaf ! i = Some e \<Longrightarrow> leaf' ! i = Some e"
  shows "get_handle_entry h t' = Some (Some e)"
proof -
  obtain a i where i: "DISASSEMBLE_HANDLE h = (a, 0, 0, 0, i)" "i \<le> n" "leaf ! i = Some e"
    "\<not> ((a AND HATTR_GLOBAL) \<noteq> 0 \<and> is_local t)"
    by (rule get_handle_Some [OF assms(1,2)])
  have "i < MAX_HANDLE_PER_TABLE"
    using i(2) assms(1) by (simp add: ht_inv_def)
  then show ?thesis
    using i assms(3-5) slot_at_inv [OF assms(3), of i] assms(6) [OF i(3)]
    by (auto simp: get_handle_entry_def ht_inv_def)
qed

lemma clear_object_inv:
  "ht_inv n leaf t \<Longrightarrow> \<forall>i\<in>set is. i < n \<Longrightarrow>
   \<exists>t' leaf'. clear_object e (map (\<lambda>i. (0, 0, 0, i)) is) t = Some t' \<and> ht_inv n leaf' t' \<and> entries t' = entries t
     \<and> (\<forall>i<MAX_HANDLE_PER_TABLE. leaf' ! i = (if i \<in> set is \<and> same_object t e (leaf ! i) then None else leaf ! i))"
proof (induction "is" arbitrary: leaf t)
  case (Cons j js)
  let ?u = "t\<lparr>leaves := (leaves t)((0, 0, 0) \<mapsto> leaf[j := None])\<rparr>"
  have j: "j < n" "j < MAX_HANDLE_PER_TABLE" "length leaf = MAX_HANDLE_PER_TABLE"
    using Cons.prems by (auto simp: ht_inv_def)
  have js: "\<forall>i\<in>set js. i < n"
    using Cons.prems(2) by simp
  have sl: "slot_at t (0, 0, 0, j) = Some (leaf ! j)"
    using slot_at_inv [OF Cons.prems(1) j(2)] .
  show ?case
  proof (cases "same_object t e (leaf ! j)")
    case True
    have u: "set_slot (0, 0, 0, j) None t = Some ?u" "ht_inv n (leaf[j := None]) ?u" "entries ?u = entries t"
      using set_slot_inv [OF Cons.prems(1) j(1), of None] by simp_all
    obtain t' leaf' where "clear_object e (map (\<lambda>i. (0, 0, 0, i)) js) ?u = Some t'" "ht_inv n leaf' t'"
      "entries t' = entries ?u"
      "\<forall>i<MAX_HANDLE_PER_TABLE. leaf' ! i = (if i \<in> set js \<and> same_object ?u e (leaf[j := None] ! i) then None
         else leaf[j := None] ! i)"
      using Cons.IH [OF u(2) js] by blast
    moreover have "same_object ?u e x = same_object t e x" for x
      by (rule same_object_frame) simp
    ultimately show ?thesis
      using sl u(1) True j by (intro exI [of _ t'] exI [of _ leaf'])
        (auto simp: nth_list_update same_object_def split: if_splits)
  next
    case False
    obtain t' leaf' where "clear_object e (map (\<lambda>i. (0, 0, 0, i)) js) t = Some t'" "ht_inv n leaf' t'"
      "entries t' = entries t"
      "\<forall>i<MAX_HANDLE_PER_TABLE. leaf' ! i = (if i \<in> set js \<and> same_object t e (leaf ! i) then None else leaf ! i)"
      using Cons.IH [OF Cons.prems(1) js] by blast
    then show ?thesis
      using sl False by (intro exI [of _ t'] exI [of _ leaf']) auto
  qed
qed auto

section \<open>Properties\<close>

text \<open>
  C10. Adding a new object yields a handle that leads back to its entry, every handle handed out
  before stays valid, and the table keeps its shape. The slots in play are those whose index
  fits the eight bits a handle has for it.
\<close>

theorem handle_add_lookup:
  assumes "ht_inv n leaf t" "n < 254" "\<not> holds_object leaf t e"
  shows "\<exists>h m leaf' t'. add_handle ck e t = Some (h, t') \<and> ht_inv m leaf' t' \<and> m \<le> n + 2
      \<and> get_handle_entry h t' = Some (Some e)
      \<and> (\<forall>h' e'. get_handle_entry h' t = Some (Some e') \<longrightarrow> get_handle_entry h' t' = Some (Some e'))"
proof -
  obtain i m t' where a: "i \<le> n" "i < m" "n < m" "m \<le> n + 2" "leaf ! i = None" "ht_inv m (leaf[i := Some e]) t'"
    "is_local t' = is_local t"
    "add_handle ck e t = Some (MAKE_HANDLE (if is_local t then HATTR_LOCAL_PROC else HATTR_GLOBAL) (0, 0, 0, i), t')"
    by (rule add_handle_inv [OF assms]) (rule that; assumption)
  have "length leaf = MAX_HANDLE_PER_TABLE" "n < MAX_HANDLE_PER_TABLE"
    using assms(1) by (auto simp: ht_inv_def)
  then have "get_handle_entry (MAKE_HANDLE (if is_local t then HATTR_LOCAL_PROC else HATTR_GLOBAL) (0, 0, 0, i)) t' = Some (Some e)"
    using get_handle_inv [OF a(6), of i] a(1-3,7) assms(2) by simp
  moreover have keep: "leaf[i := Some e] ! j = Some e'" if "leaf ! j = Some e'" for j e'
    using that a(5) by (cases "i = j") auto
  have "get_handle_entry h' t' = Some (Some e')" if "get_handle_entry h' t = Some (Some e')" for h' e'
    by (rule get_handle_keeps [OF assms(1) that a(6)]) (use a(3,7) keep in auto)
  ultimately show ?thesis
    using a(4,6,8) by blast
qed

definition demo_table :: handle_table where
  "demo_table = initialize_table \<lparr>is_local = True, parent_koid = None, leaves = (\<lambda>_. None), next_pos = (0, 0, 0, 0),
     entries = (\<lambda>e. \<lparr>e_ptr = e, e_name = ''obj'', owner_process_id = - 1, in_table = False, e_value = 0\<rparr>)\<rparr>"

lemma demo_table_inv: "ht_inv 0 (replicate MAX_HANDLE_PER_TABLE None) demo_table"
  unfolding demo_table_def by (rule initialize_inv)

lemma demo_table_empty: "\<not> holds_object (replicate MAX_HANDLE_PER_TABLE None) demo_table e"
  by (simp add: holds_object_def same_object_def)

theorem handle_add_lookup_witness:
  "\<exists>h t. add_handle (Some 7) 3 demo_table = Some (h, t) \<and> get_handle_entry h t = Some (Some 3)"
  using handle_add_lookup [of 0 "replicate MAX_HANDLE_PER_TABLE None" demo_table 3 "Some 7"]
    demo_table_inv demo_table_empty by auto

text \<open>
  C21. Removing an entry empties every slot that refers to its object and no other one; afterwards
  the object is not found any more.
\<close>

theorem handle_remove:
  assumes "ht_inv n leaf t"
  shows "\<exists>t' leaf'. remove_handle_entry e t = Some t' \<and> ht_inv n leaf' t' \<and> local_exist e t' = Some False
      \<and> (\<forall>i<MAX_HANDLE_PER_TABLE. leaf' ! i = (if same_object t e (leaf ! i) then None else leaf ! i))"
proof (cases "holds_object leaf t e")
  case False
  have le: "local_exist e t = Some False"
    using False find_same_object [OF assms, of e] scan_table [OF assms, of "same_object t e"]
    by (simp add: local_exist_def)
  moreover have "\<not> same_object t e (leaf ! i)" if "i < MAX_HANDLE_PER_TABLE" for i
    using False that assms by (auto simp: holds_object_def ht_inv_def)
  ultimately show ?thesis
    using assms by (intro exI [of _ t] exI [of _ leaf]) (simp add: remove_handle_entry_def)
next
  case True
  have n: "next_pos t = (0, 0, 0, n)" "\<And>i. i < MAX_HANDLE_PER_TABLE \<Longrightarrow> same_object t e (leaf ! i) \<Longrightarrow> i < n"
    using assms by (auto simp: ht_inv_def same_object_def not_less [symmetric] split: option.splits)
  have le: "local_exist e t = Some True"
    using True find_same_object [OF assms, of e] scan_table [OF assms, of "same_object t e"]
    by (simp add: local_exist_def)
  obtain t1 leaf' where 1: "clear_object e (map (\<lambda>i. (0, 0, 0, i)) [0..<n]) t = Some t1" "ht_inv n leaf' t1"
    "entries t1 = entries t"
    "\<forall>i<MAX_HANDLE_PER_TABLE. leaf' ! i = (if i \<in> set [0..<n] \<and> same_object t e (leaf ! i) then None else leaf ! i)"
    using clear_object_inv [OF assms, of "[0..<n]" e] by auto
  let ?t = "upd_entry e (\<lambda>h. h\<lparr>owner_process_id := - 1, in_table := False\<rparr>) t1"
  have leaf': "leaf' ! i = (if same_object t e (leaf ! i) then None else leaf ! i)" if "i < MAX_HANDLE_PER_TABLE" for i
    using 1(4) that n(2) by auto
  have so: "same_object ?t e x = same_object t e x" for x
    using same_object_upd [of "\<lambda>h. h\<lparr>owner_process_id := - 1, in_table := False\<rparr>" e t1 e x]
      same_object_frame [OF 1(3), of e x] by simp
  have inv': "ht_inv n leaf' ?t"
    using 1(2) by simp
  have "\<not> holds_object leaf' ?t e"
    using leaf' 1(2) by (auto simp: holds_object_def so ht_inv_def) (auto simp: same_object_def split: if_splits)
  then have "local_exist e ?t = Some False"
    using find_same_object [OF inv', of e] scan_table [OF inv', of "same_object ?t e"] by (simp add: local_exist_def)
  moreover have "remove_handle_entry e t = Some ?t"
    using le 1(1) by (simp add: remove_handle_entry_def n(1) scan_paths_flat del: scan_paths.simps)
  ultimately show ?thesis
    using inv' leaf' by blast
qed

theorem handle_remove_witness: "\<exists>t'. remove_handle_entry 3 demo_table = Some t' \<and> local_exist 3 t' = Some False"
  using handle_remove [OF demo_table_inv, of 3] by blast

text \<open>
  C28. A handle determines the attribute and the four indices as long as each index is below 256.
  The tables have 512 slots: the handle of slot 256 is that of slot 0 in the next table, and
  looking it up fails an assertion although the slot is taken.
\<close>

theorem handle_index_width:
  "(a < 2 ^ 16 \<and> l1 < 256 \<and> l2 < 256 \<and> l3 < 256 \<and> l4 < 256 \<longrightarrow>
      DISASSEMBLE_HANDLE (MAKE_HANDLE a (l1, l2, l3, l4)) = (a, l1, l2, l3, l4))
   \<and> (ht_inv n leaf t \<longrightarrow> is_local t \<longrightarrow> get_handle_entry (MAKE_HANDLE HATTR_LOCAL_PROC (0, 0, 0, 256)) t = None)"
proof (intro conjI impI)
  show "DISASSEMBLE_HANDLE (MAKE_HANDLE a (l1, l2, l3, l4)) = (a, l1, l2, l3, l4)"
    if "a < 2 ^ 16 \<and> l1 < 256 \<and> l2 < 256 \<and> l3 < 256 \<and> l4 < 256"
    using that disassemble_make by blast
  assume t: "ht_inv n leaf t" "is_local t"
  have "DISASSEMBLE_HANDLE (MAKE_HANDLE HATTR_LOCAL_PROC (0, 0, 0, 256)) = (HATTR_LOCAL_PROC, 0, 0, 1, 0)"
    unfolding make_alias by (rule disassemble_make) (simp_all add: HATTR_LOCAL_PROC_def)
  then show "get_handle_entry (MAKE_HANDLE HATTR_LOCAL_PROC (0, 0, 0, 256)) t = None"
    using t by (simp add: get_handle_entry_def ht_inv_def HATTR_LOCAL_PROC_def HATTR_GLOBAL_def)
qed

theorem handle_index_width_witness:
  "DISASSEMBLE_HANDLE (MAKE_HANDLE 2 (1, 2, 3, 4)) = (2, 1, 2, 3, 4)
   \<and> get_handle_entry (MAKE_HANDLE HATTR_LOCAL_PROC (0, 0, 0, 256)) demo_table = None"
proof -
  have "is_local demo_table"
    by (simp add: demo_table_def initialize_table_def)
  then show ?thesis
    using handle_index_width [of 2 1 2 3 4] handle_index_width [of 0 0 0 0 0 0 _ demo_table] demo_table_inv by simp
qed



end
