(* ===== verification/Spec2Isabelle.thy ===== *)
theory Spec2Isabelle
  imports Intrusive_List Avl_Tree Kernel_Arith Buddy Ipc_Message Ipc_State Kernel_Time Handle_Table
begin

text \<open>
  Verification of the kernel of project-dionysus, a C++ microkernel for x86-64.

  \<^bold>\<open>The program.\<close> Physical pages come from a buddy allocator. Threads are run by one scheduler per
  processor, wait in wait queues, synchronise with semaphores and exchange messages; all of them
  are linked into intrusive lists. Objects are named by handles in handle tables. Containers,
  arithmetic helpers and time arithmetic are shared by all of it. The semaphores rest on the wait
  queues, these on the scheduler; message passing rests on the semaphores and on the message
  format.

  \<^bold>\<open>Conventions.\<close> Operations are functions with explicit state. A panic, a failed assertion, an
  access outside an array, a loop that does not end and other undefined behaviour are \<open>None\<close>;
  where an operation returns an \<^verbatim>\<open>error_code\<close> this is an integer in the result, negative for
  errors, as in the source. \<^verbatim>\<open>uint64_t\<close> is a 64-bit word; signed times are integers with the
  wrap-around written out. An operation under a lock is one atomic step. Taking a lock that the
  processor already holds is a panic of the source and \<open>None\<close> here where it decides the outcome.

  \<^bold>\<open>The theories.\<close>

  \<^item> \<^theory_text>\<open>Kernel_Prelude\<close>: machine types, the error codes of \<^verbatim>\<open>include/system/error.hpp\<close>, the
    assertion \<open>kassert\<close>, and generic facts.

  \<^item> \<^theory_text>\<open>Link_Heap\<close>, \<^theory_text>\<open>Intrusive_List\<close>: \<^verbatim>\<open>kern/libs/kbl/include/kbl/data/list.hpp\<close>. Links live in an
    explicit heap from addresses to nodes, so that aliasing and dangling links are visible. The
    predicate \<open>ilist\<close> relates heap and list object to the sequence of items. The operations are
    shown to act on sequences and to keep other lists: queue order, removal of any item, clearing,
    counting, merging, swapping and splicing. The locale \<open>item_deleter\<close> is the contract of a
    deleter, interpreted for both deleters of the source; \<open>queue_container\<close> is the contract of a
    queue, interpreted for the list.

  \<^item> \<^theory_text>\<open>Avl_Tree\<close>: \<^verbatim>\<open>AVLTree\<close> of \<^verbatim>\<open>kbl/data/avl_tree.hpp\<close>. Order, balance and stored heights are kept by
    insertion and removal; lookup after insertion; the logarithmic height bound; the locale
    \<open>insert_map\<close> is the contract of a map, interpreted for the tree.

  \<^item> \<^theory_text>\<open>Kernel_Arith\<close>: logarithms and rounding of \<^verbatim>\<open>include/system/types.h\<close>, pages and table indices of
    \<^verbatim>\<open>include/system/mmu.h\<close>, the address layout of \<^verbatim>\<open>include/system/memlayout.h\<close> and the conversions of
    \<^verbatim>\<open>kern/memory/vmm/address.cc\<close>.

  \<^item> \<^theory_text>\<open>Buddy\<close>: \<^verbatim>\<open>kern/memory/pmm/buddy_provider.cc\<close>. The record \<open>buddy_provider\<close> has the page
    descriptors, the zones and the free lists. \<open>buddy_inv\<close> says that free blocks are disjoint and
    that descriptors and lists agree. The locale \<open>page_source\<close> is the contract of a page source,
    interpreted for the provider; allocations are disjoint and freeing gives back what was taken.

  \<^item> \<^theory_text>\<open>Bit_Field\<close>, \<^theory_text>\<open>Ipc_Message\<close>: packed registers; flexpages of \<^verbatim>\<open>include/memory/fpage.hpp\<close> and the
    messages of \<^verbatim>\<open>include/task/ipc/public/messages.hpp\<close>. The register layout refines two lists, of
    untyped and of typed registers.

  \<^item> \<^theory_text>\<open>Ipc_State\<close>: \<^verbatim>\<open>kern/task/thread/ipc_state.cc\<close>. Delivery from end to end, the one token of a mailbox
    over all sequences of operations, and what is lost where the registers are shared. Its
    semaphores are counts that are taken when positive; that waiters are served in order is shown
    for the semaphores themselves.

  \<^item> \<^theory_text>\<open>Scheduler\<close>, \<^theory_text>\<open>Wait_Queue\<close>: \<^verbatim>\<open>kern/task/scheduler/scheduler.cc\<close>, \<^verbatim>\<open>fcfs/fcfs.cc\<close>,
    \<^verbatim>\<open>kern/task/thread/wait_queue.cc\<close>, \<^verbatim>\<open>kern/libs/kbl/lock/semaphore.cc\<close> and the life of a thread in
    \<^verbatim>\<open>kern/task/thread/thread.cc\<close>. The record \<open>kstate\<close> has the threads, processors with their run
    queues, wait queues, semaphore counts and timers. Every operation keeps \<open>sys_inv\<close>; the step
    relation \<open>kstep\<close> lets any processor carry out any operation, and the invariant holds in all
    states reachable from an initial one. Rotation of the run queue is fair.

  \<^item> \<^theory_text>\<open>Kernel_Time\<close>: saturating arithmetic of \<^verbatim>\<open>include/system/time.hpp\<close> and deadlines of
    \<^verbatim>\<open>kern/task/thread/deadline.cc\<close>.

  \<^item> \<^theory_text>\<open>Handle_Table\<close>: \<^verbatim>\<open>kern/object/handle_table.cc\<close>, \<^verbatim>\<open>handle_entry.cc\<close> and
    \<^verbatim>\<open>include/object/ref_counted.hpp\<close>. Slots, lookup, addition and removal, and the reference count.

  \<^bold>\<open>Loops.\<close> The loops of the buddy allocator and of the tables are total functions with a measure.
  The loops over links (\<open>clear_loop\<close>, \<open>size_loop\<close>, \<open>merge_loop\<close>, \<open>drain_loop\<close>) and the loop that
  fires timers may not end on a corrupt structure and are partial functions into \<open>option\<close>; that
  those over links return on every represented list is proved. No fuel is used.

  \<^bold>\<open>Where the code falls short.\<close> Some properties state what the code does where this is not what it
  means to do: a second acquisition of the timer lock when a timer expires, an assertion that
  forbids readying on another processor, a reference count that is not increased, an off-by-one
  when reading typed items, tables with more slots than handles can name, a message overwritten by
  the next one loaded.

  \<^bold>\<open>Not modelled.\<close>

  \<^item> Page tables, address spaces, segmentation, interrupt controllers, device drivers, boot code and
    context switches: their meaning is that of the hardware they program.

  \<^item> The slab allocator and \<^verbatim>\<open>kmalloc\<close>: their free lists live inside the pages they manage, which needs
    a memory of bytes.

  \<^item> Processes, the program loader and user stacks, which are built on address spaces; jobs, which are
    trees of shared pointers.

  \<^item> The file systems, which are defined by their effect on disk blocks through the device layer.

  \<^item> The system call layer, which decodes registers and calls the operations above; it panics on most
    of the errors these return.

  \<^item> In threads: kernel stacks, register frames and names. In handle tables: \<^verbatim>\<open>clear\<close> and the
    translation between process and global tables. In message passing: the transfer of flexpages
    and strings behind the second acquisition of the lock, which no execution reaches.

  \<^item> Interleavings inside an operation: the source holds a lock for the whole of it, and the atomic
    instructions of the locks are not modelled.
\<close>

end
